(* ===== verification/Prelude.thy ===== *)
theory Prelude
  imports Main "HOL-Library.Word"
begin

unbundle bit_operations_syntax

text \<open>
  Shared vocabulary of the development: the C integer types of \<^verbatim>\<open>kernel/types.h\<close> as machine
  words, the outcome of a kernel function (a value, or the way in which it stopped), byte
  memories with little-endian loads and stores, and the generic lemmas on words, byte
  ranges and arrays that the component theories use.
\<close>

section \<open>Integer types\<close>

type_synonym uchar = "8 word"
type_synonym ushort = "16 word"
type_synonym uint = "32 word"
type_synonym uint64 = "64 word"

text \<open>A signed C \<open>int\<close> is kept as its 32-bit pattern; signed comparisons read it with \<open>sint\<close>.\<close>

type_synonym cint = "32 word"

named_theorems run_simps \<open>how the sequencing combinators reduce\<close>
named_theorems mem_simps \<open>reads of a byte memory after a write\<close>
named_theorems page_simps \<open>page rounding and page-table index arithmetic\<close>

section \<open>Outcomes\<close>

text \<open>
  A sleep channel is the address handed to \<^verbatim>\<open>sleep\<close> and \<^verbatim>\<open>wakeup\<close>. The model names the
  addresses the kernel uses instead of numbering them.
\<close>

datatype chan =
    ChNone
  | ChTicks
  | ChProc nat
  | ChPipeRead uint64
  | ChPipeWrite uint64
  | ChLog
  | ChBufLock nat
  | ChInodeLock nat
  | ChCons
  | ChUartTx
  | ChDiskFree
  | ChDiskBuf nat

text \<open>
  How a kernel function can fail to return: it calls \<^verbatim>\<open>panic\<close> with a message, it performs an
  access that C leaves undefined (an array index out of bounds, a null dereference), it
  would go to sleep on a channel, it spins on a lock another hart holds, or a recursion of
  the model ran out of fuel.
\<close>

datatype stop = Panic string | Fault string | Sleeps chan | Spinning | OutOfFuel

datatype 'a result = Ok 'a | Stop stop

fun rbind :: "'a result \<Rightarrow> ('a \<Rightarrow> 'b result) \<Rightarrow> 'b result" where
  "rbind (Ok x) f = f x"
| "rbind (Stop e) f = Stop e"

declare rbind.simps [run_simps]

lemma rbind_Ok_iff: "rbind m f = Ok y \<longleftrightarrow> (\<exists>x. m = Ok x \<and> f x = Ok y)"
  by (cases m) auto

lemma rbind_OkE [elim]:
  assumes "rbind m f = Ok y"
  obtains x where "m = Ok x" and "f x = Ok y"
  using assms by (cases m) auto

lemma rbind_Stop_iff:
  "rbind m f = Stop e \<longleftrightarrow> m = Stop e \<or> (\<exists>x. m = Ok x \<and> f x = Stop e)"
  by (cases m) auto

lemma rbind_cong [fundef_cong]:
  "m = m' \<Longrightarrow> (\<And>x. m' = Ok x \<Longrightarrow> f x = f' x) \<Longrightarrow> rbind m f = rbind m' f'"
  by (cases m') auto

lemma rbind_assoc: "rbind (rbind m f) g = rbind m (\<lambda>x. rbind (f x) g)"
  by (cases m) auto

lemma rbind_Ok_right [simp]: "rbind m Ok = m"
  by (cases m) auto

text \<open>A C \<open>for\<close> loop over a range of indices, left early when the body stops.\<close>

primrec for_each :: "('i \<Rightarrow> 's \<Rightarrow> 's result) \<Rightarrow> 'i list \<Rightarrow> 's \<Rightarrow> 's result" where
  "for_each f [] s = Ok s"
| "for_each f (i # is) s = rbind (f i s) (for_each f is)"

lemma for_each_append: "for_each f (is @ js) s = rbind (for_each f is s) (for_each f js)"
  by (induction "is" arbitrary: s) (auto simp: rbind_assoc intro!: rbind_cong)

lemma for_each_cong [fundef_cong]:
  assumes "is = is'" and "s = s'" and "\<And>i t. i \<in> set is' \<Longrightarrow> f i t = f' i t"
  shows "for_each f is s = for_each f' is' s'"
  using assms(3) unfolding assms(1,2)
  by (induction is' arbitrary: s') (auto intro: rbind_cong)

text \<open>
  The rule for such a loop: an invariant indexed by the number of rounds done.
\<close>

lemma for_each_range:
  assumes "I 0 s"
    and "\<And>i t. i < n \<Longrightarrow> I i t \<Longrightarrow> \<exists>t'. f i t = Ok t' \<and> I (Suc i) t'"
  shows "\<exists>s'. for_each f [0..<n] s = Ok s' \<and> I n s'"
  using assms(2)
proof (induction n)
  case (Suc n)
  then obtain t where "for_each f [0..<n] s = Ok t" and "I n t" by force
  moreover from this Suc.prems obtain t' where "f n t = Ok t'" and "I (Suc n) t'" by blast
  ultimately show ?case by (simp add: for_each_append)
qed (use assms(1) in simp)

definition is_ok :: "'a result \<Rightarrow> bool" where
  "is_ok r \<longleftrightarrow> (case r of Ok _ \<Rightarrow> True | Stop _ \<Rightarrow> False)"

lemma is_ok_simps [simp]: "is_ok (Ok x)" "\<not> is_ok (Stop e)"
  by (simp_all add: is_ok_def)

section \<open>Word arithmetic\<close>

lemma unat_add_small:
  fixes a b :: "'w::len word"
  assumes "unat a + unat b < 2 ^ LENGTH('w)"
  shows "unat (a + b) = unat a + unat b"
  using assms by (simp add: unat_add_lem)

lemma unat_of_nat_small:
  assumes "n < 2 ^ LENGTH('w::len)"
  shows "unat (of_nat n :: 'w word) = n"
  using assms by (simp add: unat_of_nat)

lemma neq_via_unat: "unat x \<noteq> unat y \<Longrightarrow> x \<noteq> y"
  by auto

lemma unat_diff_small:
  fixes x y :: "'w::len word"
  assumes "unat x < i" and "unat y < j"
  shows "unat (x - y) < i \<or> unat (y - x) < j"
  using assms by (cases "y \<le> x") (auto simp: unat_sub word_le_nat_alt not_le)

lemma unat_less_64 [simp]: "unat (a :: uint64) < 18446744073709551616"
  using unsigned_less [of a] by simp

lemma unat_less_32 [simp]: "unat (a :: uint) < 4294967296"
  using unsigned_less [of a] by simp

lemma unat_uint_to_uint64 [simp]: "unat (ucast (n :: uint) :: uint64) = unat n"
proof -
  have "unat n < 2 ^ 64" by (rule less_trans [OF unat_less_32]) simp
  then show ?thesis by (simp add: unsigned_ucast_eq take_bit_nat_eq_self_iff)
qed

lemma uint_to_uint64_of_nat: "(ucast (n :: uint) :: uint64) = of_nat (unat n)"
proof -
  have "unat n < 2 ^ 64" by (rule less_trans [OF unat_less_32]) simp
  then show ?thesis by (simp add: word_unat_eq_iff unat_of_nat)
qed

section \<open>Byte memories\<close>

text \<open>
  A byte memory is a total function from 64-bit addresses. Address \<open>a\<close> lies in the \<open>n\<close> bytes
  from \<open>d\<close> iff \<open>unat (a - d) < n\<close>: the subtraction wraps, so this also holds of a range that
  runs past the top of the address space.
\<close>

type_synonym bytes = "uint64 \<Rightarrow> uchar"

definition in_range :: "uint64 \<Rightarrow> uint64 \<Rightarrow> nat \<Rightarrow> bool" where
  "in_range a d n \<longleftrightarrow> unat (a - d) < n"

text \<open>\<open>blit m d src s n\<close> is \<open>m\<close> with the \<open>n\<close> bytes at \<open>d\<close> replaced by those of \<open>src\<close> at \<open>s\<close>.\<close>

definition blit :: "bytes \<Rightarrow> uint64 \<Rightarrow> bytes \<Rightarrow> uint64 \<Rightarrow> nat \<Rightarrow> bytes" where
  "blit m d src s n = (\<lambda>a. if in_range a d n then src (s + (a - d)) else m a)"

text \<open>\<open>fill m d c n\<close> is \<open>m\<close> with the \<open>n\<close> bytes at \<open>d\<close> set to \<open>c\<close>.\<close>

definition fill :: "bytes \<Rightarrow> uint64 \<Rightarrow> uchar \<Rightarrow> nat \<Rightarrow> bytes" where
  "fill m d c n = (\<lambda>a. if in_range a d n then c else m a)"

text \<open>Little-endian load and store of \<open>n\<close> bytes.\<close>

primrec load_le :: "bytes \<Rightarrow> uint64 \<Rightarrow> nat \<Rightarrow> 'w::len word" where
  "load_le m a 0 = 0"
| "load_le m a (Suc n) = ucast (m a) OR push_bit 8 (load_le m (a + 1) n)"

primrec store_le :: "bytes \<Rightarrow> uint64 \<Rightarrow> nat \<Rightarrow> 'w::len word \<Rightarrow> bytes" where
  "store_le m a 0 v = m"
| "store_le m a (Suc n) v = (store_le m (a + 1) n (drop_bit 8 v)) (a := ucast v)"

definition load64 :: "bytes \<Rightarrow> uint64 \<Rightarrow> uint64" where
  "load64 m a = load_le m a 8"

definition store64 :: "bytes \<Rightarrow> uint64 \<Rightarrow> uint64 \<Rightarrow> bytes" where
  "store64 m a v = store_le m a 8 v"

definition load32 :: "bytes \<Rightarrow> uint64 \<Rightarrow> uint" where
  "load32 m a = load_le m a 4"

definition store32 :: "bytes \<Rightarrow> uint64 \<Rightarrow> uint \<Rightarrow> bytes" where
  "store32 m a v = store_le m a 4 v"

definition load16 :: "bytes \<Rightarrow> uint64 \<Rightarrow> ushort" where
  "load16 m a = load_le m a 2"

definition store16 :: "bytes \<Rightarrow> uint64 \<Rightarrow> ushort \<Rightarrow> bytes" where
  "store16 m a v = store_le m a 2 v"

lemma in_range_0 [simp]: "\<not> in_range a d 0"
  by (simp add: in_range_def)

lemma in_range_self [simp]: "in_range d d n \<longleftrightarrow> 0 < n"
  by (simp add: in_range_def)

lemma in_range_Suc:
  assumes "Suc n \<le> 2 ^ 64"
  shows "in_range a d (Suc n) \<longleftrightarrow> a = d \<or> in_range a (d + 1) n"
proof (cases "a = d")
  case False
  then have "a - d \<noteq> 0" by simp
  then have "0 < unat (a - d)" by (simp add: unat_gt_0)
  then have "1 \<le> a - d" by (simp add: word_le_nat_alt)
  then have "unat (a - (d + 1)) = unat (a - d) - 1"
    using unat_sub [of 1 "a - d"] by (simp add: algebra_simps)
  with False \<open>0 < unat (a - d)\<close> show ?thesis by (auto simp: in_range_def)
qed (simp add: in_range_def)

lemma unat_diff_eq_iff:
  assumes "i < 2 ^ 64"
  shows "unat ((a :: uint64) - d) = i \<longleftrightarrow> a = d + of_nat i"
proof
  assume "unat (a - d) = i"
  then have "a - d = of_nat i"
    using assms by (simp only: word_unat_eq_iff [of "a - d"]) (simp add: unat_of_nat)
  then show "a = d + of_nat i" by (simp add: diff_eq_eq add.commute)
next
  assume "a = d + of_nat i"
  then show "unat (a - d) = i"
    using assms by (simp add: unat_of_nat)
qed

lemma in_range_Suc_right:
  assumes "n < 2 ^ 64"
  shows "in_range a d (Suc n) \<longleftrightarrow> a = d + of_nat n \<or> in_range a d n"
  using unat_diff_eq_iff [OF assms, of a d] by (auto simp: in_range_def less_Suc_eq)

lemma not_in_range_next:
  assumes "n < 2 ^ 64"
  shows "\<not> in_range a (a + 1) n"
proof -
  have "unat (a - (a + 1)) = 2 ^ 64 - 1"
    by (simp add: unsigned_minus_1_eq_mask mask_eq_exp_minus_1)
  with assms show ?thesis by (simp add: in_range_def)
qed

lemma in_range_mono: "in_range a d n \<Longrightarrow> n \<le> k \<Longrightarrow> in_range a d k"
  by (simp add: in_range_def)

lemma in_range_no_wrap:
  assumes "unat d + n \<le> 2 ^ 64"
  shows "in_range a d n \<longleftrightarrow> unat d \<le> unat a \<and> unat a < unat d + n"
  using assms unsigned_less [of a] by (auto simp: in_range_def unat_sub_if')


lemma in_range_sub:
  assumes "in_range b a k" and "unat (a - d) + k \<le> n"
  shows "in_range b d n"
proof -
  have "unat (b - d) \<le> unat (b - a) + unat (a - d)"
    using unat_word_ariths(1) [of "b - a" "a - d"] by simp
  with assms show ?thesis by (simp add: in_range_def)
qed

lemma in_range_add:
  assumes "i < n" and "n \<le> 2 ^ 64"
  shows "in_range (d + of_nat i) d n"
  using assms by (simp add: in_range_def unat_of_nat)

lemma fill_apply [mem_simps]:
  "in_range a d n \<Longrightarrow> fill m d c n a = c"
  "\<not> in_range a d n \<Longrightarrow> fill m d c n a = m a"
  by (simp_all add: fill_def)

lemma blit_apply [mem_simps]:
  "in_range a d n \<Longrightarrow> blit m d src s n a = src (s + (a - d))"
  "\<not> in_range a d n \<Longrightarrow> blit m d src s n a = m a"
  by (simp_all add: blit_def)

lemma blit_0 [simp]: "blit m d src s 0 = m"
  by (simp add: blit_def)

lemma fill_0 [simp]: "fill m d c 0 = m"
  by (simp add: fill_def)

lemma load_le_cong:
  assumes "\<And>b. in_range b a n \<Longrightarrow> m b = m' b" and "n \<le> 2 ^ 64"
  shows "(load_le m a n :: 'w::len word) = load_le m' a n"
  using assms
proof (induction n arbitrary: a)
  case (Suc n)
  have "m a = m' a" by (rule Suc.prems) simp
  moreover have "(load_le m (a + 1) n :: 'w word) = load_le m' (a + 1) n"
    by (rule Suc.IH) (use Suc.prems in \<open>auto simp: in_range_Suc\<close>)
  ultimately show ?case by simp
qed simp

lemma store_le_outside:
  assumes "\<not> in_range b a n" and "n \<le> 2 ^ 64"
  shows "store_le m a n v b = m b"
  using assms
proof (induction n arbitrary: a v)
  case (Suc n)
  then have "b \<noteq> a" and "\<not> in_range b (a + 1) n"
    by (simp_all add: in_range_Suc)
  with Suc show ?case by simp
qed simp

lemma load_store_le_same:
  fixes v :: "'w::len word"
  assumes "n < 2 ^ 64"
  shows "load_le (store_le m a n v) a n = take_bit (8 * n) v"
  using assms
proof (induction n arbitrary: a v)
  case (Suc n)
  have "load_le ((store_le m (a + 1) n (drop_bit 8 v)) (a := ucast v)) (a + 1) n
      = load_le (store_le m (a + 1) n (drop_bit 8 v)) (a + 1) n"
    by (rule load_le_cong) (use Suc.prems not_in_range_next in auto)
  also have "\<dots> = take_bit (8 * n) (drop_bit 8 v)"
    using Suc by simp
  finally have "load_le (store_le m a (Suc n) v) a (Suc n)
      = ucast (ucast v :: uchar) OR push_bit 8 (take_bit (8 * n) (drop_bit 8 v))"
    by simp
  also have "\<dots> = take_bit (8 * Suc n) v"
    by (rule bit_eqI) (auto simp: bit_simps)
  finally show ?case .
qed simp

lemma load_store_le_other:
  assumes "\<And>b. in_range b a n \<Longrightarrow> \<not> in_range b a' k" and "n \<le> 2 ^ 64" and "k \<le> 2 ^ 64"
  shows "load_le (store_le m a' k v) a n = load_le m a n"
  by (rule load_le_cong) (use assms in \<open>auto simp: store_le_outside\<close>)

lemma load64_store64_same [mem_simps, simp]: "load64 (store64 m a v) a = v"
  by (simp add: load64_def store64_def load_store_le_same take_bit_word_eq_self
      del: load_le.simps store_le.simps)

lemma load32_store32_same [mem_simps, simp]: "load32 (store32 m a v) a = v"
  by (simp add: load32_def store32_def load_store_le_same take_bit_word_eq_self
      del: load_le.simps store_le.simps)

lemma load16_store16_same [mem_simps, simp]: "load16 (store16 m a v) a = v"
  by (simp add: load16_def store16_def load_store_le_same take_bit_word_eq_self
      del: load_le.simps store_le.simps)

lemma load64_cong:
  "(\<And>b. in_range b a 8 \<Longrightarrow> m b = m' b) \<Longrightarrow> load64 m a = load64 m' a"
  unfolding load64_def by (rule load_le_cong) simp_all

lemma store64_outside [mem_simps]: "\<not> in_range b a 8 \<Longrightarrow> store64 m a v b = m b"
  unfolding store64_def by (rule store_le_outside) simp_all

lemma load64_store64_other:
  assumes "\<And>b. in_range b a 8 \<Longrightarrow> \<not> in_range b a' 8"
  shows "load64 (store64 m a' v) a = load64 m a"
  by (rule load64_cong) (use assms in \<open>auto simp: store64_outside\<close>)

lemma load_le_fill_0:
  assumes "unat (a - d) + n \<le> k" and "k \<le> 2 ^ 64"
  shows "(load_le (fill m d 0 k) a n :: 'w::len word) = 0"
proof -
  have "load_le (fill m d 0 k) a n = (load_le (\<lambda>_. 0) a n :: 'w word)"
    by (rule load_le_cong) (use assms in \<open>auto simp: fill_apply dest: in_range_sub\<close>)
  moreover have "(load_le (\<lambda>_. 0) b j :: 'w word) = 0" for b j
    by (induction j arbitrary: b) simp_all
  ultimately show ?thesis by simp
qed

lemma load64_fill_0:
  "unat (a - d) + 8 \<le> k \<Longrightarrow> k \<le> 2 ^ 64 \<Longrightarrow> load64 (fill m d 0 k) a = 0"
  unfolding load64_def by (rule load_le_fill_0)

lemma load_le_blit:
  assumes "unat (a - d) + n \<le> k" and "k \<le> 2 ^ 64"
  shows "(load_le (blit m d src s k) a n :: 'w::len word) = load_le src (s + (a - d)) n"
  using assms
proof (induction n arbitrary: a)
  case (Suc n)
  have a: "in_range a d k"
    using Suc.prems by (simp add: in_range_def)
  have "(load_le (blit m d src s k) (a + 1) n :: 'w word) = load_le src (s + (a + 1 - d)) n"
  proof (cases "n = 0")
    case False
    then have "unat (a - d) + 1 < 2 ^ 64"
      using Suc.prems by linarith
    then have "unat (a - d + 1) = unat (a - d) + 1"
      using unat_add_small [of "a - d" 1] by simp
    moreover have "a - d + 1 = a + 1 - d" by simp
    ultimately show ?thesis
      using Suc.prems by (intro Suc.IH) simp_all
  qed simp
  moreover have "s + (a + 1 - d) = s + (a - d) + 1" by simp
  ultimately show ?case using a by (simp add: blit_apply)
qed simp

lemma sint_plus_1: "-1 \<le> sint (w :: cint) \<Longrightarrow> sint w < 2 ^ 31 - 1 \<Longrightarrow> sint (w + 1) = sint w + 1"
  by (simp add: sint_word_ariths signed_take_bit_int_eq_self)

end
