(* ===== verification/Riscv.thy ===== *)
theory Riscv
  imports Prelude
begin

text \<open>
  The constants and macros of \<^verbatim>\<open>kernel/riscv.h\<close>, \<^verbatim>\<open>kernel/memlayout.h\<close> and \<^verbatim>\<open>kernel/param.h\<close>
  that the kernel computes with: page rounding, the fields of a page-table entry, the
  Sv39 index extraction, and the addresses of the memory map. Every macro is a function on
  64-bit words with the same operators as the source.
\<close>

section \<open>Pages\<close>

definition PGSIZE :: uint64 where [simp]: "PGSIZE = 4096"

definition PGROUNDUP :: "uint64 \<Rightarrow> uint64" where
  "PGROUNDUP sz = (sz + PGSIZE - 1) AND NOT (PGSIZE - 1)"

definition PGROUNDDOWN :: "uint64 \<Rightarrow> uint64" where
  "PGROUNDDOWN a = a AND NOT (PGSIZE - 1)"

section \<open>Page-table entries\<close>

definition PTE_V :: uint64 where [simp]: "PTE_V = 1"
definition PTE_R :: uint64 where [simp]: "PTE_R = 2"
definition PTE_W :: uint64 where [simp]: "PTE_W = 4"
definition PTE_X :: uint64 where [simp]: "PTE_X = 8"
definition PTE_U :: uint64 where [simp]: "PTE_U = 16"

definition PA2PTE :: "uint64 \<Rightarrow> uint64" where
  "PA2PTE pa = push_bit 10 (drop_bit 12 pa)"

definition PTE2PA :: "uint64 \<Rightarrow> uint64" where
  "PTE2PA pte = push_bit 12 (drop_bit 10 pte)"

definition PTE_FLAGS :: "uint64 \<Rightarrow> uint64" where
  "PTE_FLAGS pte = pte AND 0x3FF"

definition PXSHIFT :: "nat \<Rightarrow> nat" where
  "PXSHIFT level = 12 + 9 * level"

definition PX :: "nat \<Rightarrow> uint64 \<Rightarrow> uint64" where
  "PX level va = drop_bit (PXSHIFT level) va AND 0x1FF"

definition MAXVA :: uint64 where "MAXVA = push_bit (9 + 9 + 9 + 12 - 1) 1"

definition MAKE_SATP :: "uint64 \<Rightarrow> uint64" where
  "MAKE_SATP pagetable = push_bit 60 8 OR drop_bit 12 pagetable"

section \<open>The memory map\<close>

definition UART0 :: uint64 where [simp]: "UART0 = 0x10000000"
definition VIRTIO0 :: uint64 where [simp]: "VIRTIO0 = 0x10001000"
definition PLIC :: uint64 where [simp]: "PLIC = 0x0c000000"
definition KERNBASE :: uint64 where [simp]: "KERNBASE = 0x80000000"
definition PHYSTOP :: uint64 where [simp]: "PHYSTOP = KERNBASE + 128 * 1024 * 1024"

definition TRAMPOLINE :: uint64 where "TRAMPOLINE = MAXVA - PGSIZE"
definition TRAPFRAME :: uint64 where "TRAPFRAME = TRAMPOLINE - PGSIZE"

definition KSTACK :: "nat \<Rightarrow> uint64" where
  "KSTACK p = TRAMPOLINE - (of_nat p + 1) * 2 * PGSIZE"

definition NPROC :: nat where [simp]: "NPROC = 64"
definition NOFILE :: nat where [simp]: "NOFILE = 16"
definition NFILE :: nat where [simp]: "NFILE = 100"
definition NINODE :: nat where [simp]: "NINODE = 50"
definition NDEV :: nat where [simp]: "NDEV = 10"
definition MAXOPBLOCKS :: nat where [simp]: "MAXOPBLOCKS = 10"
definition LOGSIZE :: nat where [simp]: "LOGSIZE = MAXOPBLOCKS * 3"
definition NBUF :: nat where [simp]: "NBUF = MAXOPBLOCKS * 3"

section \<open>Lemmas\<close>

lemma MAXVA_eq: "MAXVA = 0x4000000000"
  by (simp add: MAXVA_def)

lemma TRAMPOLINE_eq: "TRAMPOLINE = 0x3ffffff000"
  by (simp add: TRAMPOLINE_def MAXVA_eq)

lemma TRAPFRAME_eq: "TRAPFRAME = 0x3fffffe000"
  by (simp add: TRAPFRAME_def TRAMPOLINE_eq)

lemma and_not_mask12: "(a :: uint64) AND - 4096 = a - take_bit 12 a"
proof -
  have "a AND NOT (mask 12) = push_bit 12 (drop_bit 12 a)"
    by (rule bit_eqI) (auto simp: bit_simps)
  moreover have "push_bit 12 (drop_bit 12 a) = a - take_bit 12 a"
    using bits_ident [of 12 a] by (simp add: eq_diff_eq)
  moreover have "NOT (mask 12 :: uint64) = - 4096"
    by (simp add: mask_eq_exp_minus_1)
  ultimately show ?thesis by simp
qed

lemma unat_take_bit12: "unat (take_bit 12 (a :: uint64)) = unat a mod 4096"
  by (simp add: take_bit_eq_mod unat_mod)

lemma unat_PGROUNDDOWN [page_simps]:
  "unat (PGROUNDDOWN a) = unat a - unat a mod 4096"
proof -
  have "take_bit 12 a \<le> a"
    by (simp add: word_le_nat_alt unat_take_bit12)
  then show ?thesis
    by (simp add: PGROUNDDOWN_def and_not_mask12 unat_sub unat_take_bit12)
qed

lemma PGROUNDUP_conv: "PGROUNDUP sz = PGROUNDDOWN (sz + 4095)"
  by (simp add: PGROUNDUP_def PGROUNDDOWN_def algebra_simps)

lemma unat_PGROUNDUP [page_simps]:
  assumes "unat sz + 4095 < 2 ^ 64"
  shows "unat (PGROUNDUP sz) = (unat sz + 4095) div 4096 * 4096"
proof -
  have "unat (sz + 4095) = unat sz + 4095"
    using assms unat_add_small [of sz 4095] by simp
  then show ?thesis
    by (simp add: PGROUNDUP_conv unat_PGROUNDDOWN minus_mod_eq_div_mult)
qed

definition page_aligned :: "uint64 \<Rightarrow> bool" where
  "page_aligned a \<longleftrightarrow> a mod PGSIZE = 0"

lemma page_aligned_unat: "page_aligned a \<longleftrightarrow> unat a mod 4096 = 0"
  by (simp add: page_aligned_def word_unat_eq_iff unat_mod)

lemma page_aligned_PGROUNDDOWN [simp]: "page_aligned (PGROUNDDOWN a)"
  by (simp add: page_aligned_unat unat_PGROUNDDOWN minus_mod_eq_div_mult)

lemma PGROUNDDOWN_aligned [simp]: "page_aligned a \<Longrightarrow> PGROUNDDOWN a = a"
  by (simp add: word_unat_eq_iff unat_PGROUNDDOWN page_aligned_unat)

lemma page_offset: "unat (a - PGROUNDDOWN a) = unat a mod 4096"
  by (simp add: unat_sub_if' unat_PGROUNDDOWN)

lemma page_offset_less: "unat (a - PGROUNDDOWN a) < 4096"
  by (simp add: page_offset)

text \<open>Distinct pages do not overlap.\<close>

lemma pages_disjoint:
  assumes "page_aligned p" and "page_aligned q" and "in_range a p 4096" and "in_range a q 4096"
  shows "p = q"
proof -
  have *: "unat r + 4096 \<le> 2 ^ 64" if "page_aligned r" for r
  proof -
    have "4096 dvd unat r"
      using that by (simp only: page_aligned_unat mod_eq_0_iff_dvd)
    then obtain k where k: "unat r = 4096 * k" by (rule dvdE)
    with unat_less_64 [of r] have "k < 2 ^ 52" by simp
    then have "Suc k \<le> 2 ^ 52" by simp
    then have "4096 * Suc k \<le> 4096 * 2 ^ 52" by (rule mult_le_mono2)
    with k show ?thesis by simp
  qed
  have "unat a div 4096 = unat r div 4096" if "page_aligned r" and "in_range a r 4096" for r
    using that * [OF that(1)] in_range_no_wrap [of r 4096 a] by (auto simp: page_aligned_unat)
  then have "unat p div 4096 = unat q div 4096"
    using assms by metis
  then have "unat p = unat q"
    using assms(1,2) by (auto simp: page_aligned_unat)
  then show ?thesis by (simp add: word_unat_eq_iff)
qed

lemma PX_less: "unat (PX l va) < 512"
proof -
  have "unat (PX l va) \<le> unat (0x1FF :: uint64)"
    unfolding PX_def by (rule word_and_le1 [THEN word_le_nat_alt [THEN iffD1]])
  then show ?thesis by simp
qed

lemma unat_PX: "unat (PX l va) = unat va div 2 ^ PXSHIFT l mod 512"
proof -
  have "PX l va = take_bit 9 (drop_bit (PXSHIFT l) va)"
    by (simp add: PX_def take_bit_eq_mask mask_eq_exp_minus_1)
  then show ?thesis
    by (simp only: unsigned_take_bit_eq unat_drop_bit_eq)
       (simp add: take_bit_eq_mod drop_bit_eq_div)
qed

text \<open>The three indices determine the page of a virtual address below \<^const>\<open>MAXVA\<close>.\<close>

lemma PX_inj:
  assumes "va < MAXVA" and "vb < MAXVA"
    and "PX 0 va = PX 0 vb" and "PX 1 va = PX 1 vb" and "PX 2 va = PX 2 vb"
  shows "PGROUNDDOWN va = PGROUNDDOWN vb"
proof -
  have dec: "unat v div 4096 = unat (PX 0 v) + 512 * unat (PX 1 v) + 512 * 512 * unat (PX 2 v)"
    if "v < MAXVA" for v
  proof -
    have "unat v < 2 ^ 38"
      using that by (simp add: MAXVA_eq word_less_nat_alt)
    then have "unat v div 4096 div 512 div 512 < 512"
      by (simp add: div_mult2_eq [symmetric] less_mult_imp_div_less)
    moreover have "unat v div 2 ^ 21 = unat v div 4096 div 512"
      and "unat v div 2 ^ 30 = unat v div 4096 div 512 div 512"
      by (simp_all add: div_mult2_eq [symmetric])
    moreover have "d = d mod 512 + 512 * (d div 512 mod 512) + 512 * 512 * (d div 512 div 512)" for d :: nat
      using mult_div_mod_eq [of 512 d] mult_div_mod_eq [of 512 "d div 512"] by linarith
    ultimately show ?thesis
      by (simp add: unat_PX PXSHIFT_def)
  qed
  have "unat va div 4096 = unat vb div 4096"
    using assms dec [OF assms(1)] dec [OF assms(2)] by simp
  then show ?thesis
    by (simp add: word_unat_eq_iff unat_PGROUNDDOWN minus_mod_eq_div_mult)
qed

lemma small_bits:
  assumes "unat (f :: uint64) < 2 ^ k" and "k \<le> n"
  shows "\<not> bit f n"
proof -
  have "unat f < 2 ^ n"
    using assms by (meson less_le_trans one_le_numeral power_increasing)
  then have "\<not> bit (unat f) n"
    by (simp add: bit_iff_odd)
  then show ?thesis
    by (simp add: bit_unsigned_iff)
qed

lemma page_aligned_low_bits: "page_aligned pa \<Longrightarrow> n < 12 \<Longrightarrow> \<not> bit pa n"
proof -
  assume "page_aligned pa" and n: "n < 12"
  then have "take_bit 12 pa = 0"
    by (simp add: word_unat_eq_iff unat_take_bit12 page_aligned_unat)
  then have "\<not> bit (take_bit 12 pa) n" by simp
  with n show ?thesis by (simp add: bit_take_bit_iff)
qed

text \<open>Storing a page address and flag bits in an entry, and reading them back.\<close>

lemma PTE2PA_PA2PTE:
  assumes "page_aligned pa" and "unat f < 2 ^ 10"
  shows "PTE2PA (PA2PTE pa OR f) = pa"
proof (rule bit_word_eqI)
  fix n :: nat
  assume "n < LENGTH(64)"
  then show "bit (PTE2PA (PA2PTE pa OR f)) n = bit pa n"
    using page_aligned_low_bits [OF assms(1), of n] small_bits [OF assms(2), of "n - 2"]
    by (cases "n < 12") (auto simp: PTE2PA_def PA2PTE_def bit_simps)
qed

lemma PTE_FLAGS_PA2PTE:
  assumes "unat f < 2 ^ 10"
  shows "PTE_FLAGS (PA2PTE pa OR f) = f"
proof -
  have *: "(0x3FF :: uint64) = mask 10"
    by (simp add: mask_eq_exp_minus_1)
  have "n < 10" if "bit f n" for n
    using that small_bits [OF assms, of n] by linarith
  then show ?thesis
    unfolding PTE_FLAGS_def PA2PTE_def *
    by (intro bit_word_eqI) (auto simp: bit_simps)
qed

lemma PA2PTE_or_bit:
  assumes "n < 10"
  shows "bit (PA2PTE pa OR f) n = bit f n"
  using assms by (simp add: PA2PTE_def bit_simps)

end
