(* ===== verification/Cstring.thy ===== *)
theory Cstring
  imports Prelude
begin

text \<open>
  The memory and string routines of \<^verbatim>\<open>kernel/string.c\<close> over a byte memory. Pointers are
  addresses, a loop is a recursion over the variables the C loop changes, and the counts
  keep their C types (\<^verbatim>\<open>uint n\<close> is a 32-bit word, \<^verbatim>\<open>int n\<close> is read with \<open>sint\<close>).
\<close>

section \<open>memset, memcmp, memmove\<close>

function memset_loop :: "bytes \<Rightarrow> uint64 \<Rightarrow> uchar \<Rightarrow> nat \<Rightarrow> nat \<Rightarrow> bytes" where
  "memset_loop m cdst c i n =
     (if i < n then memset_loop (m(cdst + of_nat i := c)) cdst c (Suc i) n else m)"
  by pat_completeness auto
termination
  by (relation "measure (\<lambda>(m, cdst, c, i, n). n - i)") auto

definition memset :: "bytes \<Rightarrow> uint64 \<Rightarrow> cint \<Rightarrow> uint \<Rightarrow> bytes" where
  "memset m dst c n = memset_loop m dst (ucast c) 0 (unat n)"

primrec memcmp_loop :: "bytes \<Rightarrow> uint64 \<Rightarrow> uint64 \<Rightarrow> nat \<Rightarrow> cint" where
  "memcmp_loop m s1 s2 0 = 0"
| "memcmp_loop m s1 s2 (Suc n) =
     (if m s1 \<noteq> m s2 then ucast (m s1) - ucast (m s2)
      else memcmp_loop m (s1 + 1) (s2 + 1) n)"

definition memcmp :: "bytes \<Rightarrow> uint64 \<Rightarrow> uint64 \<Rightarrow> uint \<Rightarrow> cint" where
  "memcmp m v1 v2 n = memcmp_loop m v1 v2 (unat n)"

primrec memmove_backward :: "bytes \<Rightarrow> uint64 \<Rightarrow> uint64 \<Rightarrow> nat \<Rightarrow> bytes" where
  "memmove_backward m d s 0 = m"
| "memmove_backward m d s (Suc n) =
     memmove_backward (m(d - 1 := m (s - 1))) (d - 1) (s - 1) n"

primrec memmove_forward :: "bytes \<Rightarrow> uint64 \<Rightarrow> uint64 \<Rightarrow> nat \<Rightarrow> bytes" where
  "memmove_forward m d s 0 = m"
| "memmove_forward m d s (Suc n) = memmove_forward (m(d := m s)) (d + 1) (s + 1) n"

definition memmove :: "bytes \<Rightarrow> uint64 \<Rightarrow> uint64 \<Rightarrow> uint \<Rightarrow> bytes" where
  "memmove m dst src n =
     (if n = 0 then m
      else if src < dst \<and> src + ucast n > dst
           then memmove_backward m (dst + ucast n) (src + ucast n) (unat n)
           else memmove_forward m dst src (unat n))"

definition memcpy :: "bytes \<Rightarrow> uint64 \<Rightarrow> uint64 \<Rightarrow> uint \<Rightarrow> bytes" where
  "memcpy m dst src n = memmove m dst src n"

section \<open>Strings\<close>

primrec strncmp_loop :: "bytes \<Rightarrow> uint64 \<Rightarrow> uint64 \<Rightarrow> nat \<Rightarrow> cint" where
  "strncmp_loop m p q 0 = 0"
| "strncmp_loop m p q (Suc n) =
     (if m p \<noteq> 0 \<and> m p = m q then strncmp_loop m (p + 1) (q + 1) n
      else ucast (m p) - ucast (m q))"

definition strncmp :: "bytes \<Rightarrow> uint64 \<Rightarrow> uint64 \<Rightarrow> uint \<Rightarrow> cint" where
  "strncmp m p q n = strncmp_loop m p q (unat n)"

text \<open>The copying loop of \<^verbatim>\<open>strncpy\<close> yields the memory, the pointer \<^verbatim>\<open>s\<close> and the count left.\<close>

primrec strncpy_copy :: "bytes \<Rightarrow> uint64 \<Rightarrow> uint64 \<Rightarrow> nat \<Rightarrow> bytes \<times> uint64 \<times> nat" where
  "strncpy_copy m s t 0 = (m, s, 0)"
| "strncpy_copy m s t (Suc n) =
     (let c = m t; m' = m(s := c)
      in if c \<noteq> 0 then strncpy_copy m' (s + 1) (t + 1) n else (m', s + 1, n))"

primrec strncpy_pad :: "bytes \<Rightarrow> uint64 \<Rightarrow> nat \<Rightarrow> bytes" where
  "strncpy_pad m s 0 = m"
| "strncpy_pad m s (Suc n) = strncpy_pad (m(s := 0)) (s + 1) n"

definition strncpy :: "bytes \<Rightarrow> uint64 \<Rightarrow> uint64 \<Rightarrow> cint \<Rightarrow> bytes" where
  "strncpy m s t n =
     (case strncpy_copy m s t (nat (sint n)) of (m', s', n') \<Rightarrow> strncpy_pad m' s' n')"

definition safestrcpy :: "bytes \<Rightarrow> uint64 \<Rightarrow> uint64 \<Rightarrow> cint \<Rightarrow> bytes" where
  "safestrcpy m s t n =
     (if sint n \<le> 0 then m
      else case strncpy_copy m s t (nat (sint n) - 1) of (m', s', n') \<Rightarrow> m'(s' := 0))"

text \<open>\<^verbatim>\<open>strlen\<close> need not return: without a terminating zero byte the loop runs on.\<close>

partial_function (option) strlen_from :: "bytes \<Rightarrow> uint64 \<Rightarrow> nat \<Rightarrow> nat option" where
  "strlen_from m s n = (if m (s + of_nat n) = 0 then Some n else strlen_from m s (Suc n))"

definition strlen :: "bytes \<Rightarrow> uint64 \<Rightarrow> nat option" where
  "strlen m s = strlen_from m s 0"

section \<open>memset fills exactly its range\<close>

declare memset_loop.simps [simp del]

lemma memset_loop_eq:
  assumes "n \<le> 2 ^ 64" and "i \<le> n"
  shows "memset_loop m d c i n =
    (\<lambda>a. if i \<le> unat (a - d) \<and> unat (a - d) < n then c else m a)"
  using assms
proof (induction m d c i n rule: memset_loop.induct)
  case (1 m d c i n)
  show ?case
  proof (cases "i < n")
    case True
    have "memset_loop m d c i n = memset_loop (m(d + of_nat i := c)) d c (Suc i) n"
      using True by (simp add: memset_loop.simps [of m d c i n])
    also have "\<dots> = (\<lambda>a. if Suc i \<le> unat (a - d) \<and> unat (a - d) < n then c
        else (m(d + of_nat i := c)) a)"
      by (rule "1.IH") (use True "1.prems" in auto)
    also have "\<dots> = (\<lambda>a. if i \<le> unat (a - d) \<and> unat (a - d) < n then c else m a)"
    proof
      fix a
      have "a = d + of_nat i \<longleftrightarrow> unat (a - d) = i"
        using unat_diff_eq_iff [of i a d] True "1.prems" by simp
      then show "(if Suc i \<le> unat (a - d) \<and> unat (a - d) < n then c
          else (m(d + of_nat i := c)) a)
        = (if i \<le> unat (a - d) \<and> unat (a - d) < n then c else m a)"
        using True by (simp only: fun_upd_apply) (cases "unat (a - d) = i"; simp)
    qed
    finally show ?thesis .
  next
    case False
    with "1.prems" show ?thesis
      by (subst memset_loop.simps) (auto simp: fun_eq_iff)
  qed
qed

lemma memset_fill: "memset m dst c n = fill m dst (ucast c) (unat n)"
proof -
  have "unat n \<le> 2 ^ 64" by (rule less_imp_le [OF less_trans [OF unat_less_32]]) simp
  then show ?thesis
    by (simp add: memset_def memset_loop_eq fill_def in_range_def)
qed

section \<open>memmove copies, overlapping or not\<close>

lemma unat_offset:
  fixes s a d :: uint64
  assumes "in_range a d n" and "unat s + n \<le> 2 ^ 64"
  shows "unat (s + (a - d)) = unat s + unat (a - d)"
  using assms by (intro unat_add_small) (simp add: in_range_def)

lemma memmove_forward_eq:
  assumes "unat d + n \<le> 2 ^ 64" and "unat s + n \<le> 2 ^ 64"
    and "unat d \<le> unat s \<or> unat s + n \<le> unat d"
  shows "memmove_forward m d s n = blit m d m s n"
  using assms
proof (induction n arbitrary: m d s)
  case (Suc n)
  let ?m = "m(d := m s)"
  have IH: "memmove_forward ?m (d + 1) (s + 1) n = blit ?m (d + 1) ?m (s + 1) n"
  proof (cases "n = 0")
    case False
    then have "unat (d + 1) = unat d + 1" and "unat (s + 1) = unat s + 1"
      using Suc.prems by (simp_all add: unat_add_small)
    then show ?thesis using Suc.prems by (intro Suc.IH) auto
  qed simp
  have "blit ?m (d + 1) ?m (s + 1) n a = blit m d m s (Suc n) a" for a
  proof (cases "in_range a (d + 1) n")
    case True
    then have a: "in_range a d (Suc n)" and "a \<noteq> d"
      using Suc.prems not_in_range_next [of n d] by (auto simp: in_range_Suc)
    then have "unat (s + (a - d)) = unat s + unat (a - d)" and "0 < unat (a - d)"
      using Suc.prems by (auto simp: unat_offset unat_gt_0)
    then have "unat (s + (a - d)) \<noteq> unat d"
      using a Suc.prems(3) by (auto simp: in_range_def)
    then have "s + (a - d) \<noteq> d" by (rule neq_via_unat)
    moreover have "s + 1 + (a - (d + 1)) = s + (a - d)" by simp
    ultimately show ?thesis
      using True a by (simp add: blit_apply)
  next
    case False
    then show ?thesis
      using Suc.prems by (cases "a = d") (auto simp: blit_apply in_range_Suc)
  qed
  then have "blit ?m (d + 1) ?m (s + 1) n = blit m d m s (Suc n)" by (rule ext)
  with IH show ?case by simp
qed simp

lemma memmove_backward_eq:
  assumes "unat d + n \<le> 2 ^ 64" and "unat s + n \<le> 2 ^ 64" and "unat s < unat d"
  shows "memmove_backward m (d + of_nat n) (s + of_nat n) n = blit m d m s n"
  using assms
proof (induction n arbitrary: m)
  case (Suc n)
  let ?m = "m(d + of_nat n := m (s + of_nat n))"
  have "p + of_nat (Suc n) - 1 = p + of_nat n" for p :: uint64
    by simp
  then have "memmove_backward m (d + of_nat (Suc n)) (s + of_nat (Suc n)) (Suc n)
      = memmove_backward ?m (d + of_nat n) (s + of_nat n) n"
    by (simp only: memmove_backward.simps)
  also have "\<dots> = blit ?m d ?m s n"
    by (rule Suc.IH) (use Suc.prems in auto)
  also have "\<dots> = blit m d m s (Suc n)"
  proof
    fix a
    have n: "n < 2 ^ 64" "n < 2 ^ LENGTH(64)" using Suc.prems by simp_all
    show "blit ?m d ?m s n a = blit m d m s (Suc n) a"
    proof (cases "in_range a d n")
      case True
      then have "unat (s + (a - d)) = unat s + unat (a - d)"
        using Suc.prems by (simp add: unat_offset)
      moreover have "unat (d + of_nat n) = unat d + n"
        using Suc.prems n by (subst unat_add_small) (simp_all add: unat_of_nat_small)
      ultimately have "unat (s + (a - d)) \<noteq> unat (d + of_nat n)"
        using True Suc.prems(3) by (simp add: in_range_def)
      then have "s + (a - d) \<noteq> d + of_nat n" by (rule neq_via_unat)
      with True n show ?thesis by (simp add: blit_apply in_range_Suc_right)
    next
      case False
      with n show ?thesis
        by (cases "a = d + of_nat n") (auto simp: blit_apply in_range_Suc_right)
    qed
  qed
  finally show ?case .
qed simp

theorem memmove_blit:
  assumes "unat dst + unat n \<le> 2 ^ 64" and "unat src + unat n \<le> 2 ^ 64"
  shows "memmove m dst src n = blit m dst m src (unat n)"
proof -
  consider "n = 0" | "n \<noteq> 0" "src < dst \<and> src + ucast n > dst"
    | "n \<noteq> 0" "\<not> (src < dst \<and> src + ucast n > dst)"
    by blast
  then show ?thesis
  proof cases
    case 2
    then show ?thesis
      using memmove_backward_eq [of dst "unat n" src m] assms
      by (simp add: memmove_def uint_to_uint64_of_nat [symmetric] word_less_nat_alt)
  next
    case 3
    have "unat dst \<le> unat src \<or> unat src + unat n \<le> unat dst"
    proof (rule disjCI)
      assume "\<not> unat src + unat n \<le> unat dst"
      then have "unat src < unat dst \<Longrightarrow> unat (src + ucast n) = unat src + unat n"
        using assms by (subst unat_add_small) simp_all
      with 3 \<open>\<not> unat src + unat n \<le> unat dst\<close> show "unat dst \<le> unat src"
        by (auto simp: word_less_nat_alt)
    qed
    then have "memmove_forward m dst src (unat n) = blit m dst m src (unat n)"
      using assms by (intro memmove_forward_eq)
    with 3 show ?thesis unfolding memmove_def by argo
  qed (simp add: memmove_def)
qed

section \<open>String copies stay in bounds and terminate\<close>

lemma strncpy_copy_bounds:
  assumes "strncpy_copy m s t n = (m', s', n')" and "n < 2 ^ 64"
  obtains k where "s' = s + of_nat k" and "k + n' = n"
    and "\<And>b. \<not> in_range b s k \<Longrightarrow> m' b = m b"
proof -
  have "\<exists>k. s' = s + of_nat k \<and> k + n' = n \<and> (\<forall>b. \<not> in_range b s k \<longrightarrow> m' b = m b)"
    using assms
  proof (induction n arbitrary: m s t)
    case (Suc n)
    show ?case
    proof (cases "m t = 0")
      case True
      with Suc.prems show ?thesis
        by (intro exI [of _ 1]) (auto simp: Let_def in_range_Suc)
    next
      case False
      with Suc.prems have "strncpy_copy (m(s := m t)) (s + 1) (t + 1) n = (m', s', n')"
        by (simp add: Let_def)
      then obtain k where "s' = s + 1 + of_nat k" "k + n' = n"
        "\<forall>b. \<not> in_range b (s + 1) k \<longrightarrow> m' b = (m(s := m t)) b"
        using Suc.IH Suc.prems by fastforce
      then show ?thesis
        using Suc.prems by (intro exI [of _ "Suc k"]) (auto simp: in_range_Suc algebra_simps)
    qed
  qed simp
  with that show ?thesis by blast
qed

lemma safestrcpy_bounds:
  assumes "0 < sint n"
  shows "\<exists>k < nat (sint n). safestrcpy m s t n (s + of_nat k) = 0
    \<and> (\<forall>b. \<not> in_range b s (nat (sint n)) \<longrightarrow> safestrcpy m s t n b = m b)"
proof -
  have n: "nat (sint n) < 2 ^ 64"
    using sint_lt [of n] by simp
  obtain m' s' n' where c: "strncpy_copy m s t (nat (sint n) - 1) = (m', s', n')"
    by (metis prod_cases3)
  then obtain k where k: "s' = s + of_nat k" "k + n' = nat (sint n) - 1"
    and same: "\<And>b. \<not> in_range b s k \<Longrightarrow> m' b = m b"
    using n by (elim strncpy_copy_bounds) auto
  have "k < nat (sint n)" using k assms by simp
  moreover have "safestrcpy m s t n = m'(s' := 0)"
    using assms c by (simp add: safestrcpy_def)
  moreover have "in_range s' s (nat (sint n))"
    unfolding k by (rule in_range_add) (use n \<open>k < nat (sint n)\<close> in auto)
  moreover have "m' b = m b" if "\<not> in_range b s (nat (sint n))" for b
    by (rule same) (use that \<open>k < nat (sint n)\<close> in \<open>auto dest: in_range_mono [of _ _ k "nat (sint n)"]\<close>)
  ultimately show ?thesis
    using k by (intro exI [of _ k]) auto
qed

lemma byte_to_int_inj: "(ucast (a :: uchar) :: cint) = ucast b \<longleftrightarrow> a = b"
proof -
  have "unat c < 2 ^ 32" for c :: uchar
    by (rule less_trans [of _ "2 ^ 8"]) (use unsigned_less [of c] in simp_all)
  then have "unat (ucast c :: cint) = unat c" for c :: uchar
    by (simp add: unsigned_ucast_eq take_bit_nat_eq_self_iff)
  then show ?thesis by (metis word_unat_eq_iff)
qed

lemma byte_diff_eq_0: "(ucast (a :: uchar) :: cint) - ucast b = 0 \<longleftrightarrow> a = b"
  by (simp add: byte_to_int_inj)

lemma strncmp_loop_eq_0:
  "strncmp_loop m p q n = 0 \<longleftrightarrow>
     (\<forall>i<n. (\<forall>j<i. m (p + of_nat j) \<noteq> 0) \<longrightarrow> m (p + of_nat i) = m (q + of_nat i))"
proof (induction n arbitrary: p q)
  case (Suc n)
  have split: "(\<forall>i<Suc n. P i) \<longleftrightarrow> P 0 \<and> (\<forall>i<n. P (Suc i))" for P
    by (metis less_Suc_eq_0_disj)
  have *: "p + 1 + of_nat i = p + of_nat (Suc i)" for p :: uint64 and i
    by simp
  show ?case
  proof (cases "m p = m q")
    case True
    then show ?thesis
      unfolding split [of "\<lambda>i. _ i \<longrightarrow> _ i"] using Suc.IH [of "p + 1" "q + 1"]
      by (auto simp: byte_to_int_inj * All_less_Suc2 simp del: of_nat_Suc)
  next
    case False
    then show ?thesis by (auto simp: byte_to_int_inj)
  qed
qed simp

lemma strlen_from_eq:
  assumes "\<And>i. n \<le> i \<Longrightarrow> i < k \<Longrightarrow> m (s + of_nat i) \<noteq> 0" and "m (s + of_nat k) = 0" and "n \<le> k"
  shows "strlen_from m s n = Some k"
  using assms(3,1)
proof (induction n rule: inc_induct)
  case base
  then show ?case by (subst strlen_from.simps) (simp add: assms(2))
next
  case (step n)
  then show ?case by (subst strlen_from.simps) simp
qed

lemma strlen_eq:
  "(\<And>i. i < k \<Longrightarrow> m (s + of_nat i) \<noteq> 0) \<Longrightarrow> m (s + of_nat k) = 0 \<Longrightarrow> strlen m s = Some k"
  unfolding strlen_def by (rule strlen_from_eq) simp_all

section \<open>Properties\<close>

text \<open>
  C33: \<^verbatim>\<open>memmove\<close> copies its \<open>n\<close> bytes as they were before the call, whether or not the two
  ranges overlap, and leaves every other byte alone.
\<close>

theorem memmove_overlap:
  assumes "unat dst + unat n \<le> 2 ^ 64" and "unat src + unat n \<le> 2 ^ 64"
  shows "memmove m dst src n a = (if in_range a dst (unat n) then m (src + (a - dst)) else m a)"
  using memmove_blit [OF assms] by (simp add: blit_def)

theorem memmove_overlap_witness:
  "memmove (\<lambda>a. ucast a) 18 16 4 19 = 17 \<and> memmove (\<lambda>a. ucast a) 16 18 4 19 = 21
   \<and> memmove (\<lambda>a. ucast a) 16 18 4 20 = 20"
  using memmove_overlap [of 18 4 16 "\<lambda>a. ucast a" 19] memmove_overlap [of 16 4 18 "\<lambda>a. ucast a" 19]
    memmove_overlap [of 16 4 18 "\<lambda>a. ucast a" 20]
  by (simp add: in_range_def)

text \<open>
  C37: \<^verbatim>\<open>safestrcpy\<close> with a positive size writes only inside the \<open>n\<close> bytes of its destination
  and always leaves a terminating zero byte there.
\<close>

theorem safestrcpy_terminated:
  assumes "0 < sint n"
  shows "\<exists>k < nat (sint n). safestrcpy m s t n (s + of_nat k) = 0
    \<and> (\<forall>b. \<not> in_range b s (nat (sint n)) \<longrightarrow> safestrcpy m s t n b = m b)"
  by (rule safestrcpy_bounds [OF assms])

theorem safestrcpy_terminated_witness:
  "\<exists>k < 16. safestrcpy (\<lambda>_. 65) 100 200 16 (100 + of_nat k) = 0"
  using safestrcpy_terminated [of 16 "\<lambda>_. 65" 100 200] by auto

text \<open>
  C38: \<^verbatim>\<open>strncmp\<close> returns 0 exactly when the strings agree on the first \<open>n\<close> bytes, up to the first
  zero byte of the first string.
\<close>

theorem strncmp_zero_iff:
  "strncmp m p q n = 0 \<longleftrightarrow>
     (\<forall>i<unat n. (\<forall>j<i. m (p + of_nat j) \<noteq> 0) \<longrightarrow> m (p + of_nat i) = m (q + of_nat i))"
  unfolding strncmp_def by (rule strncmp_loop_eq_0)

theorem strncmp_zero_iff_witness:
  "strncmp (\<lambda>a. if a = 4 \<or> a = 11 then 0 else 65) 3 10 2 = 0"
proof -
  have "i = 0 \<or> i = 1" if "i < unat (2 :: uint)" for i using that by auto
  then show ?thesis unfolding strncmp_zero_iff by fastforce
qed

end
