(* ===== verification/Spinlock.thy ===== *)
theory Spinlock
  imports Prelude
begin

text \<open>
  The spin locks of \<^verbatim>\<open>kernel/spinlock.c\<close>, in two views. The machine view has every lock and
  the interrupt bookkeeping of every hart (\<^verbatim>\<open>noff\<close>, \<^verbatim>\<open>intena\<close>, the SIE bit of \<^verbatim>\<open>sstatus\<close>),
  with \<^verbatim>\<open>push_off\<close>, \<^verbatim>\<open>pop_off\<close>, \<^verbatim>\<open>holding\<close>, \<^verbatim>\<open>acquire\<close> and \<^verbatim>\<open>release\<close> as in the source, and an
  interleaved step relation for the atomic actions inside them. The hart view, which the
  other components use, keeps only the set of locks the running hart holds. Both satisfy
  the contract \<open>lock_view\<close>.
\<close>

section \<open>Locks and harts\<close>

text \<open>The locks of the kernel, by the object they are a field of.\<close>

datatype lockid =
    PidLock | WaitLock | ProcLock nat | KmemLock | TicksLock | BcacheLock | BufLk nat
  | ItableLock | InodeLk nat | LogLock | FtableLock | PipeLock uint64 | ConsLock | UartTxLock
  | PrLock | DiskLock

record spinlock =
  locked :: bool
  lkcpu :: "nat option"

record cpu =
  noff :: cint
  intena :: bool
  sie :: bool

record machine =
  locks :: "lockid \<Rightarrow> spinlock"
  cpus :: "nat \<Rightarrow> cpu"

definition initlock :: "lockid \<Rightarrow> machine \<Rightarrow> machine" where
  "initlock lk s = s\<lparr>locks := (locks s)(lk := \<lparr>locked = False, lkcpu = None\<rparr>)\<rparr>"

definition intr_get :: "nat \<Rightarrow> machine \<Rightarrow> bool" where
  "intr_get c s = sie (cpus s c)"

definition intr_off :: "nat \<Rightarrow> machine \<Rightarrow> machine" where
  "intr_off c s = s\<lparr>cpus := (cpus s)(c := (cpus s c)\<lparr>sie := False\<rparr>)\<rparr>"

definition intr_on :: "nat \<Rightarrow> machine \<Rightarrow> machine" where
  "intr_on c s = s\<lparr>cpus := (cpus s)(c := (cpus s c)\<lparr>sie := True\<rparr>)\<rparr>"

definition push_off :: "nat \<Rightarrow> machine \<Rightarrow> machine" where
  "push_off c s =
     (let old = intr_get c s;
          s = intr_off c s;
          s = (if noff (cpus s c) = 0
               then s\<lparr>cpus := (cpus s)(c := (cpus s c)\<lparr>intena := old\<rparr>)\<rparr> else s)
      in s\<lparr>cpus := (cpus s)(c := (cpus s c)\<lparr>noff := noff (cpus s c) + 1\<rparr>)\<rparr>)"

definition pop_off :: "nat \<Rightarrow> machine \<Rightarrow> machine result" where
  "pop_off c s =
     (if intr_get c s then Stop (Panic ''pop_off - interruptible'')
      else if sint (noff (cpus s c)) < 1 then Stop (Panic ''pop_off'')
      else let s = s\<lparr>cpus := (cpus s)(c := (cpus s c)\<lparr>noff := noff (cpus s c) - 1\<rparr>)\<rparr>
           in Ok (if noff (cpus s c) = 0 \<and> intena (cpus s c) then intr_on c s else s))"

definition holding :: "nat \<Rightarrow> lockid \<Rightarrow> machine \<Rightarrow> bool" where
  "holding c lk s \<longleftrightarrow> locked (locks s lk) \<and> lkcpu (locks s lk) = Some c"

text \<open>\<^verbatim>\<open>acquire\<close> when the test-and-set succeeds at once; a lock held elsewhere makes it spin.\<close>

definition acquire :: "nat \<Rightarrow> lockid \<Rightarrow> machine \<Rightarrow> machine result" where
  "acquire c lk s =
     (let s = push_off c s
      in if holding c lk s then Stop (Panic ''acquire'')
         else if locked (locks s lk) then Stop Spinning
         else Ok (s\<lparr>locks := (locks s)(lk := \<lparr>locked = True, lkcpu = Some c\<rparr>)\<rparr>))"

definition release :: "nat \<Rightarrow> lockid \<Rightarrow> machine \<Rightarrow> machine result" where
  "release c lk s =
     (if \<not> holding c lk s then Stop (Panic ''release'')
      else pop_off c (s\<lparr>locks := (locks s)(lk := \<lparr>locked = False, lkcpu = None\<rparr>)\<rparr>))"

section \<open>The contract\<close>

locale lock_view =
  fixes acq :: "'l \<Rightarrow> 's \<Rightarrow> 's result"
    and rel :: "'l \<Rightarrow> 's \<Rightarrow> 's result"
    and holds :: "'s \<Rightarrow> 'l set"
  assumes acq_Ok: "acq l s = Ok s' \<Longrightarrow> l \<notin> holds s \<and> holds s' = insert l (holds s)"
    and rel_Ok: "rel l s = Ok s' \<Longrightarrow> l \<in> holds s \<and> holds s' = holds s - {l}"
    and acq_held: "l \<in> holds s \<Longrightarrow> acq l s = Stop (Panic ''acquire'')"
    and rel_unheld: "l \<notin> holds s \<Longrightarrow> rel l s = Stop (Panic ''release'')"
begin

lemma bracket_holds:
  assumes "acq l s = Ok s1" and "holds s2 = holds s1" and "rel l s2 = Ok s3"
  shows "holds s3 = holds s"
proof -
  have "l \<notin> holds s" and "holds s2 = insert l (holds s)"
    using acq_Ok [OF assms(1)] assms(2) by simp_all
  then show ?thesis
    using rel_Ok [OF assms(3)] by auto
qed

lemma double_acquire: "acq l s = Ok s1 \<Longrightarrow> acq l s1 = Stop (Panic ''acquire'')"
  using acq_Ok acq_held by blast

lemma double_release: "rel l s = Ok s1 \<Longrightarrow> rel l s1 = Stop (Panic ''release'')"
  using rel_Ok rel_unheld by blast

end

definition held_by :: "nat \<Rightarrow> machine \<Rightarrow> lockid set" where
  "held_by c s = {lk. holding c lk s}"

lemma locks_push_off [simp]: "locks (push_off c s) = locks s"
  by (simp add: push_off_def intr_off_def Let_def)

lemma locks_pop_off: "pop_off c s = Ok s' \<Longrightarrow> locks s' = locks s"
  by (auto simp: pop_off_def Let_def intr_on_def split: if_splits)

lemma holding_push_off [simp]: "holding d lk (push_off c s) = holding d lk s"
  by (simp add: holding_def)

interpretation spin: lock_view "acquire c" "release c" "held_by c" for c
proof
  fix l s s'
  show "l \<notin> held_by c s \<and> held_by c s' = insert l (held_by c s)" if "acquire c l s = Ok s'"
    using that by (auto simp: acquire_def Let_def held_by_def holding_def split: if_splits)
  show "l \<in> held_by c s \<and> held_by c s' = held_by c s - {l}" if "release c l s = Ok s'"
    using that
    by (auto simp: release_def held_by_def holding_def dest!: locks_pop_off split: if_splits)
  show "acquire c l s = Stop (Panic ''acquire'')" if "l \<in> held_by c s"
    using that by (simp add: acquire_def Let_def held_by_def)
  show "release c l s = Stop (Panic ''release'')" if "l \<notin> held_by c s"
    using that by (simp add: release_def held_by_def)
qed

section \<open>The hart view\<close>

text \<open>
  What the code running on one hart sees: the locks it holds. \<^verbatim>\<open>acquire\<close> panics on a lock
  the hart already holds and otherwise returns holding it; what other harts did to the
  protected data while it was spinning happened before the critical section.
\<close>

record hart =
  held :: "lockid set"

definition lk_acquire :: "lockid \<Rightarrow> 'a hart_scheme \<Rightarrow> 'a hart_scheme result" where
  "lk_acquire lk s =
     (if lk \<in> held s then Stop (Panic ''acquire'') else Ok (s\<lparr>held := insert lk (held s)\<rparr>))"

definition lk_release :: "lockid \<Rightarrow> 'a hart_scheme \<Rightarrow> 'a hart_scheme result" where
  "lk_release lk s =
     (if lk \<notin> held s then Stop (Panic ''release'') else Ok (s\<lparr>held := held s - {lk}\<rparr>))"

definition lk_init :: "lockid \<Rightarrow> 'a hart_scheme \<Rightarrow> 'a hart_scheme" where
  "lk_init lk s = s\<lparr>held := held s - {lk}\<rparr>"

interpretation hartv: lock_view lk_acquire lk_release held
  by unfold_locales (auto simp: lk_acquire_def lk_release_def split: if_splits)

lemma lk_acquire_simps [run_simps]:
  "lk \<notin> held s \<Longrightarrow> lk_acquire lk s = Ok (s\<lparr>held := insert lk (held s)\<rparr>)"
  "lk \<in> held s \<Longrightarrow> lk_acquire lk s = Stop (Panic ''acquire'')"
  by (simp_all add: lk_acquire_def)

lemma lk_release_simps [run_simps]:
  "lk \<in> held s \<Longrightarrow> lk_release lk s = Ok (s\<lparr>held := held s - {lk}\<rparr>)"
  "lk \<notin> held s \<Longrightarrow> lk_release lk s = Stop (Panic ''release'')"
  by (simp_all add: lk_release_def)

lemma insert_remove_lock [simp]: "lk \<notin> H \<Longrightarrow> insert lk H - {lk} = H"
  by auto

text \<open>The hart view is the projection of the machine view on the locks of one hart.\<close>

lemma acquire_refines:
  assumes "acquire c lk s = Ok s'"
  shows "lk_acquire lk \<lparr>held = held_by c s\<rparr> = Ok \<lparr>held = held_by c s'\<rparr>"
  using spin.acq_Ok [OF assms] by (simp add: lk_acquire_def)

lemma release_refines:
  assumes "release c lk s = Ok s'"
  shows "lk_release lk \<lparr>held = held_by c s\<rparr> = Ok \<lparr>held = held_by c s'\<rparr>"
  using spin.rel_Ok [OF assms] by (simp add: lk_release_def)

section \<open>push_off and pop_off are matched\<close>

primrec push_offs :: "nat \<Rightarrow> nat \<Rightarrow> machine \<Rightarrow> machine" where
  "push_offs 0 c s = s"
| "push_offs (Suc n) c s = push_off c (push_offs n c s)"

primrec pop_offs :: "nat \<Rightarrow> nat \<Rightarrow> machine \<Rightarrow> machine result" where
  "pop_offs 0 c s = Ok s"
| "pop_offs (Suc n) c s = rbind (pop_off c s) (pop_offs n c)"

text \<open>A hart with a positive \<^verbatim>\<open>noff\<close> has its interrupts off.\<close>

definition cpu_ok :: "nat \<Rightarrow> machine \<Rightarrow> bool" where
  "cpu_ok c s \<longleftrightarrow> 0 \<le> sint (noff (cpus s c)) \<and> (0 < sint (noff (cpus s c)) \<longrightarrow> \<not> sie (cpus s c))"

lemma push_off_cpu:
  "cpus (push_off c s) c = (cpus s c)\<lparr>sie := False, noff := noff (cpus s c) + 1,
     intena := (if noff (cpus s c) = 0 then sie (cpus s c) else intena (cpus s c))\<rparr>"
  by (simp add: push_off_def intr_get_def intr_off_def Let_def)

lemma pop_off_cpu:
  assumes "\<not> sie (cpus s c)" and "0 < sint (noff (cpus s c))"
  obtains s' where "pop_off c s = Ok s'" and "locks s' = locks s"
    and "cpus s' c = (cpus s c)\<lparr>noff := noff (cpus s c) - 1,
      sie := (noff (cpus s c) = 1 \<and> intena (cpus s c))\<rparr>"
proof -
  obtain s' where s': "pop_off c s = Ok s'"
    using assms by (auto simp: pop_off_def intr_get_def Let_def)
  moreover have "cpus s' c = (cpus s c)\<lparr>noff := noff (cpus s c) - 1,
      sie := (noff (cpus s c) = 1 \<and> intena (cpus s c))\<rparr>"
    using assms s' by (auto simp: pop_off_def intr_get_def intr_on_def Let_def split: if_splits)
  ultimately show ?thesis using that locks_pop_off by blast
qed

lemma sint_plus_of_nat: "sint ((w :: cint) + of_nat n) = signed_take_bit 31 (sint w + int n)"
proof -
  have "w + of_nat n = word_of_int (sint w + int n)" by simp
  then show ?thesis by (simp add: sint_sbintrunc' del: of_int_add)
qed

lemma sint_add_of_nat:
  "0 \<le> sint (w :: cint) \<Longrightarrow> sint w + int n < 2 ^ 31 \<Longrightarrow> sint (w + of_nat n) = sint w + int n"
  by (simp add: sint_plus_of_nat signed_take_bit_int_eq_self)

lemma sint_add_overflow:
  assumes "2 ^ 31 \<le> sint (w :: cint) + int n" and "sint w + int n < 2 ^ 32"
  shows "sint (w + of_nat n) < 0"
proof -
  have "take_bit 32 (sint w + int n + 2 ^ 31) = sint w + int n + 2 ^ 31 - 2 ^ 32"
    using assms mod_pos_pos_trivial [of "sint w + int n + 2 ^ 31 - 2 ^ 32" "2 ^ 32"]
      minus_mod_self2 [of "sint w + int n + 2 ^ 31" "2 ^ 32"] by (simp add: take_bit_eq_mod)
  then show ?thesis using assms by (simp add: sint_plus_of_nat signed_take_bit_eq_take_bit_shift)
qed

lemma push_offs_cpu:
  "noff (cpus (push_offs n c s) c) = noff (cpus s c) + of_nat n \<and> (0 < n \<longrightarrow> \<not> sie (cpus (push_offs n c s) c))"
  by (induction n) (simp_all add: push_off_cpu)

lemma push_offs_intena:
  assumes "0 \<le> sint (noff (cpus s c))"
  shows "0 < n \<Longrightarrow> sint (noff (cpus s c)) + int n < 2 ^ 31 \<Longrightarrow>
    intena (cpus (push_offs n c s) c) = (if noff (cpus s c) = 0 then sie (cpus s c) else intena (cpus s c))"
proof (induction n)
  case (Suc n)
  have "noff (cpus s c) + of_nat n \<noteq> 0" if "0 < n"
    using that Suc.prems(2) sint_add_of_nat [OF assms, of n] assms by auto
  then show ?case using Suc push_offs_cpu [of n c s] by (cases "n = 0") (simp_all add: push_off_cpu)
qed simp

lemma pop_offs_cpu:
  assumes "\<not> sie (cpus s c)" and "sint (noff (cpus s c)) = sint k + int n" and "0 \<le> sint k" and "0 < n"
  shows "\<exists>s'. pop_offs n c s = Ok s' \<and> locks s' = locks s \<and> noff (cpus s' c) = k
    \<and> sie (cpus s' c) = (k = 0 \<and> intena (cpus s c))"
  using assms
proof (induction n arbitrary: s)
  case (Suc n)
  obtain s1 where s1: "pop_off c s = Ok s1" "locks s1 = locks s"
    "cpus s1 c = (cpus s c)\<lparr>noff := noff (cpus s c) - 1,
      sie := (noff (cpus s c) = 1 \<and> intena (cpus s c))\<rparr>"
    using Suc.prems by (elim pop_off_cpu [of s c]) auto
  have m: "sint (noff (cpus s c) - 1) = sint k + int n"
    using Suc.prems(2,3) sint_lt [of "noff (cpus s c)"] by (simp add: sint_word_ariths signed_take_bit_int_eq_self)
  show ?case
  proof (cases "n = 0")
    case True
    then have "noff (cpus s c) - 1 = k" using m by (simp add: signed_word_eqI)
    moreover from this have "noff (cpus s c) = 1 \<longleftrightarrow> k = 0" by auto
    ultimately show ?thesis using s1 True by auto
  next
    case False
    then have "noff (cpus s c) \<noteq> 1" using m Suc.prems(3) by auto
    then have "\<exists>s'. pop_offs n c s1 = Ok s' \<and> locks s' = locks s1 \<and> noff (cpus s' c) = k
        \<and> sie (cpus s' c) = (k = 0 \<and> intena (cpus s1 c))"
      using s1 Suc.prems False m by (intro Suc.IH) auto
    with s1 show ?thesis by auto
  qed
qed simp

lemma locks_push_offs [simp]: "locks (push_offs n c s) = locks s"
  by (induction n) simp_all

lemma push_pop_matched:
  assumes "cpu_ok c s" and "0 < n" and "sint (noff (cpus s c)) + int n < 2 ^ 31"
  shows "\<exists>s'. pop_offs n c (push_offs n c s) = Ok s' \<and> locks s' = locks s
    \<and> noff (cpus s' c) = noff (cpus s c) \<and> sie (cpus s' c) = sie (cpus s c)"
proof -
  let ?s = "push_offs n c s" and ?k = "noff (cpus s c)"
  have k: "0 \<le> sint ?k" "?k \<noteq> 0 \<longrightarrow> \<not> sie (cpus s c)"
    using assms(1) by (auto simp: cpu_ok_def) (metis order_le_less signed_eq_0_iff)
  have "\<exists>s'. pop_offs n c ?s = Ok s' \<and> locks s' = locks ?s \<and> noff (cpus s' c) = ?k
    \<and> sie (cpus s' c) = (?k = 0 \<and> intena (cpus ?s c))"
    using push_offs_cpu [of n c s] sint_add_of_nat [OF k(1) assms(3)] assms(2) k(1)
    by (intro pop_offs_cpu) simp_all
  with push_offs_intena [OF k(1) assms(2,3)] k(2) show ?thesis by auto
qed

lemma push_pop_overflow:
  assumes "0 \<le> sint (noff (cpus s c))" and "2 ^ 31 \<le> sint (noff (cpus s c)) + int n" and "sint (noff (cpus s c)) + int n < 2 ^ 32"
  shows "pop_offs n c (push_offs n c s) = Stop (Panic ''pop_off'')"
proof -
  have n: "0 < n" using assms(2) sint_lt [of "noff (cpus s c)"] by (cases n) auto
  have "sint (noff (cpus s c) + of_nat n) < 0" by (rule sint_add_overflow [OF assms(2,3)])
  then have "pop_off c (push_offs n c s) = Stop (Panic ''pop_off'')"
    using push_offs_cpu [of n c s] n by (simp add: pop_off_def intr_get_def)
  with n show ?thesis by (cases n) simp_all
qed

section \<open>Mutual exclusion\<close>

text \<open>
  One lock and any number of harts. A hart that enters \<^verbatim>\<open>acquire\<close> checks \<^verbatim>\<open>holding\<close>, then
  repeats the atomic test-and-set; after it succeeds it records itself in \<^verbatim>\<open>lk->cpu\<close>.
  \<^verbatim>\<open>release\<close> checks \<^verbatim>\<open>holding\<close>, clears \<^verbatim>\<open>lk->cpu\<close>, and only then clears \<^verbatim>\<open>lk->locked\<close>. The
  harts may be interleaved between any two of these actions.
\<close>

datatype lock_pc = Idle | Trying | Won | Critical | Freeing

record lock_sys =
  the_lock :: spinlock
  pcs :: "nat \<Rightarrow> lock_pc"

definition lock_init :: lock_sys where
  "lock_init = \<lparr>the_lock = \<lparr>locked = False, lkcpu = None\<rparr>, pcs = (\<lambda>_. Idle)\<rparr>"

inductive lock_step :: "lock_sys \<Rightarrow> lock_sys \<Rightarrow> bool" where
  enter: "pcs s i = Idle \<Longrightarrow> \<not> (locked (the_lock s) \<and> lkcpu (the_lock s) = Some i) \<Longrightarrow>
     lock_step s (s\<lparr>pcs := (pcs s)(i := Trying)\<rparr>)"
| tas_fail: "pcs s i = Trying \<Longrightarrow> locked (the_lock s) \<Longrightarrow> lock_step s s"
| tas_win: "pcs s i = Trying \<Longrightarrow> \<not> locked (the_lock s) \<Longrightarrow>
     lock_step s (s\<lparr>the_lock := (the_lock s)\<lparr>locked := True\<rparr>, pcs := (pcs s)(i := Won)\<rparr>)"
| set_cpu: "pcs s i = Won \<Longrightarrow>
     lock_step s (s\<lparr>the_lock := (the_lock s)\<lparr>lkcpu := Some i\<rparr>, pcs := (pcs s)(i := Critical)\<rparr>)"
| clear_cpu: "pcs s i = Critical \<Longrightarrow> locked (the_lock s) \<Longrightarrow> lkcpu (the_lock s) = Some i \<Longrightarrow>
     lock_step s (s\<lparr>the_lock := (the_lock s)\<lparr>lkcpu := None\<rparr>, pcs := (pcs s)(i := Freeing)\<rparr>)"
| unlock: "pcs s i = Freeing \<Longrightarrow>
     lock_step s (s\<lparr>the_lock := (the_lock s)\<lparr>locked := False\<rparr>, pcs := (pcs s)(i := Idle)\<rparr>)"

inductive lock_reachable :: "lock_sys \<Rightarrow> bool" where
  init: "lock_reachable lock_init"
| step: "lock_reachable s \<Longrightarrow> lock_step s t \<Longrightarrow> lock_reachable t"

definition owning :: "lock_sys \<Rightarrow> nat set" where
  "owning s = {i. pcs s i \<in> {Won, Critical, Freeing}}"

definition lock_inv :: "lock_sys \<Rightarrow> bool" where
  "lock_inv s \<longleftrightarrow>
     (if locked (the_lock s) then \<exists>i. owning s = {i} else owning s = {})
     \<and> (\<forall>i. lkcpu (the_lock s) = Some i \<longleftrightarrow> pcs s i = Critical)"

lemma owning_upd:
  "owning (s\<lparr>the_lock := l, pcs := (pcs s)(i := p)\<rparr>) =
     (if p \<in> {Won, Critical, Freeing} then insert i (owning s) else owning s - {i})"
  "owning (s\<lparr>pcs := (pcs s)(i := p)\<rparr>) =
     (if p \<in> {Won, Critical, Freeing} then insert i (owning s) else owning s - {i})"
  by (auto simp: owning_def)

lemma lock_step_inv: "lock_step s t \<Longrightarrow> lock_inv s \<Longrightarrow> lock_inv t"
proof (induction rule: lock_step.induct)
  case (enter s i)
  then have "i \<notin> owning s" by (simp add: owning_def)
  with enter show ?case by (auto simp: lock_inv_def owning_upd split: if_splits)
next
  case (tas_win s i)
  then show ?case by (force simp: lock_inv_def owning_upd)
next
  case (set_cpu s i)
  then have "i \<in> owning s" by (simp add: owning_def)
  then have "owning s = {i}" and "locked (the_lock s)"
    using set_cpu.prems by (auto simp: lock_inv_def split: if_splits)
  moreover have "pcs s j \<noteq> Critical" if "j \<noteq> i" for j
    using that \<open>owning s = {i}\<close> by (auto simp: owning_def)
  ultimately show ?case using set_cpu by (auto simp: lock_inv_def owning_upd)
next
  case (clear_cpu s i)
  then have "i \<in> owning s" by (simp add: owning_def)
  with clear_cpu show ?case by (auto simp: lock_inv_def owning_upd)
next
  case (unlock s i)
  then have "i \<in> owning s" by (simp add: owning_def)
  then have "owning s = {i}"
    using unlock.prems by (auto simp: lock_inv_def split: if_splits)
  with unlock show ?case by (auto simp: lock_inv_def owning_upd)
qed simp

lemma lock_reachable_inv: "lock_reachable s \<Longrightarrow> lock_inv s"
proof (induction rule: lock_reachable.induct)
  case init
  show ?case by (simp add: lock_inv_def lock_init_def owning_def)
next
  case (step s t)
  then show ?case by (blast intro: lock_step_inv)
qed

lemma lock_mutual_exclusion:
  assumes "lock_reachable s" and "i \<in> owning s" and "j \<in> owning s"
  shows "i = j"
  using lock_reachable_inv [OF assms(1)] assms(2,3)
  by (auto simp: lock_inv_def split: if_splits)

text \<open>In its critical section a hart passes the \<^verbatim>\<open>holding\<close> check of \<^verbatim>\<open>release\<close>.\<close>

lemma critical_holds:
  assumes "lock_reachable s" and "pcs s i = Critical"
  shows "locked (the_lock s) \<and> lkcpu (the_lock s) = Some i"
proof -
  have "i \<in> owning s" using assms by (simp add: owning_def)
  then show ?thesis
    using lock_reachable_inv [OF assms(1)] assms(2) by (auto simp: lock_inv_def split: if_splits)
qed

section \<open>Properties\<close>

text \<open>
  C13: whatever the interleaving of the harts inside \<^verbatim>\<open>acquire\<close> and \<^verbatim>\<open>release\<close>, two harts are never
  in the critical section of a lock at once, and the hart inside it passes the \<^verbatim>\<open>holding\<close> check.
\<close>

theorem acquire_release_exclusion:
  assumes "lock_reachable s" and "pcs s i = Critical" and "pcs s j = Critical"
  shows "i = j \<and> locked (the_lock s) \<and> lkcpu (the_lock s) = Some i"
  using lock_mutual_exclusion [OF assms(1), of i j] critical_holds [OF assms(1,2)] assms(2,3)
  by (simp add: owning_def)

theorem acquire_release_exclusion_witness:
  "\<exists>s. lock_reachable s \<and> pcs s 0 = Critical \<and> lkcpu (the_lock s) = Some 0"
proof -
  let ?s1 = "lock_init\<lparr>pcs := (pcs lock_init)(0 := Trying)\<rparr>"
  let ?s2 = "?s1\<lparr>the_lock := (the_lock ?s1)\<lparr>locked := True\<rparr>, pcs := (pcs ?s1)(0 := Won)\<rparr>"
  let ?s3 = "?s2\<lparr>the_lock := (the_lock ?s2)\<lparr>lkcpu := Some 0\<rparr>, pcs := (pcs ?s2)(0 := Critical)\<rparr>"
  have "lock_step lock_init ?s1" by (rule lock_step.enter) (simp_all add: lock_init_def)
  moreover have "lock_step ?s1 ?s2" by (rule lock_step.tas_win) (simp_all add: lock_init_def)
  moreover have "lock_step ?s2 ?s3" by (rule lock_step.set_cpu) simp
  ultimately have r: "lock_reachable ?s3" by (blast intro: lock_reachable.intros)
  have c: "pcs ?s3 0 = Critical" by simp
  from acquire_release_exclusion [OF r c c] r c show ?thesis by blast
qed

text \<open>
  C34: after \<open>n\<close> calls of \<^verbatim>\<open>push_off\<close>, \<open>n\<close> calls of \<^verbatim>\<open>pop_off\<close> return without panic and restore
  the nesting depth and the interrupt state of the hart, as long as the depth fits in a C \<^verbatim>\<open>int\<close>. Where it does
  not, the counter has become negative and the first \<^verbatim>\<open>pop_off\<close> panics.
\<close>

theorem push_off_pop_off:
  assumes "cpu_ok c s" and "0 < n" and "sint (noff (cpus s c)) + int n < 2 ^ 32"
  shows "if sint (noff (cpus s c)) + int n < 2 ^ 31
    then \<exists>s'. pop_offs n c (push_offs n c s) = Ok s' \<and> locks s' = locks s
      \<and> noff (cpus s' c) = noff (cpus s c) \<and> sie (cpus s' c) = sie (cpus s c)
    else pop_offs n c (push_offs n c s) = Stop (Panic ''pop_off'')"
  using push_pop_matched [OF assms(1,2)] push_pop_overflow [OF _ _ assms(3)] assms(1) by (simp add: cpu_ok_def)

theorem push_off_pop_off_witness:
  "\<exists>s'. pop_offs 2 0 (push_offs 2 0 \<lparr>locks = (\<lambda>_. \<lparr>locked = False, lkcpu = None\<rparr>),
      cpus = (\<lambda>_. \<lparr>noff = 0, intena = False, sie = True\<rparr>)\<rparr>) = Ok s' \<and> sie (cpus s' 0)"
  using push_off_pop_off [of 0 "\<lparr>locks = (\<lambda>_. \<lparr>locked = False, lkcpu = None\<rparr>),
      cpus = (\<lambda>_. \<lparr>noff = 0, intena = False, sie = True\<rparr>)\<rparr>" 2]
  by (auto simp: cpu_ok_def)

text \<open>
  C35: the hart view of locking used by the other components is the projection of \<^verbatim>\<open>acquire\<close> and
  \<^verbatim>\<open>release\<close> on the locks the hart holds.
\<close>

theorem hart_view_refines:
  assumes "acquire c lk s = Ok s1" and "release c lk' t = Ok t1"
  shows "lk_acquire lk \<lparr>held = held_by c s\<rparr> = Ok \<lparr>held = held_by c s1\<rparr>
    \<and> lk_release lk' \<lparr>held = held_by c t\<rparr> = Ok \<lparr>held = held_by c t1\<rparr>"
  using acquire_refines [OF assms(1)] release_refines [OF assms(2)] by blast

theorem hart_view_refines_witness:
  "\<exists>s1. acquire 0 KmemLock \<lparr>locks = (\<lambda>_. \<lparr>locked = False, lkcpu = None\<rparr>),
      cpus = (\<lambda>_. \<lparr>noff = 0, intena = False, sie = True\<rparr>)\<rparr> = Ok s1
    \<and> lk_release KmemLock \<lparr>held = held_by 0 s1\<rparr> = Ok \<lparr>held = {}\<rparr>"
proof -
  let ?s = "\<lparr>locks = (\<lambda>_. \<lparr>locked = False, lkcpu = None\<rparr>),
      cpus = (\<lambda>_. \<lparr>noff = 0, intena = False, sie = True\<rparr>)\<rparr>"
  obtain s1 where s1: "acquire 0 KmemLock ?s = Ok s1"
    by (simp add: acquire_def holding_def push_off_def intr_get_def intr_off_def Let_def)
  then obtain t1 where t1: "release 0 KmemLock s1 = Ok t1"
    by (auto simp: acquire_def release_def holding_def push_off_def pop_off_def intr_get_def
        intr_off_def Let_def split: if_splits)
  have "held_by 0 t1 = {}"
    using spin.bracket_holds [OF s1 refl t1] by (simp add: held_by_def holding_def)
  with hart_view_refines [OF s1 t1] s1 show ?thesis by auto
qed

end
