(* ===== verification/Kalloc.thy ===== *)
theory Kalloc
  imports Riscv Cstring Spinlock
begin

text \<open>
  The physical page allocator of \<^verbatim>\<open>kernel/kalloc.c\<close>. The free list is the linked list of the
  source: \<^verbatim>\<open>kmem.freelist\<close> holds the address of the first free page and the first eight
  bytes of a free page hold the address of the next. The invariant \<open>kmem_ok s ps\<close> says that
  the list in memory is \<open>ps\<close>; the operations are shown to act on \<open>ps\<close> as on an abstract list,
  and to satisfy the contract \<open>page_allocator\<close>.
\<close>

section \<open>State and operations\<close>

text \<open>\<^verbatim>\<open>end\<close>, the first address after the kernel, is fixed by the linker: a field no operation writes.\<close>

record kmem = hart +
  mem :: bytes
  freelist :: uint64
  kend :: uint64

definition kfree :: "uint64 \<Rightarrow> 'a kmem_scheme \<Rightarrow> 'a kmem_scheme result" where
  "kfree pa s =
     (if pa mod PGSIZE \<noteq> 0 \<or> pa < kend s \<or> pa \<ge> PHYSTOP then Stop (Panic ''kfree'')
      else let s = s\<lparr>mem := memset (mem s) pa 1 4096\<rparr>
           in rbind (lk_acquire KmemLock s) (\<lambda>s.
              let s = s\<lparr>mem := store64 (mem s) pa (freelist s)\<rparr>;
                  s = s\<lparr>freelist := pa\<rparr>
              in lk_release KmemLock s))"

definition kalloc :: "'a kmem_scheme \<Rightarrow> (uint64 \<times> 'a kmem_scheme) result" where
  "kalloc s =
     rbind (lk_acquire KmemLock s) (\<lambda>s.
     let r = freelist s;
         s = (if r \<noteq> 0 then s\<lparr>freelist := load64 (mem s) r\<rparr> else s)
     in rbind (lk_release KmemLock s) (\<lambda>s.
        Ok (r, if r \<noteq> 0 then s\<lparr>mem := memset (mem s) r 5 4096\<rparr> else s)))"

function freerange_loop :: "uint64 \<Rightarrow> uint64 \<Rightarrow> 'a kmem_scheme \<Rightarrow> 'a kmem_scheme result" where
  "freerange_loop p pa_end s =
     (if p + PGSIZE \<le> pa_end
      then rbind (kfree p s) (freerange_loop (p + PGSIZE) pa_end)
      else Ok s)"
  by pat_completeness auto
termination
proof (relation "measure (\<lambda>(p, pa_end, s). 2 ^ 64 - unat p)")
  fix p pa_end :: uint64 and s x :: "'a kmem_scheme"
  assume "kfree p s = Ok x"
  then have "unat p < unat PHYSTOP"
    by (auto simp: kfree_def word_less_nat_alt not_le split: if_splits)
  then have "unat (p + PGSIZE) = unat p + 4096"
    by (subst unat_add_small) simp_all
  with \<open>unat p < unat PHYSTOP\<close>
  show "((p + PGSIZE, pa_end, x), p, pa_end, s) \<in> measure (\<lambda>(p, pa_end, s). 2 ^ 64 - unat p)"
    by simp
qed simp

definition freerange :: "uint64 \<Rightarrow> uint64 \<Rightarrow> 'a kmem_scheme \<Rightarrow> 'a kmem_scheme result" where
  "freerange pa_start pa_end s = freerange_loop (PGROUNDUP pa_start) pa_end s"

definition kinit :: "'a kmem_scheme \<Rightarrow> 'a kmem_scheme result" where
  "kinit s = (let s = lk_init KmemLock s in freerange (kend s) PHYSTOP s)"

section \<open>The free list in memory\<close>

primrec run_list :: "bytes \<Rightarrow> uint64 \<Rightarrow> uint64 list \<Rightarrow> bool" where
  "run_list m p [] \<longleftrightarrow> p = 0"
| "run_list m p (q # qs) \<longleftrightarrow> p = q \<and> p \<noteq> 0 \<and> run_list m (load64 m p) qs"

definition kpage :: "uint64 \<Rightarrow> uint64 \<Rightarrow> bool" where
  "kpage e p \<longleftrightarrow> page_aligned p \<and> e \<le> p \<and> p < PHYSTOP"

definition kmem_ok :: "'a kmem_scheme \<Rightarrow> uint64 list \<Rightarrow> bool" where
  "kmem_ok s ps \<longleftrightarrow> run_list (mem s) (freelist s) ps \<and> distinct ps \<and> list_all (kpage (kend s)) ps
     \<and> KERNBASE \<le> kend s \<and> KmemLock \<notin> held s"

lemma run_list_unique: "run_list m p ps \<Longrightarrow> run_list m p qs \<Longrightarrow> ps = qs"
proof (induction ps arbitrary: p qs)
  case Nil
  then show ?case by (cases qs) auto
next
  case (Cons a ps)
  then show ?case by (cases qs) auto
qed

lemma run_list_frame:
  assumes "\<And>p b. p \<in> set ps \<Longrightarrow> in_range b p 8 \<Longrightarrow> m' b = m b"
  shows "run_list m' q ps \<longleftrightarrow> run_list m q ps"
  using assms
proof (induction ps arbitrary: q)
  case (Cons p ps)
  have "load64 m' p = load64 m p"
    by (rule load64_cong) (use Cons.prems in auto)
  moreover have "run_list m' x ps \<longleftrightarrow> run_list m x ps" for x
    by (rule Cons.IH) (use Cons.prems in auto)
  ultimately show ?case by (cases "q = p") simp_all
qed simp

lemma run_list_0 [simp]: "run_list m 0 ps \<longleftrightarrow> ps = []"
  by (cases ps) auto

lemma kpage_nonzero: "kpage e p \<Longrightarrow> KERNBASE \<le> e \<Longrightarrow> p \<noteq> 0"
  by (auto simp: kpage_def)

lemma kpage_disjoint:
  assumes "kpage e p" and "kpage e q" and "p \<noteq> q" and "in_range b p 8"
  shows "\<not> in_range b q 4096"
  using assms pages_disjoint [of p q b] in_range_mono [of b p 8 4096]
  by (auto simp: kpage_def)

lemma memset_page [simp]: "memset m d c 4096 = fill m d (ucast c) 4096"
  by (simp add: memset_fill)

section \<open>kfree and kalloc act on the list\<close>

lemma kfree_Panic: "\<not> kpage (kend s) pa \<Longrightarrow> kfree pa s = Stop (Panic ''kfree'')"
  by (auto simp: kfree_def kpage_def page_aligned_def not_le)

lemma kfree_eq:
  assumes "kpage (kend s) pa" and "KmemLock \<notin> held s"
  shows "kfree pa s = Ok (s\<lparr>mem := store64 (fill (mem s) pa 1 4096) pa (freelist s),
    freelist := pa\<rparr>)"
proof -
  have "\<not> (pa mod PGSIZE \<noteq> 0 \<or> pa < kend s \<or> pa \<ge> PHYSTOP)"
    using assms(1) by (auto simp: kpage_def page_aligned_def)
  with assms(2) show ?thesis
    unfolding kfree_def by (simp only: if_False Let_def) (simp add: run_simps)
qed

lemma kalloc_eq:
  assumes "KmemLock \<notin> held s"
  shows "kalloc s = Ok (freelist s,
    if freelist s \<noteq> 0
    then s\<lparr>mem := fill (mem s) (freelist s) 5 4096, freelist := load64 (mem s) (freelist s)\<rparr>
    else s)"
  using assms by (simp add: kalloc_def run_simps Let_def)

lemma kfree_ok:
  assumes "kmem_ok s ps" and "kpage (kend s) pa" and "pa \<notin> set ps" and "kfree pa s = Ok s'"
  shows "kmem_ok s' (pa # ps)"
proof -
  have s': "s' = s\<lparr>mem := store64 (fill (mem s) pa 1 4096) pa (freelist s), freelist := pa\<rparr>"
    using assms by (simp add: kfree_eq kmem_ok_def)
  have "mem s' b = mem s b" if "p \<in> set ps" and "in_range b p 8" for p b
  proof -
    have "\<not> in_range b pa 4096"
      using that assms by (intro kpage_disjoint [of "kend s" p]) (auto simp: kmem_ok_def list_all_iff)
    moreover from this have "\<not> in_range b pa 8"
      using in_range_mono [of b pa 8 4096] by auto
    ultimately show ?thesis by (simp add: s' store64_outside fill_apply)
  qed
  then have "run_list (mem s') (freelist s) ps"
    using assms(1) by (subst run_list_frame) (auto simp: kmem_ok_def)
  moreover have "pa \<noteq> 0" using assms kpage_nonzero by (auto simp: kmem_ok_def)
  ultimately show ?thesis
    using assms by (simp add: kmem_ok_def s')
qed

lemma kalloc_ok:
  assumes "kmem_ok s (p # ps)"
  obtains s' where "kalloc s = Ok (p, s')" and "kmem_ok s' ps" and "kend s' = kend s"
    and "mem s' = fill (mem s) p 5 4096" and "held s' = held s"
proof -
  let ?s = "s\<lparr>mem := fill (mem s) p 5 4096, freelist := load64 (mem s) p\<rparr>"
  have p: "freelist s = p" "p \<noteq> 0" "p \<notin> set ps" "kpage (kend s) p"
    and run: "run_list (mem s) (load64 (mem s) p) ps"
    using assms by (auto simp: kmem_ok_def)
  then have "kalloc s = Ok (p, ?s)"
    using assms by (simp add: kalloc_eq kmem_ok_def)
  moreover have "fill (mem s) p 5 4096 b = mem s b" if "q \<in> set ps" and "in_range b q 8" for q b
  proof -
    have "\<not> in_range b p 4096"
      using that assms p by (intro kpage_disjoint [of "kend s" q]) (auto simp: kmem_ok_def list_all_iff)
    then show ?thesis by (simp add: fill_apply)
  qed
  then have "kmem_ok ?s ps"
    using assms run run_list_frame [of ps "fill (mem s) p 5 4096" "mem s"]
    by (auto simp: kmem_ok_def)
  ultimately show ?thesis using that by simp
qed

lemma kalloc_empty: "kmem_ok s [] \<Longrightarrow> kalloc s = Ok (0, s)"
  by (simp add: kalloc_eq kmem_ok_def)

section \<open>The allocator contract\<close>

locale page_allocator =
  fixes alloc :: "'s \<Rightarrow> (uint64 \<times> 's) result"
    and free :: "uint64 \<Rightarrow> 's \<Rightarrow> 's result"
    and ok :: "'s \<Rightarrow> bool"
    and pages :: "'s \<Rightarrow> uint64 set"
    and avail :: "'s \<Rightarrow> uint64 set"
  assumes avail_pages: "ok s \<Longrightarrow> avail s \<subseteq> pages s"
    and null_not_page: "ok s \<Longrightarrow> 0 \<notin> pages s"
    and alloc_some: "ok s \<Longrightarrow> avail s \<noteq> {} \<Longrightarrow>
      \<exists>p s'. alloc s = Ok (p, s') \<and> ok s' \<and> p \<in> avail s \<and> avail s' = avail s - {p} \<and> pages s' = pages s"
    and alloc_none: "ok s \<Longrightarrow> avail s = {} \<Longrightarrow> alloc s = Ok (0, s)"
    and free_page: "ok s \<Longrightarrow> p \<in> pages s - avail s \<Longrightarrow>
      \<exists>s'. free p s = Ok s' \<and> ok s' \<and> avail s' = insert p (avail s) \<and> pages s' = pages s"
begin

lemma alloc_returns: "ok s \<Longrightarrow> \<exists>p s'. alloc s = Ok (p, s') \<and> ok s'"
  using alloc_some alloc_none by (cases "avail s = {}") metis+

lemma alloc_Ok:
  assumes "ok s" and "alloc s = Ok (p, s')"
  shows "ok s' \<and> pages s' = pages s
    \<and> (if p = 0 then avail s = {} \<and> s' = s else p \<in> avail s \<and> avail s' = avail s - {p})"
proof (cases "avail s = {}")
  case True
  with assms alloc_none show ?thesis by auto
next
  case False
  with assms alloc_some obtain q t where
    "alloc s = Ok (q, t)" "ok t" "q \<in> avail s" "avail t = avail s - {q}" "pages t = pages s"
    by metis
  with assms avail_pages [OF assms(1)] null_not_page [OF assms(1)] show ?thesis by auto
qed

lemma alloc_distinct:
  assumes "ok s" and "alloc s = Ok (p, s1)" and "alloc s1 = Ok (q, s2)" and "q \<noteq> 0"
  shows "p \<noteq> q"
  using alloc_Ok [OF assms(1,2)] alloc_Ok [OF _ assms(3)] assms(4)
  by (auto split: if_splits)

lemma alloc_free:
  assumes "ok s" and "alloc s = Ok (p, s1)" and "p \<noteq> 0"
  shows "\<exists>s2. free p s1 = Ok s2 \<and> ok s2 \<and> avail s2 = avail s"
proof -
  have "ok s1" and "p \<in> pages s1 - avail s1" and "avail s1 = avail s - {p}" and "p \<in> avail s"
    using alloc_Ok [OF assms(1,2)] assms(3) avail_pages [OF assms(1)] by auto
  with free_page [of s1 p] show ?thesis by auto
qed

end

definition kmem_inv :: "'a kmem_scheme \<Rightarrow> bool" where
  "kmem_inv s \<longleftrightarrow> (\<exists>ps. kmem_ok s ps)"

definition kpages :: "'a kmem_scheme \<Rightarrow> uint64 set" where
  "kpages s = {p. kpage (kend s) p}"

definition free_pages :: "'a kmem_scheme \<Rightarrow> uint64 set" where
  "free_pages s = {p. \<exists>ps. run_list (mem s) (freelist s) ps \<and> p \<in> set ps}"

lemma free_pages_ok: "kmem_ok s ps \<Longrightarrow> free_pages s = set ps"
  by (auto simp: free_pages_def kmem_ok_def dest: run_list_unique)

interpretation km: page_allocator kalloc kfree kmem_inv kpages free_pages
proof
  fix s :: "'a kmem_scheme" and p
  assume "kmem_inv s"
  then obtain ps where ps: "kmem_ok s ps" by (auto simp: kmem_inv_def)
  show "free_pages s \<subseteq> kpages s"
    using ps by (auto simp: free_pages_ok kpages_def kmem_ok_def list_all_iff)
  show "0 \<notin> kpages s"
    using ps kpage_nonzero by (auto simp: kpages_def kmem_ok_def)
  show "\<exists>p s'. kalloc s = Ok (p, s') \<and> kmem_inv s' \<and> p \<in> free_pages s
      \<and> free_pages s' = free_pages s - {p} \<and> kpages s' = kpages s" if "free_pages s \<noteq> {}"
  proof (cases ps)
    case Nil
    with ps that show ?thesis by (simp add: free_pages_ok)
  next
    case (Cons q qs)
    with ps obtain s' where "kalloc s = Ok (q, s')" "kmem_ok s' qs" "kend s' = kend s"
      by (auto elim: kalloc_ok)
    moreover have "q \<notin> set qs" using ps Cons by (simp add: kmem_ok_def)
    ultimately show ?thesis
      using ps Cons by (auto simp: free_pages_ok kmem_inv_def kpages_def)
  qed
  show "kalloc s = Ok (0, s)" if "free_pages s = {}"
    using ps that by (simp add: free_pages_ok kalloc_empty)
  show "\<exists>s'. kfree p s = Ok s' \<and> kmem_inv s' \<and> free_pages s' = insert p (free_pages s)
      \<and> kpages s' = kpages s" if "p \<in> kpages s - free_pages s"
  proof -
    have p: "kpage (kend s) p" "p \<notin> set ps"
      using that ps by (auto simp: kpages_def free_pages_ok)
    then obtain s' where s': "kfree p s = Ok s'" "kend s' = kend s"
      using ps by (simp add: kfree_eq kmem_ok_def)
    with p ps have "kmem_ok s' (p # ps)" by (intro kfree_ok)
    with s' ps show ?thesis by (auto simp: free_pages_ok kmem_inv_def kpages_def)
  qed
qed

section \<open>Freeing a page twice\<close>

lemma run_list_reaches:
  assumes "run_list m p (xs @ a # ys)" and "\<And>x b. x \<in> set xs \<Longrightarrow> in_range b x 8 \<Longrightarrow> m' b = m b"
    and "run_list m' p qs"
  shows "a \<in> set qs"
  using assms
proof (induction xs arbitrary: p qs)
  case Nil
  then show ?case by (cases qs) auto
next
  case (Cons x xs)
  then obtain rs where qs: "qs = x # rs" "run_list m' (load64 m' x) rs" by (cases qs) auto
  have "load64 m' x = load64 m x" by (rule load64_cong) (use Cons.prems(2) in auto)
  then have "a \<in> set rs" using Cons.prems qs(2) by (intro Cons.IH [of "load64 m x"]) auto
  then show ?case using qs(1) by simp
qed

lemma kfree_twice:
  assumes "kmem_ok s ps" and "pa \<in> set ps"
  shows "\<exists>t. kfree pa s = Ok t \<and> \<not> kmem_inv t"
proof -
  obtain xs ys where ps: "ps = xs @ pa # ys" using assms(2) by (auto simp: in_set_conv_decomp)
  have kp: "kpage (kend s) pa" "distinct ps" "\<And>x. x \<in> set ps \<Longrightarrow> kpage (kend s) x"
    using assms by (auto simp: kmem_ok_def list_all_iff)
  let ?m = "store64 (fill (mem s) pa 1 4096) pa (freelist s)"
  let ?t = "s\<lparr>mem := ?m, freelist := pa\<rparr>"
  have k: "kfree pa s = Ok ?t" using kfree_eq [OF kp(1)] assms(1) by (simp add: kmem_ok_def)
  have same: "?m b = mem s b" if "x \<in> set xs" "in_range b x 8" for x b
  proof -
    have "\<not> in_range b pa 4096" using that kp ps by (intro kpage_disjoint [of "kend s" x]) auto
    moreover from this have "\<not> in_range b pa 8" using in_range_mono [of b pa 8 4096] by auto
    ultimately show ?thesis by (simp add: store64_outside fill_apply)
  qed
  have False if ok: "kmem_ok ?t qs" for qs
  proof -
    obtain rs where "qs = pa # rs" "run_list ?m (freelist s) rs" "pa \<notin> set rs"
      using ok kpage_nonzero [OF kp(1)] by (cases qs) (auto simp: kmem_ok_def)
    moreover have "run_list (mem s) (freelist s) (xs @ pa # ys)" using assms(1) ps by (simp add: kmem_ok_def)
    ultimately show False using run_list_reaches same by blast
  qed
  then show ?thesis using k by (auto simp: kmem_inv_def)
qed

section \<open>Initialisation puts every page on the list\<close>

lemma page_gap:
  assumes "page_aligned p" and "page_aligned q" and "unat p < unat q"
  shows "unat p + 4096 \<le> unat q"
proof -
  obtain i j where "unat p = 4096 * i" and "unat q = 4096 * j"
    using assms(1,2) by (auto simp: page_aligned_unat mod_eq_0_iff_dvd elim!: dvdE)
  with assms(3) show ?thesis by simp
qed

declare freerange_loop.simps [simp del]

lemma freerange_loop_ok:
  assumes "kmem_ok s ps" and "page_aligned p" and "kend s \<le> p" and "p \<le> PHYSTOP"
    and "pa_end \<le> PHYSTOP" and "list_all (\<lambda>q. q < p) ps"
  shows "\<exists>s' qs. freerange_loop p pa_end s = Ok s' \<and> kmem_ok s' qs \<and> kend s' = kend s
    \<and> set qs = set ps \<union> {q. page_aligned q \<and> p \<le> q \<and> unat q + 4096 \<le> unat pa_end}"
  using assms
proof (induction p pa_end s arbitrary: ps rule: freerange_loop.induct)
  case (1 p pa_end s)
  note prems = "1.prems"
  have up: "unat (p + PGSIZE) = unat p + 4096"
    using prems(4) by (subst unat_add_small) (simp_all add: word_le_nat_alt)
  show ?case
  proof (cases "p + PGSIZE \<le> pa_end")
    case True
    then have le: "unat p + 4096 \<le> unat pa_end"
      using up by (simp add: word_le_nat_alt)
    then have "p < PHYSTOP"
      using prems(5) by (simp add: word_le_nat_alt word_less_nat_alt)
    then have kp: "kpage (kend s) p"
      using prems by (simp add: kpage_def)
    have notin: "p \<notin> set ps" using prems(6) by (auto simp: list_all_iff)
    obtain s1 where s1: "kfree p s = Ok s1" "kend s1 = kend s"
      using kp prems(1) by (simp add: kfree_eq kmem_ok_def)
    have "kmem_ok s1 (p # ps)"
      using prems(1) kp notin s1(1) by (rule kfree_ok)
    moreover have "page_aligned (p + PGSIZE)"
      using prems(2) up by (simp add: page_aligned_unat)
    moreover have "kend s1 \<le> p + PGSIZE" and "p + PGSIZE \<le> PHYSTOP"
      and "list_all (\<lambda>q. q < p + PGSIZE) (p # ps)"
      using prems le up s1 by (auto simp: word_le_nat_alt word_less_nat_alt list_all_iff)
    ultimately obtain s2 qs where s2: "freerange_loop (p + PGSIZE) pa_end s1 = Ok s2"
      "kmem_ok s2 qs" "kend s2 = kend s"
      "set qs = set (p # ps) \<union>
        {q. page_aligned q \<and> p + PGSIZE \<le> q \<and> unat q + 4096 \<le> unat pa_end}"
      using "1.IH" [OF True s1(1), of "p # ps"] prems(5) s1(2) by auto
    have "{q. page_aligned q \<and> p \<le> q \<and> unat q + 4096 \<le> unat pa_end} =
        insert p {q. page_aligned q \<and> p + PGSIZE \<le> q \<and> unat q + 4096 \<le> unat pa_end}"
      (is "?A = insert p ?B")
    proof (intro set_eqI iffI)
      fix q assume q: "q \<in> ?A"
      show "q \<in> insert p ?B"
      proof (cases "q = p")
        case False
        then have "unat p < unat q"
          using q by (metis (no_types, lifting) le_neq_implies_less mem_Collect_eq
              word_le_nat_alt word_unat_eq_iff)
        then have "unat p + 4096 \<le> unat q"
          using page_gap prems(2) q by blast
        with q up show ?thesis by (simp add: word_le_nat_alt)
      qed simp
    next
      fix q assume "q \<in> insert p ?B"
      then show "q \<in> ?A"
        using le prems(2) up by (auto simp: word_le_nat_alt)
    qed
    with s1 s2 True show ?thesis
      by (subst freerange_loop.simps) auto
  next
    case False
    then have "{q. page_aligned q \<and> p \<le> q \<and> unat q + 4096 \<le> unat pa_end} = {}"
      using up by (auto simp: word_le_nat_alt)
    with False prems show ?thesis
      by (subst freerange_loop.simps) auto
  qed
qed

lemma kinit_ok:
  assumes "KERNBASE \<le> kend s" and "kend s \<le> PHYSTOP" and "freelist s = 0" and "KmemLock \<notin> held s"
  shows "\<exists>s'. kinit s = Ok s' \<and> kmem_inv s' \<and> free_pages s' = kpages s'"
proof -
  let ?p = "PGROUNDUP (kend s)" and ?s = "lk_init KmemLock s"
  have up: "unat ?p = (unat (kend s) + 4095) div 4096 * 4096"
    using assms(2) by (subst unat_PGROUNDUP) (simp_all add: word_le_nat_alt)
  have "unat (kend s) \<le> unat ?p" unfolding up by linarith
  moreover have "unat ?p \<le> unat PHYSTOP" "unat ?p < unat (kend s) + 4096"
    unfolding up using assms(2) by (auto simp: word_le_nat_alt)
  moreover have al: "page_aligned ?p" unfolding page_aligned_unat up by simp
  ultimately have "\<exists>s' qs. freerange_loop ?p PHYSTOP ?s = Ok s' \<and> kmem_ok s' qs \<and> kend s' = kend ?s
    \<and> set qs = set [] \<union> {q. page_aligned q \<and> ?p \<le> q \<and> unat q + 4096 \<le> unat PHYSTOP}"
    using assms by (intro freerange_loop_ok) (auto simp: kmem_ok_def word_le_nat_alt lk_init_def)
  then obtain s' qs where s': "kinit s = Ok s'" "kmem_ok s' qs" "kend s' = kend s"
    "set qs = {q. page_aligned q \<and> ?p \<le> q \<and> unat q + 4096 \<le> unat PHYSTOP}"
    by (auto simp: kinit_def freerange_def Let_def lk_init_def)
  have "set qs = kpages s'"
    unfolding s'(4) kpages_def kpage_def s'(3)
  proof (intro Collect_cong iffI conjI; elim conjE)
    fix q assume q: "page_aligned q" "kend s \<le> q" "q < PHYSTOP"
    have "\<not> unat q < unat ?p"
      using page_gap [OF q(1) al] q(2) \<open>unat ?p < unat (kend s) + 4096\<close>
      by (auto simp: word_le_nat_alt)
    then show "?p \<le> q" by (simp add: word_le_nat_alt)
    have "page_aligned PHYSTOP" by (simp add: page_aligned_unat)
    from page_gap [OF q(1) this] q(3) show "unat q + 4096 \<le> unat PHYSTOP"
      by (simp add: word_less_nat_alt)
  next
    fix q assume q: "page_aligned q" "?p \<le> q" "unat q + 4096 \<le> unat PHYSTOP"
    then show "kend s \<le> q" "q < PHYSTOP"
      using \<open>unat (kend s) \<le> unat ?p\<close> by (simp_all add: word_le_nat_alt word_less_nat_alt)
  qed auto
  with s' show ?thesis by (auto simp: kmem_inv_def free_pages_ok)
qed

section \<open>A small machine\<close>

text \<open>
  A concrete state for the witnesses: six free pages from \<open>0x80100000\<close>, linked in order, in a
  memory that is otherwise zero.
\<close>

definition demo_pages :: "uint64 list" where
  "demo_pages = [0x80100000, 0x80101000, 0x80102000, 0x80103000, 0x80104000, 0x80105000]"

definition demo :: kmem where
  "demo = \<lparr>held = {},
     mem = store64 (store64 (store64 (store64 (store64 (\<lambda>_. 0) 0x80100000 0x80101000)
       0x80101000 0x80102000) 0x80102000 0x80103000) 0x80103000 0x80104000) 0x80104000 0x80105000,
     freelist = 0x80100000, kend = 0x80100000\<rparr>"

lemma load64_store64_far:
  assumes "8 \<le> unat (a - a')" and "8 \<le> unat (a' - a)"
  shows "load64 (store64 m a' v) a = load64 m a"
proof (rule load64_store64_other)
  fix b assume b: "in_range b a 8"
  show "\<not> in_range b a' 8"
  proof
    assume b': "in_range b a' 8"
    have "unat (b - a) < 8" "unat (b - a') < 8" using b b' by (simp_all add: in_range_def)
    moreover have "a - a' = (b - a') - (b - a)" "a' - a = (b - a) - (b - a')" by simp_all
    ultimately show False
      using assms unat_diff_small [of "b - a'" 8 "b - a" 8] by auto
  qed
qed

lemma load64_zero: "load64 (\<lambda>_. 0) a = 0"
proof -
  have "(\<lambda>_. 0) = fill (\<lambda>_. 0) a 0 8" by (auto simp: fill_def)
  then show ?thesis using load64_fill_0 [of a a 8 "\<lambda>_. 0"] by simp
qed

lemma demo_ok: "kmem_ok demo demo_pages"
  by (simp add: kmem_ok_def demo_def demo_pages_def kpage_def page_aligned_def
      load64_store64_far load64_zero)

lemma demo_inv: "kmem_inv demo" "free_pages demo = set demo_pages"
  using demo_ok by (auto simp: kmem_inv_def free_pages_ok)

section \<open>Properties\<close>

text \<open>
  C32: \<^verbatim>\<open>kinit\<close> returns with a well-formed free list that holds exactly the pages from the end of
  the kernel to \<^verbatim>\<open>PHYSTOP\<close>.
\<close>

theorem kinit_frees_all:
  assumes "KERNBASE \<le> kend s" and "kend s \<le> PHYSTOP" and "freelist s = 0" and "KmemLock \<notin> held s"
  shows "\<exists>s'. kinit s = Ok s' \<and> kmem_inv s' \<and> free_pages s' = kpages s'"
  by (rule kinit_ok [OF assms])

theorem kinit_frees_all_witness:
  "\<exists>s'. kinit \<lparr>held = {}, mem = (\<lambda>_. 0), freelist = 0, kend = 0x80021000\<rparr> = Ok s' \<and> kmem_inv s'"
  using kinit_frees_all [of "\<lparr>held = {}, mem = (\<lambda>_. 0), freelist = 0, kend = 0x80021000\<rparr>"] by auto

text \<open>
  C15: a page handed out by \<^verbatim>\<open>kalloc\<close> was free and is no longer, two pages handed out in a row
  differ, and freeing the page restores the set of free pages.
\<close>

theorem kalloc_kfree:
  assumes "kmem_inv s" and "kalloc s = Ok (p, s1)" and "p \<noteq> 0"
  shows "p \<in> free_pages s \<and> free_pages s1 = free_pages s - {p}
    \<and> (\<forall>q s2. kalloc s1 = Ok (q, s2) \<longrightarrow> q \<noteq> p)
    \<and> (\<exists>s2. kfree p s1 = Ok s2 \<and> kmem_inv s2 \<and> free_pages s2 = free_pages s)"
proof (intro conjI allI impI)
  show "p \<in> free_pages s" "free_pages s1 = free_pages s - {p}"
    using km.alloc_Ok [OF assms(1,2)] assms(3) by simp_all
  show "q \<noteq> p" if "kalloc s1 = Ok (q, s2)" for q s2
    using km.alloc_distinct [OF assms(1,2) that] assms(3) by auto
  show "\<exists>s2. kfree p s1 = Ok s2 \<and> kmem_inv s2 \<and> free_pages s2 = free_pages s"
    by (rule km.alloc_free [OF assms])
qed

theorem kalloc_kfree_witness:
  "\<exists>s1 s2. kalloc demo = Ok (0x80100000, s1) \<and> kfree 0x80100000 s1 = Ok s2
    \<and> free_pages s2 = set demo_pages"
proof -
  obtain s1 where s1: "kalloc demo = Ok (0x80100000, s1)"
    using kalloc_ok [OF demo_ok [unfolded demo_pages_def]] by blast
  from kalloc_kfree [OF demo_inv(1) s1] s1 demo_inv(2) show ?thesis by auto
qed

text \<open>
  C36: the limits of the allocator. \<^verbatim>\<open>kalloc\<close> always returns; its result is the null pointer exactly when no
  page is free, and otherwise the page returned is the only one that leaves the free list. \<^verbatim>\<open>kfree\<close> panics exactly
  on the addresses that are not pages between the end of the kernel and \<^verbatim>\<open>PHYSTOP\<close>. It does not notice a page
  that is free already: it returns, and the free list is no longer a list.
\<close>

theorem kalloc_kfree_errors:
  assumes "kmem_inv s"
  shows "(\<exists>r t. kalloc s = Ok (r, t) \<and> kmem_inv t \<and> (r = 0 \<longleftrightarrow> free_pages s = {}) \<and> free_pages t = free_pages s - {r})
    \<and> (case kfree pa s of
         Stop e \<Rightarrow> e = Panic ''kfree'' \<and> pa \<notin> kpages s
       | Ok u \<Rightarrow> pa \<in> kpages s \<and> (kmem_inv u \<longleftrightarrow> pa \<notin> free_pages s))"
proof
  obtain r t where r: "kalloc s = Ok (r, t)" "kmem_inv t" using km.alloc_returns [OF assms] by blast
  have "(r = 0 \<longleftrightarrow> free_pages s = {}) \<and> free_pages t = free_pages s - {r}"
  proof (cases "r = 0")
    case True
    then show ?thesis using km.alloc_Ok [OF assms r(1)] by simp
  next
    case False
    then have "r \<in> free_pages s" "free_pages t = free_pages s - {r}" using km.alloc_Ok [OF assms r(1)] by simp_all
    with False show ?thesis by blast
  qed
  with r show "\<exists>r t. kalloc s = Ok (r, t) \<and> kmem_inv t \<and> (r = 0 \<longleftrightarrow> free_pages s = {}) \<and> free_pages t = free_pages s - {r}"
    by blast
  obtain ps where ps: "kmem_ok s ps" using assms by (auto simp: kmem_inv_def)
  show "case kfree pa s of Stop e \<Rightarrow> e = Panic ''kfree'' \<and> pa \<notin> kpages s
    | Ok u \<Rightarrow> pa \<in> kpages s \<and> (kmem_inv u \<longleftrightarrow> pa \<notin> free_pages s)"
  proof (cases "pa \<in> kpages s")
    case True
    then show ?thesis using km.free_page [OF assms, of pa] kfree_twice [OF ps, of pa] free_pages_ok [OF ps]
      by (cases "pa \<in> free_pages s") auto
  next
    case False
    then show ?thesis by (simp add: kfree_Panic kpages_def)
  qed
qed

theorem kalloc_kfree_errors_witness:
  "kfree 0x80100001 demo = Stop (Panic ''kfree'') \<and> (\<exists>u. kfree 0x80101000 demo = Ok u \<and> \<not> kmem_inv u)"
proof
  have n: "0x80100001 \<notin> kpages demo" by (simp add: kpages_def kpage_def page_aligned_def)
  show "kfree 0x80100001 demo = Stop (Panic ''kfree'')"
    using conjunct2 [OF kalloc_kfree_errors [OF demo_inv(1), where pa = "0x80100001"]] n
    by (cases "kfree 0x80100001 demo") simp_all
  have f: "0x80101000 \<in> free_pages demo" by (simp add: demo_inv(2) demo_pages_def)
  then have "0x80101000 \<in> kpages demo" using km.avail_pages [OF demo_inv(1)] by blast
  with f show "\<exists>u. kfree 0x80101000 demo = Ok u \<and> \<not> kmem_inv u"
    using conjunct2 [OF kalloc_kfree_errors [OF demo_inv(1), where pa = "0x80101000"]]
    by (cases "kfree 0x80101000 demo") simp_all
qed

end
