(* ===== verification/Vm.thy ===== *)
theory Vm
  imports Kalloc
begin

text \<open>
  Page tables, \<^verbatim>\<open>kernel/vm.c\<close>. A page-table page is 4096 bytes of the byte memory, holding 512
  64-bit entries; every function of the source is translated with its loops as recursions.
  The specification reads a page table as a tree: \<open>tbl m a is\<close> is the table page reached from
  the root \<open>a\<close> along the indices \<open>is\<close>, and \<open>leafn m a i\<close> the level-0 entry of virtual page \<open>i\<close>.
\<close>

section \<open>The functions of vm.c\<close>

text \<open>The address of entry \<open>i\<close> of a table, \<^verbatim>\<open>&pagetable[i]\<close>.\<close>

definition pte_at :: "uint64 \<Rightarrow> uint64 \<Rightarrow> uint64" where
  "pte_at pagetable i = pagetable + 8 * i"

primrec walk_loop :: "nat \<Rightarrow> uint64 \<Rightarrow> uint64 \<Rightarrow> bool \<Rightarrow> 'a kmem_scheme \<Rightarrow> (uint64 \<times> 'a kmem_scheme) result" where
  "walk_loop 0 pagetable va alloc s = Ok (pte_at pagetable (PX 0 va), s)"
| "walk_loop (Suc level) pagetable va alloc s =
     (let pte = pte_at pagetable (PX (Suc level) va); e = load64 (mem s) pte
      in if e AND PTE_V \<noteq> 0 then walk_loop level (PTE2PA e) va alloc s
         else if \<not> alloc then Ok (0, s)
         else rbind (kalloc s) (\<lambda>(pagetable, s).
           if pagetable = 0 then Ok (0, s)
           else let s = s\<lparr>mem := memset (mem s) pagetable 0 4096\<rparr>;
                    s = s\<lparr>mem := store64 (mem s) pte (PA2PTE pagetable OR PTE_V)\<rparr>
                in walk_loop level pagetable va alloc s))"

definition walk :: "uint64 \<Rightarrow> uint64 \<Rightarrow> bool \<Rightarrow> 'a kmem_scheme \<Rightarrow> (uint64 \<times> 'a kmem_scheme) result" where
  "walk pagetable va alloc s =
     (if va \<ge> MAXVA then Stop (Panic ''walk'') else walk_loop 2 pagetable va alloc s)"

definition walkaddr :: "uint64 \<Rightarrow> uint64 \<Rightarrow> 'a kmem_scheme \<Rightarrow> uint64 result" where
  "walkaddr pagetable va s =
     (if va \<ge> MAXVA then Ok 0
      else rbind (walk pagetable va False s) (\<lambda>(pte, s).
        if pte = 0 then Ok 0
        else let e = load64 (mem s) pte
             in if e AND PTE_V = 0 then Ok 0
                else if e AND PTE_U = 0 then Ok 0
                else Ok (PTE2PA e)))"

lemma walk_bound: "walk pagetable va alloc s = Ok x \<Longrightarrow> unat va < 2 ^ 38"
  by (auto simp: walk_def MAXVA_eq word_le_nat_alt split: if_splits)

lemma next_page_less:
  "walk pagetable a alloc s = Ok x \<Longrightarrow> 2 ^ 64 - unat (a + PGSIZE) < 2 ^ 64 - unat a"
  using walk_bound [of pagetable a alloc s x] by (subst unat_add_small) simp_all

function mappages_loop :: "uint64 \<Rightarrow> uint64 \<Rightarrow> uint64 \<Rightarrow> uint64 \<Rightarrow> cint \<Rightarrow> 'a kmem_scheme
    \<Rightarrow> (cint \<times> 'a kmem_scheme) result" where
  "mappages_loop pagetable a last_a pa perm s =
     rbind (walk pagetable a True s) (\<lambda>(pte, s).
       if pte = 0 then Ok (-1, s)
       else if load64 (mem s) pte AND PTE_V \<noteq> 0 then Stop (Panic ''mappages: remap'')
       else let s = s\<lparr>mem := store64 (mem s) pte (PA2PTE pa OR scast perm OR PTE_V)\<rparr>
            in if a = last_a then Ok (0, s)
               else mappages_loop pagetable (a + PGSIZE) last_a (pa + PGSIZE) perm s)"
  by pat_completeness auto
termination
  by (relation "measure (\<lambda>(pagetable, a, last_a, pa, perm, s). 2 ^ 64 - unat a)")
    (use next_page_less in auto)

definition mappages :: "uint64 \<Rightarrow> uint64 \<Rightarrow> uint64 \<Rightarrow> uint64 \<Rightarrow> cint \<Rightarrow> 'a kmem_scheme
    \<Rightarrow> (cint \<times> 'a kmem_scheme) result" where
  "mappages pagetable va sz pa perm s =
     (if sz = 0 then Stop (Panic ''mappages: size'')
      else mappages_loop pagetable (PGROUNDDOWN va) (PGROUNDDOWN (va + sz - 1)) pa perm s)"

definition kvmmap :: "uint64 \<Rightarrow> uint64 \<Rightarrow> uint64 \<Rightarrow> uint64 \<Rightarrow> cint \<Rightarrow> 'a kmem_scheme
    \<Rightarrow> 'a kmem_scheme result" where
  "kvmmap kpgtbl va pa sz perm s =
     rbind (mappages kpgtbl va sz pa perm s) (\<lambda>(r, s).
       if r \<noteq> 0 then Stop (Panic ''kvmmap'') else Ok s)"

text \<open>The loop of \<^verbatim>\<open>proc_mapstacks\<close> in \<^verbatim>\<open>kernel/proc.c\<close>, over the process slots from \<open>i\<close>.\<close>

function proc_mapstacks_from :: "nat \<Rightarrow> uint64 \<Rightarrow> 'a kmem_scheme \<Rightarrow> 'a kmem_scheme result" where
  "proc_mapstacks_from i kpgtbl s =
     (if i < NPROC
      then rbind (kalloc s) (\<lambda>(pa, s).
           if pa = 0 then Stop (Panic ''kalloc'')
           else rbind (kvmmap kpgtbl (KSTACK i) pa PGSIZE (ucast (PTE_R OR PTE_W)) s)
             (proc_mapstacks_from (Suc i) kpgtbl))
      else Ok s)"
  by pat_completeness auto
termination
  by (relation "measure (\<lambda>(i, kpgtbl, s). NPROC - i)") auto

definition proc_mapstacks :: "uint64 \<Rightarrow> 'a kmem_scheme \<Rightarrow> 'a kmem_scheme result" where
  "proc_mapstacks kpgtbl s = proc_mapstacks_from 0 kpgtbl s"

text \<open>
  \<^verbatim>\<open>kvmmake\<close> takes the addresses of the linker symbols \<^verbatim>\<open>etext\<close> and \<^verbatim>\<open>trampoline\<close>. The result of
  \<^verbatim>\<open>kalloc\<close> is not checked: with no free page the memset is at address 0.
\<close>

definition kvmmake :: "uint64 \<Rightarrow> uint64 \<Rightarrow> 'a kmem_scheme \<Rightarrow> (uint64 \<times> 'a kmem_scheme) result" where
  "kvmmake etext trampoline s =
     rbind (kalloc s) (\<lambda>(kpgtbl, s).
     let s = s\<lparr>mem := memset (mem s) kpgtbl 0 4096\<rparr> in
     rbind (kvmmap kpgtbl UART0 UART0 PGSIZE (ucast (PTE_R OR PTE_W)) s) (\<lambda>s.
     rbind (kvmmap kpgtbl VIRTIO0 VIRTIO0 PGSIZE (ucast (PTE_R OR PTE_W)) s) (\<lambda>s.
     rbind (kvmmap kpgtbl PLIC PLIC 0x400000 (ucast (PTE_R OR PTE_W)) s) (\<lambda>s.
     rbind (kvmmap kpgtbl KERNBASE KERNBASE (etext - KERNBASE) (ucast (PTE_R OR PTE_X)) s) (\<lambda>s.
     rbind (kvmmap kpgtbl etext etext (PHYSTOP - etext) (ucast (PTE_R OR PTE_W)) s) (\<lambda>s.
     rbind (kvmmap kpgtbl TRAMPOLINE trampoline PGSIZE (ucast (PTE_R OR PTE_X)) s) (\<lambda>s.
     rbind (proc_mapstacks kpgtbl s) (\<lambda>s.
     Ok (kpgtbl, s)))))))))"

function uvmunmap_loop :: "uint64 \<Rightarrow> uint64 \<Rightarrow> uint64 \<Rightarrow> bool \<Rightarrow> 'a kmem_scheme \<Rightarrow> 'a kmem_scheme result" where
  "uvmunmap_loop pagetable a end_a do_free s =
     (if a < end_a
      then rbind (walk pagetable a False s) (\<lambda>(pte, s).
        if pte = 0 then Stop (Panic ''uvmunmap: walk'')
        else let e = load64 (mem s) pte
             in if e AND PTE_V = 0 then Stop (Panic ''uvmunmap: not mapped'')
                else if PTE_FLAGS e = PTE_V then Stop (Panic ''uvmunmap: not a leaf'')
                else rbind (if do_free then kfree (PTE2PA e) s else Ok s) (\<lambda>s.
                  uvmunmap_loop pagetable (a + PGSIZE) end_a do_free
                    (s\<lparr>mem := store64 (mem s) pte 0\<rparr>)))
      else Ok s)"
  by pat_completeness auto
termination
  by (relation "measure (\<lambda>(pagetable, a, end_a, do_free, s). 2 ^ 64 - unat a)")
    (use next_page_less in auto)

definition uvmunmap :: "uint64 \<Rightarrow> uint64 \<Rightarrow> uint64 \<Rightarrow> bool \<Rightarrow> 'a kmem_scheme \<Rightarrow> 'a kmem_scheme result" where
  "uvmunmap pagetable va npages do_free s =
     (if va mod PGSIZE \<noteq> 0 then Stop (Panic ''uvmunmap: not aligned'')
      else uvmunmap_loop pagetable va (va + npages * PGSIZE) do_free s)"

definition uvmcreate :: "'a kmem_scheme \<Rightarrow> (uint64 \<times> 'a kmem_scheme) result" where
  "uvmcreate s =
     rbind (kalloc s) (\<lambda>(pagetable, s).
       if pagetable = 0 then Ok (0, s)
       else Ok (pagetable, s\<lparr>mem := memset (mem s) pagetable 0 4096\<rparr>))"

definition uvmfirst :: "uint64 \<Rightarrow> uint64 \<Rightarrow> uint \<Rightarrow> 'a kmem_scheme \<Rightarrow> 'a kmem_scheme result" where
  "uvmfirst pagetable src sz s =
     (if ucast sz \<ge> PGSIZE then Stop (Panic ''uvmfirst: more than a page'')
      else rbind (kalloc s) (\<lambda>(pg, s).
        let s = s\<lparr>mem := memset (mem s) pg 0 4096\<rparr>
        in rbind (mappages pagetable 0 PGSIZE pg (ucast (PTE_W OR PTE_R OR PTE_X OR PTE_U)) s) (\<lambda>(_, s).
          Ok (s\<lparr>mem := memmove (mem s) pg src sz\<rparr>))))"

definition uvmdealloc :: "uint64 \<Rightarrow> uint64 \<Rightarrow> uint64 \<Rightarrow> 'a kmem_scheme \<Rightarrow> (uint64 \<times> 'a kmem_scheme) result" where
  "uvmdealloc pagetable oldsz newsz s =
     (if newsz \<ge> oldsz then Ok (oldsz, s)
      else rbind
        (if PGROUNDUP newsz < PGROUNDUP oldsz
         then let npages = ucast ((PGROUNDUP oldsz - PGROUNDUP newsz) div PGSIZE) :: cint
              in uvmunmap pagetable (PGROUNDUP newsz) (scast npages) True s
         else Ok s) (\<lambda>s.
        Ok (newsz, s)))"

lemma mappages_bound:
  assumes "mappages pagetable va PGSIZE pa perm s = Ok x"
  shows "unat (PGROUNDDOWN va) < 2 ^ 38"
  using assms walk_bound
  by (auto simp: mappages_def mappages_loop.simps [of _ "PGROUNDDOWN va"] rbind_Ok_iff)

lemma PGROUNDDOWN_bound:
  assumes "unat (PGROUNDDOWN a) < 2 ^ 38"
  shows "2 ^ 64 - unat (a + PGSIZE) < 2 ^ 64 - unat a"
proof -
  have "unat a mod 4096 < 4096" by simp
  then have "unat a < 2 ^ 38 + 4096"
    using assms by (simp only: unat_PGROUNDDOWN)
  then show ?thesis by (subst unat_add_small) simp_all
qed

function uvmalloc_loop :: "uint64 \<Rightarrow> uint64 \<Rightarrow> uint64 \<Rightarrow> uint64 \<Rightarrow> cint \<Rightarrow> 'a kmem_scheme
    \<Rightarrow> (uint64 \<times> 'a kmem_scheme) result" where
  "uvmalloc_loop pagetable oldsz a newsz xperm s =
     (if a < newsz
      then rbind (kalloc s) (\<lambda>(pg, s).
        if pg = 0
        then rbind (uvmdealloc pagetable a oldsz s) (\<lambda>(_, s). Ok (0, s))
        else let s = s\<lparr>mem := memset (mem s) pg 0 4096\<rparr>
             in rbind (mappages pagetable a PGSIZE pg (ucast (PTE_R OR PTE_U) OR xperm) s) (\<lambda>(r, s).
                if r \<noteq> 0
                then rbind (kfree pg s) (\<lambda>s.
                     rbind (uvmdealloc pagetable a oldsz s) (\<lambda>(_, s). Ok (0, s)))
                else uvmalloc_loop pagetable oldsz (a + PGSIZE) newsz xperm s))
      else Ok (newsz, s))"
  by pat_completeness auto
termination
  by (relation "measure (\<lambda>(pagetable, oldsz, a, newsz, xperm, s). 2 ^ 64 - unat a)")
    (auto dest!: mappages_bound PGROUNDDOWN_bound simp del: PGSIZE_def)

definition uvmalloc :: "uint64 \<Rightarrow> uint64 \<Rightarrow> uint64 \<Rightarrow> cint \<Rightarrow> 'a kmem_scheme
    \<Rightarrow> (uint64 \<times> 'a kmem_scheme) result" where
  "uvmalloc pagetable oldsz newsz xperm s =
     (if newsz < oldsz then Ok (oldsz, s)
      else uvmalloc_loop pagetable (PGROUNDUP oldsz) (PGROUNDUP oldsz) newsz xperm s)"

text \<open>
  One round of the loop of \<^verbatim>\<open>freewalk\<close>, with the recursive call as an argument. The recursion depth
  is the fuel; a Sv39 page table has three levels.
\<close>

definition freewalk_entry :: "(uint64 \<Rightarrow> 'a kmem_scheme \<Rightarrow> 'a kmem_scheme result) \<Rightarrow> uint64 \<Rightarrow> nat
    \<Rightarrow> 'a kmem_scheme \<Rightarrow> 'a kmem_scheme result" where
  "freewalk_entry recurse pagetable i s =
     (let pte = load64 (mem s) (pte_at pagetable (of_nat i))
      in if pte AND PTE_V \<noteq> 0 \<and> pte AND (PTE_R OR PTE_W OR PTE_X) = 0
         then rbind (recurse (PTE2PA pte) s) (\<lambda>s.
              Ok (s\<lparr>mem := store64 (mem s) (pte_at pagetable (of_nat i)) 0\<rparr>))
         else if pte AND PTE_V \<noteq> 0 then Stop (Panic ''freewalk: leaf'')
         else Ok s)"

primrec freewalk :: "nat \<Rightarrow> uint64 \<Rightarrow> 'a kmem_scheme \<Rightarrow> 'a kmem_scheme result" where
  "freewalk 0 pagetable s = Stop OutOfFuel"
| "freewalk (Suc fuel) pagetable s =
     rbind (for_each (freewalk_entry (freewalk fuel) pagetable) [0..<512] s) (kfree pagetable)"

definition uvmfree :: "uint64 \<Rightarrow> uint64 \<Rightarrow> 'a kmem_scheme \<Rightarrow> 'a kmem_scheme result" where
  "uvmfree pagetable sz s =
     rbind (if sz > 0 then uvmunmap pagetable 0 (PGROUNDUP sz div PGSIZE) True s else Ok s)
       (freewalk 3 pagetable)"

function uvmcopy_loop :: "uint64 \<Rightarrow> uint64 \<Rightarrow> uint64 \<Rightarrow> uint64 \<Rightarrow> 'a kmem_scheme
    \<Rightarrow> (cint \<times> 'a kmem_scheme) result" where
  "uvmcopy_loop old new i sz s =
     (if i < sz
      then rbind (walk old i False s) (\<lambda>(pte, s).
        if pte = 0 then Stop (Panic ''uvmcopy: pte should exist'')
        else let e = load64 (mem s) pte
             in if e AND PTE_V = 0 then Stop (Panic ''uvmcopy: page not present'')
                else rbind (kalloc s) (\<lambda>(pg, s).
                  if pg = 0
                  then rbind (uvmunmap new 0 (i div PGSIZE) True s) (\<lambda>s. Ok (-1, s))
                  else let s = s\<lparr>mem := memmove (mem s) pg (PTE2PA e) 4096\<rparr>
                       in rbind (mappages new i PGSIZE pg (ucast (PTE_FLAGS e)) s) (\<lambda>(r, s).
                          if r \<noteq> 0
                          then rbind (kfree pg s) (\<lambda>s.
                               rbind (uvmunmap new 0 (i div PGSIZE) True s) (\<lambda>s. Ok (-1, s)))
                          else uvmcopy_loop old new (i + PGSIZE) sz s)))
      else Ok (0, s))"
  by pat_completeness auto
termination
  by (relation "measure (\<lambda>(old, new, i, sz, s). 2 ^ 64 - unat i)")
    (auto dest!: next_page_less simp del: PGSIZE_def)

definition uvmcopy :: "uint64 \<Rightarrow> uint64 \<Rightarrow> uint64 \<Rightarrow> 'a kmem_scheme \<Rightarrow> (cint \<times> 'a kmem_scheme) result" where
  "uvmcopy old new sz s = uvmcopy_loop old new 0 sz s"

definition uvmclear :: "uint64 \<Rightarrow> uint64 \<Rightarrow> 'a kmem_scheme \<Rightarrow> 'a kmem_scheme result" where
  "uvmclear pagetable va s =
     rbind (walk pagetable va False s) (\<lambda>(pte, s).
       if pte = 0 then Stop (Panic ''uvmclear'')
       else Ok (s\<lparr>mem := store64 (mem s) pte (load64 (mem s) pte AND NOT PTE_U)\<rparr>))"

text \<open>The part of a transfer that lies on the page of \<open>va\<close>: \<^verbatim>\<open>n = PGSIZE - (va - va0)\<close>, at most \<open>len\<close>.\<close>

definition chunk :: "uint64 \<Rightarrow> uint64 \<Rightarrow> uint64" where
  "chunk va len = (let n = PGSIZE - (va - PGROUNDDOWN va) in if n > len then len else n)"

lemma unat_chunk: "unat (chunk va len) = min (unat len) (4096 - unat va mod 4096)"
proof -
  have "unat (PGSIZE - (va - PGROUNDDOWN va)) = 4096 - unat va mod 4096"
    using page_offset_less [of va] by (subst unat_sub) (simp_all add: word_le_nat_alt page_offset)
  then show ?thesis by (simp add: chunk_def Let_def word_less_nat_alt min_def not_less)
qed

lemma chunk_decreases: "0 < len \<Longrightarrow> unat (len - chunk va len) < unat len"
proof -
  assume "0 < len"
  then have "0 < unat len" by (simp add: word_less_nat_alt)
  moreover have "0 < unat (chunk va len)" and "chunk va len \<le> len"
    using \<open>0 < unat len\<close> by (simp_all add: unat_chunk word_le_nat_alt)
  ultimately show ?thesis by (simp add: unat_sub)
qed

function copyout :: "uint64 \<Rightarrow> uint64 \<Rightarrow> uint64 \<Rightarrow> uint64 \<Rightarrow> 'a kmem_scheme \<Rightarrow> (cint \<times> 'a kmem_scheme) result" where
  "copyout pagetable dstva src len s =
     (if len > 0
      then let va0 = PGROUNDDOWN dstva
           in rbind (walkaddr pagetable va0 s) (\<lambda>pa0.
              if pa0 = 0 then Ok (-1, s)
              else let n = chunk dstva len;
                       s = s\<lparr>mem := memmove (mem s) (pa0 + (dstva - va0)) src (ucast n)\<rparr>
                   in copyout pagetable (va0 + PGSIZE) (src + n) (len - n) s)
      else Ok (0, s))"
  by pat_completeness auto
termination
  by (relation "measure (\<lambda>(pagetable, dstva, src, len, s). unat len)") (auto intro: chunk_decreases)

function copyin :: "uint64 \<Rightarrow> uint64 \<Rightarrow> uint64 \<Rightarrow> uint64 \<Rightarrow> 'a kmem_scheme \<Rightarrow> (cint \<times> 'a kmem_scheme) result" where
  "copyin pagetable dst srcva len s =
     (if len > 0
      then let va0 = PGROUNDDOWN srcva
           in rbind (walkaddr pagetable va0 s) (\<lambda>pa0.
              if pa0 = 0 then Ok (-1, s)
              else let n = chunk srcva len;
                       s = s\<lparr>mem := memmove (mem s) dst (pa0 + (srcva - va0)) (ucast n)\<rparr>
                   in copyin pagetable (dst + n) (va0 + PGSIZE) (len - n) s)
      else Ok (0, s))"
  by pat_completeness auto
termination
  by (relation "measure (\<lambda>(pagetable, dst, srcva, len, s). unat len)") (auto intro: chunk_decreases)

text \<open>
  The inner loop of \<^verbatim>\<open>copyinstr\<close> yields the memory, \<^verbatim>\<open>dst\<close>, and whether it met the zero byte; when
  it did not, it ran \<open>n\<close> times, so that \<^verbatim>\<open>max\<close> fell by \<open>n\<close>.
\<close>

primrec copyinstr_page :: "nat \<Rightarrow> bytes \<Rightarrow> uint64 \<Rightarrow> uint64 \<Rightarrow> bytes \<times> uint64 \<times> bool" where
  "copyinstr_page 0 m p dst = (m, dst, False)"
| "copyinstr_page (Suc n) m p dst =
     (if m p = 0 then (m(dst := 0), dst, True)
      else copyinstr_page n (m(dst := m p)) (p + 1) (dst + 1))"

function copyinstr :: "uint64 \<Rightarrow> uint64 \<Rightarrow> uint64 \<Rightarrow> uint64 \<Rightarrow> 'a kmem_scheme \<Rightarrow> (cint \<times> 'a kmem_scheme) result" where
  "copyinstr pagetable dst srcva maxn s =
     (if maxn > 0
      then let va0 = PGROUNDDOWN srcva
           in rbind (walkaddr pagetable va0 s) (\<lambda>pa0.
              if pa0 = 0 then Ok (-1, s)
              else let n = chunk srcva maxn
                   in case copyinstr_page (unat n) (mem s) (pa0 + (srcva - va0)) dst of
                        (m, dst, got_null) \<Rightarrow>
                          if got_null then Ok (0, s\<lparr>mem := m\<rparr>)
                          else copyinstr pagetable dst (va0 + PGSIZE) (maxn - n) (s\<lparr>mem := m\<rparr>))
      else Ok (-1, s))"
  by pat_completeness auto
termination
  by (relation "measure (\<lambda>(pagetable, dst, srcva, maxn, s). unat maxn)") (auto intro: chunk_decreases)

end
