(* ===== verification/Vmtree.thy ===== *)
theory Vmtree
  imports Vm
begin

text \<open>
  Page tables as trees. \<open>tbl\<close> follows a path of indices through the table pages, \<open>leafn\<close> reads
  the level-0 entry of a virtual page. \<^verbatim>\<open>walk\<close> is shown to find, and with \<open>alloc\<close> to build, the
  path of its address, and \<^verbatim>\<open>mappages\<close> to change exactly the entries of its range.
\<close>

section \<open>Entries of a table\<close>

lemma unat_pte_off: "unat i < 512 \<Longrightarrow> unat (8 * i :: uint64) = 8 * unat i"
  by (simp add: unat_mult_lem unat_word_ariths(2))

lemma pte_at_range:
  assumes "unat i < 512" and "in_range b (pte_at a i) 8"
  shows "in_range b a 4096"
  by (rule in_range_sub [OF assms(2)]) (use assms(1) in \<open>simp add: pte_at_def unat_pte_off\<close>)

lemma pte_at_disjoint:
  assumes "unat i < 512" and "unat j < 512" and "i \<noteq> j" and "in_range b (pte_at a i) 8"
  shows "\<not> in_range b (pte_at a j) 8"
proof -
  have *: "unat (b - a) div 8 = unat k" if "unat k < 512" and "in_range b (pte_at a k) 8" for k
  proof -
    let ?o = "b - pte_at a k"
    have o: "unat ?o < 8" using that by (simp add: in_range_def)
    have "b - a = ?o + 8 * k" by (simp add: pte_at_def)
    then have "unat (b - a) = unat ?o + unat (8 * k)"
      using o that by (simp only:) (rule unat_add_small; simp add: unat_pte_off)
    then show ?thesis using o that by (simp add: unat_pte_off)
  qed
  from assms * [of i] * [of j] show ?thesis by (auto simp: word_unat_eq_iff)
qed

lemma load64_store64_entry:
  assumes "unat i < 512" and "unat j < 512" and "i \<noteq> j"
  shows "load64 (store64 m (pte_at a j) v) (pte_at a i) = load64 m (pte_at a i)"
  by (rule load64_store64_other) (use pte_at_disjoint assms in blast)

text \<open>Two memories agree on the page at \<open>p\<close>.\<close>

definition same_page :: "bytes \<Rightarrow> bytes \<Rightarrow> uint64 \<Rightarrow> bool" where
  "same_page m m' p \<longleftrightarrow> (\<forall>b. in_range b p 4096 \<longrightarrow> m' b = m b)"

lemma same_page_refl [simp]: "same_page m m p"
  by (simp add: same_page_def)

lemma same_page_trans: "same_page m m' p \<Longrightarrow> same_page m' m'' p \<Longrightarrow> same_page m m'' p"
  by (simp add: same_page_def)

lemma same_page_entry:
  "same_page m m' a \<Longrightarrow> unat i < 512 \<Longrightarrow> load64 m' (pte_at a i) = load64 m (pte_at a i)"
  by (rule load64_cong) (auto simp: same_page_def dest: pte_at_range)

lemma same_page_fill:
  "page_aligned p \<Longrightarrow> page_aligned q \<Longrightarrow> p \<noteq> q \<Longrightarrow> same_page m (fill m q c 4096) p"
  using pages_disjoint by (auto simp: same_page_def fill_def)

lemma same_page_store:
  "page_aligned p \<Longrightarrow> page_aligned q \<Longrightarrow> p \<noteq> q \<Longrightarrow> unat i < 512 \<Longrightarrow>
   same_page m (store64 m (pte_at q i) v) p"
  using pages_disjoint pte_at_range by (auto simp: same_page_def intro!: store64_outside)

lemma load64_store_pte:
  assumes "page_aligned b" and "page_aligned c" and "unat i < 512" and "unat k < 512"
  shows "load64 (store64 m (pte_at b i) v) (pte_at c k) =
    (if c = b \<and> k = i then v else load64 m (pte_at c k))"
proof (cases "c = b")
  case True
  then show ?thesis using load64_store64_entry [OF assms(4,3)] by (cases "k = i") simp_all
next
  case False
  then have "same_page m (store64 m (pte_at b i) v) c"
    using assms by (intro same_page_store)
  from same_page_entry [OF this assms(4)] False show ?thesis by simp
qed

lemma same_page_blit:
  "page_aligned p \<Longrightarrow> page_aligned q \<Longrightarrow> p \<noteq> q \<Longrightarrow> same_page m (blit m q src x 4096) p"
  using pages_disjoint by (auto simp: same_page_def blit_def)

lemma pte_valid: "(PA2PTE q OR PTE_V) AND PTE_V \<noteq> 0"
proof -
  have "bit ((PA2PTE q OR PTE_V) AND PTE_V) 0" by (simp add: bit_simps)
  then show ?thesis by (metis bit_0_eq bot_apply bot_bool_def)
qed

lemma pte_table_flags: "(PA2PTE q OR PTE_V) AND (PTE_R OR PTE_W OR PTE_X) = 0"
proof (rule bit_eqI)
  fix k assume "possible_bit TYPE(64 word) k"
  have "\<not> bit (14 :: uint64) k" if "k = 0 \<or> 10 \<le> k"
    using that small_bits [of "14 :: uint64" 10 k] by (elim disjE) simp_all
  moreover have "\<not> bit (PA2PTE q OR 1) k" if "k \<noteq> 0" "k < 10"
    using PA2PTE_or_bit [OF that(2), of q 1] that(1) by (simp only: bit_1_iff) simp
  ultimately have "\<not> (bit (PA2PTE q OR 1) k \<and> bit (14 :: uint64) k)" by linarith
  then show "bit ((PA2PTE q OR PTE_V) AND (PTE_R OR PTE_W OR PTE_X)) k = bit 0 k"
    by (simp add: bit_and_iff)
qed

section \<open>Paths\<close>

primrec tbl :: "bytes \<Rightarrow> uint64 \<Rightarrow> uint64 list \<Rightarrow> uint64 option" where
  "tbl m a [] = Some a"
| "tbl m a (i # is) =
     (let e = load64 m (pte_at a i)
      in if unat i < 512 \<and> e AND PTE_V \<noteq> 0 then tbl m (PTE2PA e) is else None)"

definition entry :: "bytes \<Rightarrow> uint64 \<Rightarrow> uint64 list \<Rightarrow> uint64 \<Rightarrow> uint64" where
  "entry m a is i = (case tbl m a is of None \<Rightarrow> 0 | Some b \<Rightarrow> load64 m (pte_at b i))"

definition path2 :: "nat \<Rightarrow> uint64" where "path2 n = of_nat (n div 262144)"
definition path1 :: "nat \<Rightarrow> uint64" where "path1 n = of_nat (n div 512 mod 512)"
definition path0 :: "nat \<Rightarrow> uint64" where "path0 n = of_nat (n mod 512)"

text \<open>The level-0 entry of virtual page \<open>n\<close>, 0 when the path to it does not exist.\<close>

definition leafn :: "bytes \<Rightarrow> uint64 \<Rightarrow> nat \<Rightarrow> uint64" where
  "leafn m a n = entry m a [path2 n, path1 n] (path0 n)"

text \<open>
  A tree has room for \<open>vpages\<close> pages; \<^verbatim>\<open>walk\<close> refuses addresses from \<^verbatim>\<open>MAXVA\<close> on, so only the
  first \<open>mpages\<close> of them are ever mapped.
\<close>

definition vpages :: nat where [simp]: "vpages = 2 ^ 27"

definition mpages :: nat where [simp]: "mpages = 2 ^ 26"

lemma mpages_vpages: "n < mpages \<Longrightarrow> n < vpages"
  by simp

definition tables :: "bytes \<Rightarrow> uint64 \<Rightarrow> uint64 set" where
  "tables m a = {b. \<exists>is. length is \<le> 2 \<and> tbl m a is = Some b}"

text \<open>
  A tree is well formed when every table is an aligned page reached along one path only, and
  the entries that point to tables carry none of the leaf permissions.
\<close>

definition tree_ok :: "bytes \<Rightarrow> uint64 \<Rightarrow> bool" where
  "tree_ok m a \<longleftrightarrow>
     (\<forall>is js b. length is \<le> 2 \<longrightarrow> length js \<le> 2 \<longrightarrow> tbl m a is = Some b \<longrightarrow> tbl m a js = Some b \<longrightarrow> is = js)
     \<and> (\<forall>b \<in> tables m a. page_aligned b)
     \<and> (\<forall>is i b. length is \<le> 1 \<longrightarrow> tbl m a is = Some b \<longrightarrow> unat i < 512 \<longrightarrow>
          load64 m (pte_at b i) AND PTE_V \<noteq> 0 \<longrightarrow> load64 m (pte_at b i) AND (PTE_R OR PTE_W OR PTE_X) = 0)"

declare tbl.simps(2) [simp del]

lemma unat_path:
  "n < 2 ^ 27 \<Longrightarrow> unat (path2 n) = n div 262144"
  "unat (path1 n) = n div 512 mod 512"
  "unat (path0 n) = n mod 512"
proof -
  show "unat (path2 n) = n div 262144" if "n < 2 ^ 27"
    unfolding path2_def by (rule unat_of_nat_small) (use that in simp)
  have "n div 512 mod 512 < 2 ^ 64" "n mod 512 < 2 ^ 64"
    by (rule less_trans [of _ 512]; simp)+
  then show "unat (path1 n) = n div 512 mod 512" "unat (path0 n) = n mod 512"
    unfolding path1_def path0_def by (auto intro!: unat_of_nat_small)
qed

lemma path_less [simp]:
  "n < 134217728 \<Longrightarrow> unat (path2 n) < 512" "unat (path1 n) < 512" "unat (path0 n) < 512"
  by (simp_all add: unat_path)

lemma path_inj:
  assumes "n < vpages" and "k < vpages"
    and "path2 n = path2 k" and "path1 n = path1 k" and "path0 n = path0 k"
  shows "n = k"
proof -
  have "n div 262144 = k div 262144" "n div 512 mod 512 = k div 512 mod 512" "n mod 512 = k mod 512"
    using assms unat_path [of n] unat_path [of k] by simp_all
  moreover have "x = x div 262144 * 262144 + x div 512 mod 512 * 512 + x mod 512" for x :: nat
  proof -
    have "x div 512 = x div 262144 * 512 + x div 512 mod 512"
      using div_mult_mod_eq [of "x div 512" 512] by (simp add: div_mult2_eq [symmetric])
    then show ?thesis using div_mult_mod_eq [of x 512] by linarith
  qed
  ultimately show ?thesis by metis
qed

lemma PX_path:
  assumes "va < MAXVA"
  shows "PX 2 va = path2 (unat va div 4096)" "PX 1 va = path1 (unat va div 4096)"
    "PX 0 va = path0 (unat va div 4096)"
proof -
  have "unat va < 2 ^ 38" using assms by (simp add: MAXVA_eq word_less_nat_alt)
  then have "unat va div 4096 < 2 ^ 26" by simp
  then show "PX 2 va = path2 (unat va div 4096)" "PX 1 va = path1 (unat va div 4096)"
    "PX 0 va = path0 (unat va div 4096)"
    by (simp_all add: word_unat_eq_iff unat_PX unat_path PXSHIFT_def div_mult2_eq [symmetric])
qed

lemma tbl_append: "tbl m a (is @ js) = (case tbl m a is of None \<Rightarrow> None | Some b \<Rightarrow> tbl m b js)"
  by (induction "is" arbitrary: a) (simp_all add: tbl.simps(2) Let_def)

lemma tbl_snoc:
  "tbl m a (is @ [i]) = (case tbl m a is of None \<Rightarrow> None | Some b \<Rightarrow>
     if unat i < 512 \<and> load64 m (pte_at b i) AND PTE_V \<noteq> 0
     then Some (PTE2PA (load64 m (pte_at b i))) else None)"
  by (simp add: tbl_append tbl.simps(2) Let_def split: option.split)

lemma tbl_index: "tbl m a is = Some b \<Longrightarrow> i \<in> set is \<Longrightarrow> unat i < 512"
  by (induction "is" arbitrary: a) (auto simp: tbl.simps(2) Let_def split: if_splits)

text \<open>A path is unchanged when the entries along it are.\<close>

lemma tbl_cong:
  assumes "\<And>js k b ks. is = js @ k # ks \<Longrightarrow> tbl m a js = Some b \<Longrightarrow> unat k < 512 \<Longrightarrow>
    load64 m' (pte_at b k) = load64 m (pte_at b k)"
  shows "tbl m' a is = tbl m a is"
  using assms
proof (induction "is" arbitrary: a)
  case (Cons i "is")
  show ?case
  proof (cases "unat i < 512")
    case True
    have e: "load64 m' (pte_at a i) = load64 m (pte_at a i)"
      using Cons.prems [of "[]" i "is" a] True by simp
    have "tbl m' (PTE2PA (load64 m (pte_at a i))) is = tbl m (PTE2PA (load64 m (pte_at a i))) is"
      if "load64 m (pte_at a i) AND PTE_V \<noteq> 0"
    proof (rule Cons.IH)
      fix js k b ks
      assume "is = js @ k # ks" "tbl m (PTE2PA (load64 m (pte_at a i))) js = Some b" "unat k < 512"
      then show "load64 m' (pte_at b k) = load64 m (pte_at b k)"
        using that True by (intro Cons.prems [of "i # js" k ks b]) (simp_all add: tbl.simps(2) Let_def)
    qed
    then show ?thesis using e by (simp add: tbl.simps(2) Let_def)
  qed (simp add: tbl.simps(2))
qed simp

lemma tbl_same:
  assumes "\<And>b. b \<in> tables m a \<Longrightarrow> same_page m m' b" and "length is \<le> 3"
  shows "tbl m' a is = tbl m a is"
proof (rule tbl_cong)
  fix js k b ks
  assume "is = js @ k # ks" "tbl m a js = Some b" "unat k < 512"
  moreover from this have "b \<in> tables m a"
    using assms(2) by (auto simp: tables_def intro!: exI [of _ js])
  ultimately show "load64 m' (pte_at b k) = load64 m (pte_at b k)"
    by (intro same_page_entry assms(1))
qed

lemma tables_same:
  assumes "\<And>b. b \<in> tables m a \<Longrightarrow> same_page m m' b"
  shows "tables m' a = tables m a"
proof -
  have "tbl m' a is = tbl m a is" if "length is \<le> 2" for "is"
    by (rule tbl_same [OF assms]) (use that in simp_all)
  then have "length is \<le> 2 \<and> tbl m' a is = Some b \<longleftrightarrow> length is \<le> 2 \<and> tbl m a is = Some b"
    for "is" b by auto
  then show ?thesis by (simp only: tables_def)
qed

lemma tbl_in_tables: "tbl m a is = Some b \<Longrightarrow> length is \<le> 2 \<Longrightarrow> b \<in> tables m a"
  by (auto simp: tables_def)

lemma tree_ok_same:
  assumes "\<And>b. b \<in> tables m a \<Longrightarrow> same_page m m' b" and "tree_ok m a"
  shows "tree_ok m' a"
proof -
  have "tbl m' a is = tbl m a is" if "length is \<le> 2" for "is"
    by (rule tbl_same [OF assms(1)]) (use that in simp_all)
  moreover have "load64 m' (pte_at b i) = load64 m (pte_at b i)"
    if "length is \<le> 1" "tbl m a is = Some b" "unat i < 512" for "is" b i
    using that assms(1) [of b] tbl_in_tables [of m a "is" b] by (intro same_page_entry) auto
  ultimately show ?thesis
    using assms(2) tables_same [OF assms(1)] unfolding tree_ok_def by auto
qed

lemma leafn_same:
  assumes "\<And>b. b \<in> tables m a \<Longrightarrow> same_page m m' b"
  shows "leafn m' a n = leafn m a n"
proof -
  have "tbl m' a [path2 n, path1 n] = tbl m a [path2 n, path1 n]"
    by (rule tbl_same [OF assms]) auto
  then show ?thesis
    using assms same_page_entry [of m m' _ "path0 n"] tbl_in_tables [of m a "[path2 n, path1 n]"]
    unfolding leafn_def entry_def by (auto split: option.split)
qed

lemma tree_inj:
  "tree_ok m a \<Longrightarrow> tbl m a is = Some b \<Longrightarrow> tbl m a js = Some b \<Longrightarrow> length is \<le> 2 \<Longrightarrow> length js \<le> 2 \<Longrightarrow> is = js"
  unfolding tree_ok_def by blast

lemma table_entry:
  "tree_ok m a \<Longrightarrow> tbl m a is = Some b \<Longrightarrow> length is \<le> 1 \<Longrightarrow> unat i < 512 \<Longrightarrow>
   load64 m (pte_at b i) AND PTE_V \<noteq> 0 \<Longrightarrow> load64 m (pte_at b i) AND (PTE_R OR PTE_W OR PTE_X) = 0"
  unfolding tree_ok_def by blast

lemma tables_aligned: "tree_ok m a \<Longrightarrow> b \<in> tables m a \<Longrightarrow> page_aligned b"
  unfolding tree_ok_def by blast

section \<open>Writing an entry\<close>

lemma tbl_store_other:
  assumes ok: "tree_ok m a" and b: "tbl m a p = Some b" "length p \<le> 2" and i: "unat i < 512"
    and js: "length js \<le> 2" "\<And>ks. js \<noteq> p @ i # ks"
  shows "tbl (store64 m (pte_at b i) v) a js = tbl m a js"
proof (rule tbl_cong)
  fix qs k c ks
  assume c: "js = qs @ k # ks" "tbl m a qs = Some c" "unat k < 512"
  have len: "length qs \<le> 2" using js(1) c(1) by simp
  show "load64 (store64 m (pte_at b i) v) (pte_at c k) = load64 m (pte_at c k)"
  proof (cases "c = b")
    case True
    then have "qs = p" using tree_inj [OF ok c(2) _ len b(2)] b(1) by simp
    with js(2) c(1) have "k \<noteq> i" by auto
    with True c(3) i show ?thesis by (simp add: load64_store64_entry)
  next
    case False
    have "page_aligned b" "page_aligned c"
      using tables_aligned [OF ok] tbl_in_tables b c(2) len by auto
    with False i have "same_page m (store64 m (pte_at b i) v) c"
      by (intro same_page_store) auto
    then show ?thesis using c(3) by (rule same_page_entry)
  qed
qed

lemma tbl_store_below:
  assumes ok: "tree_ok m a" and b: "tbl m a p = Some b" "length p \<le> 2" and i: "unat i < 512"
  shows "tbl (store64 m (pte_at b i) v) a (p @ i # ks) =
    (if v AND PTE_V \<noteq> 0 then tbl (store64 m (pte_at b i) v) (PTE2PA v) ks else None)"
proof -
  have "tbl (store64 m (pte_at b i) v) a p = Some b"
    using tbl_store_other [OF ok b i b(2)] b(1) by simp
  then show ?thesis using i by (simp add: tbl_append tbl.simps(2) Let_def)
qed

text \<open>Linking an empty page into the tree.\<close>

lemma tbl_grow:
  assumes ok: "tree_ok m a" and b: "tbl m a p = Some b" "length p \<le> 1" and i: "unat i < 512"
    and inv: "load64 m (pte_at b i) AND PTE_V = 0"
    and q: "page_aligned q" "q \<notin> tables m a" "\<And>k. unat k < 512 \<Longrightarrow> load64 m (pte_at q k) = 0"
    and js: "length js \<le> 2"
  shows "tbl (store64 m (pte_at b i) (PA2PTE q OR PTE_V)) a js =
    (if js = p @ [i] then Some q else tbl m a js)"
proof (cases "\<exists>ks. js = p @ i # ks")
  case True
  then obtain ks where ks: "js = p @ i # ks" by blast
  have v: "(PA2PTE q OR PTE_V) AND PTE_V \<noteq> 0" "PTE2PA (PA2PTE q OR PTE_V) = q"
    using q(1) by (simp_all add: pte_valid PTE2PA_PA2PTE)
  have b2: "b \<in> tables m a" using tbl_in_tables b by auto
  then have "same_page m (store64 m (pte_at b i) (PA2PTE q OR PTE_V)) q"
    using q tables_aligned [OF ok] i by (intro same_page_store) auto
  then have "load64 (store64 m (pte_at b i) (PA2PTE q OR PTE_V)) (pte_at q k) = 0"
    if "unat k < 512" for k
    using same_page_entry q(3) that by simp
  moreover have "tbl m a js = None" if "ks \<noteq> []"
    using inv b(1) i unfolding ks by (simp add: tbl_append tbl.simps(2))
  ultimately show ?thesis
    using tbl_store_below [OF ok b(1) _ i, of "PA2PTE q OR PTE_V" ks] b(2) v ks
    by (cases ks) (auto simp: tbl.simps(2) Let_def)
next
  case False
  then show ?thesis using tbl_store_other [OF ok b(1) _ i js] b(2) by auto
qed

lemma tree_grow:
  assumes ok: "tree_ok m a" and b: "tbl m a p = Some b" "length p \<le> 1" and i: "unat i < 512"
    and inv: "load64 m (pte_at b i) AND PTE_V = 0"
    and q: "page_aligned q" "q \<notin> tables m a" "\<And>k. unat k < 512 \<Longrightarrow> load64 m (pte_at q k) = 0"
  defines "m' \<equiv> store64 m (pte_at b i) (PA2PTE q OR PTE_V)"
  shows "tables m' a = insert q (tables m a)" "tree_ok m' a" "leafn m' a n = leafn m a n"
proof -
  have g: "tbl m' a js = (if js = p @ [i] then Some q else tbl m a js)" if "length js \<le> 2" for js
    unfolding m'_def by (rule tbl_grow) (use assms that in auto)
  have none: "tbl m a (p @ [i]) = None"
    using b(1) inv by (simp add: tbl_snoc)
  have len: "length (p @ [i]) \<le> 2" using b(2) by simp
  show tb: "tables m' a = insert q (tables m a)"
  proof (intro set_eqI iffI)
    fix x assume "x \<in> tables m' a"
    then show "x \<in> insert q (tables m a)"
      by (auto simp: tables_def g split: if_splits)
  next
    fix x assume "x \<in> insert q (tables m a)"
    moreover have "q \<in> tables m' a" using g [OF len] tbl_in_tables len by auto
    ultimately show "x \<in> tables m' a"
      using g none tbl_in_tables [of m' a] by (fastforce simp: tables_def)
  qed
  show "tree_ok m' a"
    unfolding tree_ok_def
  proof (intro conjI allI impI ballI)
    fix js ks c
    assume "length js \<le> 2" "length ks \<le> 2" "tbl m' a js = Some c" "tbl m' a ks = Some c"
    then show "js = ks"
      using tree_inj [OF ok] q(2) tbl_in_tables [of m a] by (auto simp: g split: if_splits)
  next
    fix c assume "c \<in> tables m' a"
    then show "page_aligned c" using tb q(1) tables_aligned [OF ok] by auto
  next
    fix js k c
    assume c: "length js \<le> 1" "tbl m' a js = Some c" "unat k < 512" "load64 m' (pte_at c k) AND PTE_V \<noteq> 0"
    have al: "page_aligned c" "page_aligned b"
      using c(1,2) b tb q(1) tables_aligned [OF ok] tbl_in_tables [of m' a js c] tbl_in_tables [of m a p b]
      by auto
    note e = load64_store_pte [OF al(2,1) i c(3), of m "PA2PTE q OR PTE_V", folded m'_def]
    show "load64 m' (pte_at c k) AND (PTE_R OR PTE_W OR PTE_X) = 0"
    proof (cases "c = b \<and> k = i")
      case True
      then have "load64 m' (pte_at c k) = PA2PTE q OR PTE_V" using e by simp
      then show ?thesis using pte_table_flags [of q] by simp
    next
      case False
      then have e': "load64 m' (pte_at c k) = load64 m (pte_at c k)" unfolding e by (rule if_not_P)
      then have "c \<noteq> q" using c(4) q(3) [OF c(3)] by auto
      then have "tbl m a js = Some c" using c(1,2) g [of js] by (simp split: if_splits)
      from table_entry [OF ok this c(1,3)] c(4) show ?thesis unfolding e' by blast
    qed
  qed
  have e: "load64 m' (pte_at c k) = load64 m (pte_at c k)"
    if "c = q \<or> (\<exists>js. length js = 2 \<and> tbl m a js = Some c)" "unat k < 512" for c k
  proof -
    have bt: "b \<in> tables m a" using b tbl_in_tables by auto
    have "c = q \<or> c \<in> tables m a" using that(1) by (auto simp: tables_def)
    then have "page_aligned c" "page_aligned b"
      using q(1) bt tables_aligned [OF ok] by auto
    moreover have "c \<noteq> b"
    proof
      assume "c = b"
      with that(1) q(2) bt obtain js where "length js = 2" "tbl m a js = Some b" by auto
      with tree_inj [OF ok b(1)] b(2) show False by auto
    qed
    ultimately show ?thesis unfolding m'_def
      by (intro same_page_entry same_page_store i that(2))
  qed
  show "leafn m' a n = leafn m a n"
  proof (cases "[path2 n, path1 n] = p @ [i]")
    case True
    then show ?thesis
      using g [OF len] none q(3) [of "path0 n"] e [of q "path0 n"]
      unfolding leafn_def entry_def True by simp
  next
    case False
    then have "tbl m' a [path2 n, path1 n] = tbl m a [path2 n, path1 n]"
      using g [of "[path2 n, path1 n]"] by auto
    moreover have "load64 m' (pte_at c (path0 n)) = load64 m (pte_at c (path0 n))"
      if "tbl m a [path2 n, path1 n] = Some c" for c
      by (rule e) (use that in \<open>auto intro!: exI [of _ "[path2 n, path1 n]"]\<close>)
    ultimately show ?thesis
      by (simp add: leafn_def entry_def split: option.split)
  qed
qed

lemma leafn_store:
  assumes ok: "tree_ok m a" and n: "n < vpages" "k < vpages"
    and b: "tbl m a [path2 n, path1 n] = Some b"
  shows "leafn (store64 m (pte_at b (path0 n)) v) a k = (if k = n then v else leafn m a k)"
    and "tables (store64 m (pte_at b (path0 n)) v) a = tables m a"
    and "tree_ok (store64 m (pte_at b (path0 n)) v) a"
proof -
  let ?m = "store64 m (pte_at b (path0 n)) v"
  have g: "tbl ?m a js = tbl m a js" if "length js \<le> 2" for js
  proof (rule tbl_store_other [OF ok b])
    show "js \<noteq> [path2 n, path1 n] @ path0 n # ks" for ks using that by auto
  qed (use that in simp_all)
  then show tb: "tables ?m a = tables m a"
    by (auto simp: tables_def)
  moreover have "load64 ?m (pte_at c i) = load64 m (pte_at c i)"
    if "length js \<le> 1" "tbl m a js = Some c" "unat i < 512" for js c i
  proof -
    have "page_aligned b" "page_aligned c"
      using tables_aligned [OF ok] tbl_in_tables [OF b] tbl_in_tables [OF that(2)] that(1) by auto
    moreover have "c \<noteq> b" using tree_inj [OF ok b, of js] that by auto
    ultimately show ?thesis using that(3) by (simp add: load64_store_pte)
  qed
  ultimately show "tree_ok ?m a"
    using ok g unfolding tree_ok_def by auto
  show "leafn ?m a k = (if k = n then v else leafn m a k)"
  proof (cases "tbl m a [path2 k, path1 k]")
    case None
    with b g [of "[path2 k, path1 k]"] show ?thesis
      by (auto simp: leafn_def entry_def)
  next
    case (Some c)
    show ?thesis
    proof (cases "c = b")
      case True
      then have "path2 n = path2 k" "path1 n = path1 k"
        using tree_inj [OF ok b, of "[path2 k, path1 k]"] Some by auto
      then have "k \<noteq> n \<Longrightarrow> path0 k \<noteq> path0 n"
        using path_inj [OF n] by auto
      then show ?thesis
        using Some True g [of "[path2 k, path1 k]"]
        by (auto simp: leafn_def entry_def load64_store64_entry)
    next
      case False
      then have "k \<noteq> n" using b Some by auto
      have "page_aligned b" "page_aligned c"
        using tables_aligned [OF ok] tbl_in_tables [OF b] tbl_in_tables [OF Some]
        by simp_all
      then have "load64 ?m (pte_at c (path0 k)) = load64 m (pte_at c (path0 k))"
        using False by (intro same_page_entry same_page_store) auto
      then show ?thesis
        using Some \<open>k \<noteq> n\<close> g [of "[path2 k, path1 k]"]
        by (simp add: leafn_def entry_def)
    qed
  qed
qed

section \<open>Page tables in the machine state\<close>

definition vm_inv :: "'a kmem_scheme \<Rightarrow> uint64 \<Rightarrow> bool" where
  "vm_inv s a \<longleftrightarrow> kmem_inv s \<and> tree_ok (mem s) a \<and> tables (mem s) a \<subseteq> kpages s - free_pages s"

text \<open>Only the memory and the head of the free list may differ.\<close>

definition same_rest :: "'a kmem_scheme \<Rightarrow> 'a kmem_scheme \<Rightarrow> bool" where
  "same_rest s s' \<longleftrightarrow> held s' = held s \<and> kend s' = kend s \<and> kmem.more s' = kmem.more s"

lemma same_rest_eq: "same_rest s s' \<Longrightarrow> s' = s\<lparr>mem := mem s', freelist := freelist s'\<rparr>"
  by (cases s; cases s') (simp add: same_rest_def)

lemma same_rest_trans: "same_rest s t \<Longrightarrow> same_rest t u \<Longrightarrow> same_rest s u"
  by (simp add: same_rest_def)

lemma same_rest_simps [simp]:
  "same_rest s s" "same_rest s (t\<lparr>mem := m\<rparr>) \<longleftrightarrow> same_rest s t"
  "same_rest s (t\<lparr>freelist := f\<rparr>) \<longleftrightarrow> same_rest s t"
  by (simp_all add: same_rest_def)

lemma same_rest_kpages: "same_rest s t \<Longrightarrow> kpages t = kpages s"
  by (simp add: same_rest_def kpages_def)

text \<open>
  In \<open>vm_step\<close>, table pages may have been taken from the free list and linked in, and every
  page that was neither a table of \<open>a\<close> nor free is intact; in \<open>vm_ext\<close> moreover no translation
  has changed.
\<close>

definition vm_step :: "uint64 \<Rightarrow> 'a kmem_scheme \<Rightarrow> 'a kmem_scheme \<Rightarrow> bool" where
  "vm_step a s s' \<longleftrightarrow> vm_inv s' a \<and> same_rest s s'
     \<and> tables (mem s) a \<subseteq> tables (mem s') a
     \<and> free_pages s = free_pages s' \<union> (tables (mem s') a - tables (mem s) a)
     \<and> (\<forall>p. page_aligned p \<longrightarrow> p \<notin> tables (mem s) a \<union> free_pages s \<longrightarrow> same_page (mem s) (mem s') p)"

definition vm_ext :: "uint64 \<Rightarrow> 'a kmem_scheme \<Rightarrow> 'a kmem_scheme \<Rightarrow> bool" where
  "vm_ext a s s' \<longleftrightarrow> vm_step a s s' \<and> (\<forall>n. leafn (mem s') a n = leafn (mem s) a n)"

lemma vm_step_refl: "vm_inv s a \<Longrightarrow> vm_step a s s"
  by (simp add: vm_step_def)

lemma vm_ext_refl: "vm_inv s a \<Longrightarrow> vm_ext a s s"
  by (simp add: vm_ext_def vm_step_refl)

lemma vm_step_trans:
  assumes "vm_step a s t" and "vm_step a t u"
  shows "vm_step a s u"
proof -
  have "same_page (mem s) (mem u) p"
    if "page_aligned p" "p \<notin> tables (mem s) a \<union> free_pages s" for p
  proof (rule same_page_trans)
    show "same_page (mem s) (mem t) p" using that assms(1) unfolding vm_step_def by blast
    have "p \<notin> tables (mem t) a \<union> free_pages t"
      using that assms(1) unfolding vm_step_def by blast
    then show "same_page (mem t) (mem u) p" using that assms(2) unfolding vm_step_def by blast
  qed
  then show ?thesis
    using assms same_rest_trans [of s t u] unfolding vm_step_def by auto
qed

lemma vm_ext_trans: "vm_ext a s t \<Longrightarrow> vm_ext a t u \<Longrightarrow> vm_ext a s u"
  using vm_step_trans by (auto simp: vm_ext_def)

text \<open>What the allocator's list depends on.\<close>

lemma kmem_frame:
  assumes "kmem_inv s" and "\<And>p. p \<in> free_pages s \<Longrightarrow> same_page (mem s) m' p"
  shows "kmem_inv (s\<lparr>mem := m'\<rparr>)" and "free_pages (s\<lparr>mem := m'\<rparr>) = free_pages s"
proof -
  obtain ps where ps: "kmem_ok s ps" using assms(1) by (auto simp: kmem_inv_def)
  have "run_list m' (freelist s) ps \<longleftrightarrow> run_list (mem s) (freelist s) ps"
  proof (rule run_list_frame)
    fix p b assume "p \<in> set ps" "in_range b p 8"
    with assms(2) [of p] ps show "m' b = mem s b"
      using in_range_mono [of b p 8 4096] by (auto simp: free_pages_ok same_page_def)
  qed
  then have "kmem_ok (s\<lparr>mem := m'\<rparr>) ps" using ps by (simp add: kmem_ok_def)
  with ps show "kmem_inv (s\<lparr>mem := m'\<rparr>)" "free_pages (s\<lparr>mem := m'\<rparr>) = free_pages s"
    by (auto simp: kmem_inv_def free_pages_ok)
qed

text \<open>Everything a client needs of a successful \<^verbatim>\<open>kalloc\<close>.\<close>

lemma kalloc_page:
  assumes "kmem_inv s" and "kalloc s = Ok (q, t)" and "q \<noteq> 0"
  shows "kmem_inv t" "mem t = fill (mem s) q 5 4096" "same_rest s t"
    "q \<in> free_pages s" "free_pages t = free_pages s - {q}" "kpages t = kpages s"
    "page_aligned q" "q \<in> kpages s"
proof -
  have "KmemLock \<notin> held s" using assms(1) by (auto simp: kmem_inv_def kmem_ok_def)
  with assms(2,3) show "mem t = fill (mem s) q 5 4096" "same_rest s t"
    by (auto simp: kalloc_eq split: if_splits)
  from km.alloc_Ok [OF assms(1,2)] assms(3)
  show "kmem_inv t" "q \<in> free_pages s" "free_pages t = free_pages s - {q}" "kpages t = kpages s"
    by simp_all
  with km.avail_pages [OF assms(1)] show "q \<in> kpages s" by auto
  then show "page_aligned q" by (simp add: kpages_def kpage_def)
qed

lemma kalloc_cases:
  assumes "kmem_inv s"
  obtains "kalloc s = Ok (0, s)" "free_pages s = {}" | q t where "kalloc s = Ok (q, t)" "q \<noteq> 0"
  using km.alloc_some [OF assms] km.alloc_none [OF assms] km.avail_pages [OF assms]
    km.null_not_page [OF assms] by (metis subset_eq)

lemma kpages_mem [simp]: "kpages (s\<lparr>mem := m\<rparr>) = kpages s" "kpages (s\<lparr>freelist := f\<rparr>) = kpages s"
  by (simp_all add: kpages_def)

lemma kpages_aligned: "p \<in> kpages s \<Longrightarrow> page_aligned p"
  by (simp add: kpages_def kpage_def)

section \<open>walk builds the path of its address\<close>

lemma vm_grow:
  assumes inv: "vm_inv s a" and b: "tbl (mem s) a p = Some b" "length p \<le> 1" and i: "unat i < 512"
    and invalid: "load64 (mem s) (pte_at b i) AND PTE_V = 0"
    and q: "kalloc s = Ok (q, t)" "q \<noteq> 0"
  defines "u \<equiv> t\<lparr>mem := store64 (fill (mem t) q 0 4096) (pte_at b i) (PA2PTE q OR PTE_V)\<rparr>"
  shows "vm_ext a s u" and "tbl (mem u) a (p @ [i]) = Some q"
proof -
  let ?m = "fill (mem t) q 0 4096"
  have k: "kmem_inv s" using inv by (simp add: vm_inv_def)
  note K = kalloc_page [OF k q]
  have ok: "tree_ok (mem s) a" and tb: "tables (mem s) a \<subseteq> kpages s - free_pages s"
    using inv by (simp_all add: vm_inv_def)
  have qn: "q \<notin> tables (mem s) a" using tb K(4) by auto
  have filled: "?m = fill (mem s) q 0 4096" using K(2) by (auto simp: fill_def)
  have same: "same_page (mem s) ?m c" if "page_aligned c" "c \<noteq> q" for c
    unfolding filled using that K(7) by (intro same_page_fill)
  then have sameT: "same_page (mem s) ?m c" if "c \<in> tables (mem s) a" for c
    using that qn tables_aligned [OF ok] by auto
  have ok': "tree_ok ?m a" and tb': "tables ?m a = tables (mem s) a"
    using tree_ok_same [OF sameT ok] tables_same [OF sameT] by auto
  have b': "tbl ?m a p = Some b"
    using b by (subst tbl_same [OF sameT]) auto
  have bt: "b \<in> tables (mem s) a" using b tbl_in_tables by auto
  have inv': "load64 ?m (pte_at b i) AND PTE_V = 0"
    using same_page_entry [OF sameT [OF bt] i] invalid by simp
  have zero: "load64 ?m (pte_at q j) = 0" if "unat j < 512" for j
    by (rule load64_fill_0) (use that in \<open>simp_all add: pte_at_def unat_pte_off\<close>)
  note G = tree_grow [OF ok' b' b(2) i inv' K(7), unfolded tb', OF qn zero]
  have bal: "page_aligned b" "b \<noteq> q" using bt qn tables_aligned [OF ok] by auto
  have sameU: "same_page (mem s) (mem u) c" if "page_aligned c" "c \<noteq> q" "c \<noteq> b" for c
    using same [OF that(1,2)] same_page_store [OF that(1) bal(1) that(3) i] same_page_trans
    unfolding u_def by auto
  have fr: "kmem_inv u" "free_pages u = free_pages s - {q}"
  proof -
    have "same_page (mem t) (mem u) c" if "c \<in> free_pages t" for c
    proof -
      have c: "page_aligned c" "c \<noteq> q" "c \<noteq> b"
        using that K(4,5) km.avail_pages [OF k] kpages_aligned [of c s] tb bt by auto
      have "same_page (mem t) ?m c" using same_page_fill [OF c(1) K(7) c(2)] .
      with c bal i show ?thesis unfolding u_def
        by (auto intro: same_page_trans same_page_store)
    qed
    with kmem_frame [OF K(1)] K(5) show "kmem_inv u" "free_pages u = free_pages s - {q}"
      unfolding u_def by auto
  qed
  show "vm_ext a s u"
    unfolding vm_ext_def vm_step_def vm_inv_def
  proof (intro conjI allI impI)
    show "same_rest s u" using K(3) by (simp add: u_def)
    show "tree_ok (mem u) a" "tables (mem u) a \<subseteq> kpages u - free_pages u"
      "tables (mem s) a \<subseteq> tables (mem u) a"
      "free_pages s = free_pages u \<union> (tables (mem u) a - tables (mem s) a)"
      using G fr K(4,6,8) tb qn by (auto simp: u_def)
    show "leafn (mem u) a n = leafn (mem s) a n" for n
      using G(3) leafn_same [OF sameT] by (simp add: u_def)
    show "same_page (mem s) (mem u) c"
      if "page_aligned c" "c \<notin> tables (mem s) a \<union> free_pages s" for c
      using that K(4) bt by (intro sameU) auto
  qed (rule fr)
  show "tbl (mem u) a (p @ [i]) = Some q"
    using tbl_grow [OF ok' b' b(2) i inv' K(7), unfolded tb', OF qn zero, of "p @ [i]"] b(2)
    by (simp add: u_def)
qed

text \<open>The indices \<^verbatim>\<open>walk\<close> has consumed before it looks at level \<open>l\<close>.\<close>

definition px_path :: "nat \<Rightarrow> uint64 \<Rightarrow> uint64 list" where
  "px_path l va = (if l = 0 then [PX 2 va, PX 1 va] else if l = 1 then [PX 2 va] else [])"

lemma px_path_Suc: "l < 2 \<Longrightarrow> px_path l va = px_path (Suc l) va @ [PX (Suc l) va]"
  by (cases "l = 1") (auto simp: px_path_def numeral_2_eq_2 less_Suc_eq)

lemma px_path_page:
  assumes "va < MAXVA"
  shows "px_path 0 va = [path2 (unat va div 4096), path1 (unat va div 4096)]"
  using PX_path [OF assms] by (simp add: px_path_def)

lemma walk_loop_lookup:
  assumes "l \<le> 2" and "tbl (mem s) a (px_path l va) = Some b"
  shows "walk_loop l b va False s =
    Ok (case tbl (mem s) a (px_path 0 va) of None \<Rightarrow> 0 | Some c \<Rightarrow> pte_at c (PX 0 va), s)"
  using assms
proof (induction l arbitrary: b)
  case (Suc l)
  let ?e = "load64 (mem s) (pte_at b (PX (Suc l) va))"
  have step: "tbl (mem s) a (px_path l va) = (if ?e AND PTE_V \<noteq> 0 then Some (PTE2PA ?e) else None)"
    using Suc.prems PX_less [of "Suc l" va] by (simp add: px_path_Suc tbl_snoc)
  show ?case
  proof (cases "?e AND PTE_V \<noteq> 0")
    case True
    then show ?thesis using Suc.IH [of "PTE2PA ?e"] Suc.prems step by (simp add: Let_def)
  next
    case False
    have "tbl (mem s) a (px_path 0 va) = None"
      using False step Suc.prems px_path_Suc [of 0 va]
      by (cases "l = 0") (simp_all add: tbl_snoc le_Suc_eq numeral_2_eq_2)
    with False show ?thesis by (simp add: Let_def)
  qed
qed simp

lemma walk_lookup:
  assumes "va < MAXVA"
  shows "walk a va False s =
    Ok (case tbl (mem s) a (px_path 0 va) of None \<Rightarrow> 0 | Some c \<Rightarrow> pte_at c (PX 0 va), s)"
  using walk_loop_lookup [of 2 s a va a] assms by (simp add: walk_def px_path_def)

lemma pte_nonzero:
  assumes "vm_inv s a" and "c \<in> tables (mem s) a" and "unat i < 512"
  shows "pte_at c i \<noteq> 0"
proof -
  have "kpage (kend s) c" "KERNBASE \<le> kend s"
    using assms(1,2) by (auto simp: vm_inv_def kmem_inv_def kmem_ok_def kpages_def)
  then have "2147483648 \<le> unat c" "unat c < 2281701376"
    by (auto simp: kpage_def word_le_nat_alt word_less_nat_alt)
  moreover from this have "unat (pte_at c i) = unat c + 8 * unat i"
    unfolding pte_at_def using assms(3)
    by (subst unat_add_small) (simp_all add: unat_pte_off)
  ultimately show ?thesis by (intro neq_via_unat) simp
qed

lemma walk_loop_alloc:
  assumes "l \<le> 2" and "vm_inv s a" and "tbl (mem s) a (px_path l va) = Some b"
  shows "\<exists>r s'. walk_loop l b va True s = Ok (r, s') \<and> vm_ext a s s' \<and>
    (r = 0 \<and> free_pages s' = {} \<or>
     (\<exists>c. tbl (mem s') a (px_path 0 va) = Some c \<and> r = pte_at c (PX 0 va)))"
  using assms
proof (induction l arbitrary: b s)
  case 0
  then show ?case by (auto intro: vm_ext_refl)
next
  case (Suc l)
  let ?e = "load64 (mem s) (pte_at b (PX (Suc l) va))" and ?p = "px_path (Suc l) va"
  have path: "px_path l va = ?p @ [PX (Suc l) va]" and len: "length ?p \<le> 1"
    using Suc.prems(1) by (simp_all add: px_path_Suc) (simp add: px_path_def)
  show ?case
  proof (cases "?e AND PTE_V \<noteq> 0")
    case True
    then have "tbl (mem s) a (px_path l va) = Some (PTE2PA ?e)"
      using Suc.prems path PX_less [of "Suc l" va] by (simp add: tbl_snoc)
    with Suc.IH [of s "PTE2PA ?e"] Suc.prems True show ?thesis by (simp add: Let_def)
  next
    case False
    have k: "kmem_inv s" using Suc.prems(2) by (simp add: vm_inv_def)
    then show ?thesis
    proof (cases rule: kalloc_cases)
      case 1
      with False Suc.prems show ?thesis by (auto simp: Let_def intro: vm_ext_refl)
    next
      case (2 q t)
      let ?u = "t\<lparr>mem := store64 (fill (mem t) q 0 4096) (pte_at b (PX (Suc l) va)) (PA2PTE q OR PTE_V)\<rparr>"
      have u: "vm_ext a s ?u" "tbl (mem ?u) a (px_path l va) = Some q"
        using vm_grow [OF Suc.prems(2,3) len PX_less _ 2] False path by simp_all
      then have "vm_inv ?u a" by (simp add: vm_ext_def vm_step_def)
      with Suc.IH [of ?u q] Suc.prems(1) u(2) obtain r s' where
        "walk_loop l q va True ?u = Ok (r, s')" and "vm_ext a ?u s'"
        and "r = 0 \<and> free_pages s' = {} \<or>
          (\<exists>c. tbl (mem s') a (px_path 0 va) = Some c \<and> r = pte_at c (PX 0 va))" by auto
      moreover from this u(1) have "vm_ext a s s'" by (auto intro: vm_ext_trans)
      ultimately show ?thesis using 2 False by (simp add: Let_def)
    qed
  qed
qed

text \<open>The outcome of \<^verbatim>\<open>walk\<close> with \<open>alloc\<close>: out of pages, or the address of the entry of page \<open>n\<close>.\<close>

lemma walk_alloc:
  assumes "vm_inv s a" and "unat va div 4096 = n" and "n < mpages"
  obtains s' where "walk a va True s = Ok (0, s')" "vm_ext a s s'" "free_pages s' = {}"
  | s' c where "walk a va True s = Ok (pte_at c (path0 n), s')" "vm_ext a s s'"
      "tbl (mem s') a [path2 n, path1 n] = Some c" "pte_at c (path0 n) \<noteq> 0"
proof -
  have va: "va < MAXVA"
    using assms(2,3) by (auto simp: MAXVA_eq word_less_nat_alt)
  have "tbl (mem s) a (px_path 2 va) = Some a" by (simp add: px_path_def)
  moreover have "walk a va True s = walk_loop 2 a va True s"
    using va by (auto simp: walk_def)
  ultimately obtain r s' where
    w: "walk a va True s = Ok (r, s')" "vm_ext a s s'"
      "r = 0 \<and> free_pages s' = {} \<or>
        (\<exists>c. tbl (mem s') a (px_path 0 va) = Some c \<and> r = pte_at c (PX 0 va))"
    using walk_loop_alloc [OF le_refl assms(1), of va a] by auto
  show ?thesis
  proof (cases "r = 0 \<and> free_pages s' = {}")
    case True
    show ?thesis by (rule that(1) [of s']) (use True w in simp_all)
  next
    case False
    with w(3) obtain c where c: "tbl (mem s') a (px_path 0 va) = Some c" "r = pte_at c (PX 0 va)"
      by blast
    have "c \<in> tables (mem s') a" using tbl_in_tables [OF c(1)] by (simp add: px_path_def)
    moreover have "vm_inv s' a" using w(2) by (simp add: vm_ext_def vm_step_def)
    ultimately have "pte_at c (path0 n) \<noteq> 0" by (intro pte_nonzero) auto
    with that(2) [of c s'] w c va PX_path [OF va] px_path_page [OF va] assms(2) show ?thesis by simp
  qed
qed

lemma walk_find:
  assumes "unat va div 4096 = n" and "n < mpages"
  shows "walk a va False s = Ok (case tbl (mem s) a [path2 n, path1 n] of
    None \<Rightarrow> 0 | Some c \<Rightarrow> pte_at c (path0 n), s)"
proof -
  have va: "va < MAXVA"
    using assms by (auto simp: MAXVA_eq word_less_nat_alt)
  show ?thesis
    unfolding walk_lookup [OF va, of a s] px_path_page [OF va] PX_path(3) [OF va] assms(1) ..
qed

text \<open>A valid leaf is found, at an address that is not null.\<close>

lemma walk_leaf:
  assumes "vm_inv s a" and "unat va div 4096 = n" and "n < mpages" and "leafn (mem s) a n \<noteq> 0"
  obtains c where "walk a va False s = Ok (pte_at c (path0 n), s)" "pte_at c (path0 n) \<noteq> 0"
    "tbl (mem s) a [path2 n, path1 n] = Some c" "load64 (mem s) (pte_at c (path0 n)) = leafn (mem s) a n"
    "c \<in> tables (mem s) a"
proof -
  obtain c where c: "tbl (mem s) a [path2 n, path1 n] = Some c"
    using assms(4) by (auto simp: leafn_def entry_def split: option.splits)
  moreover have "c \<in> tables (mem s) a" using tbl_in_tables [OF c] by simp
  moreover from this have "pte_at c (path0 n) \<noteq> 0" by (intro pte_nonzero [OF assms(1)]) auto
  ultimately show ?thesis
    using that walk_find [OF assms(2,3), of a s] by (simp add: leafn_def entry_def)
qed

end
