(* ===== verification/Uvm.thy ===== *)
theory Uvm
  imports Vmtree
begin

text \<open>
  What the address-space operations of \<^verbatim>\<open>kernel/vm.c\<close> do to the map from virtual pages to
  entries: \<^verbatim>\<open>mappages\<close> sets exactly the entries of its range, \<^verbatim>\<open>uvmunmap\<close> clears them and frees
  their pages, \<^verbatim>\<open>uvmalloc\<close>, \<^verbatim>\<open>uvmdealloc\<close> and \<^verbatim>\<open>uvmfree\<close> keep or dissolve the invariant of a user
  address space, and \<^verbatim>\<open>copyout\<close>/\<^verbatim>\<open>copyin\<close> read and write through it.
\<close>

declare mappages_loop.simps [simp del] uvmunmap_loop.simps [simp del] uvmalloc_loop.simps [simp del]
  uvmcopy_loop.simps [simp del] copyout.simps [simp del] copyin.simps [simp del]
  copyinstr.simps [simp del]

section \<open>mappages\<close>

lemma vm_store_leaf:
  fixes v :: uint64
  assumes "vm_inv s a" and "tbl (mem s) a [path2 n, path1 n] = Some c" and "n < vpages"
  defines "t \<equiv> s\<lparr>mem := store64 (mem s) (pte_at c (path0 n)) v\<rparr>"
  shows "vm_step a s t" and "k < vpages \<Longrightarrow> leafn (mem t) a k = (if k = n then v else leafn (mem s) a k)"
    and "tables (mem t) a = tables (mem s) a" and "free_pages t = free_pages s"
    and "p \<noteq> c \<Longrightarrow> page_aligned p \<Longrightarrow> same_page (mem s) (mem t) p"
proof -
  have ok: "tree_ok (mem s) a" and tb: "tables (mem s) a \<subseteq> kpages s - free_pages s" and k: "kmem_inv s"
    using assms(1) by (simp_all add: vm_inv_def)
  have c: "c \<in> tables (mem s) a" using tbl_in_tables [OF assms(2)] by simp
  show same: "same_page (mem s) (mem t) p" if "p \<noteq> c" "page_aligned p" for p
    using that tables_aligned [OF ok c] by (simp add: t_def same_page_store)
  have "same_page (mem s) (mem t) p" if "p \<in> free_pages s" for p
    using that tb c km.avail_pages [OF k] kpages_aligned [of p s] by (intro same) auto
  with kmem_frame [OF k] have k': "kmem_inv t" "free_pages t = free_pages s"
    by (simp_all add: t_def)
  then show "free_pages t = free_pages s" by simp
  show tt: "tables (mem t) a = tables (mem s) a"
    using leafn_store(2) [OF ok assms(3) assms(3) assms(2)] by (simp add: t_def)
  show "k < vpages \<Longrightarrow> leafn (mem t) a k = (if k = n then v else leafn (mem s) a k)"
    using leafn_store(1) [OF ok assms(3) _ assms(2)] by (simp add: t_def)
  have "tree_ok (mem t) a"
    using leafn_store(3) [OF ok assms(3) assms(3) assms(2)] by (simp add: t_def)
  moreover have "\<forall>p. page_aligned p \<longrightarrow> p \<notin> tables (mem s) a \<union> free_pages s \<longrightarrow> same_page (mem s) (mem t) p"
    by (intro allI impI same) (use c in auto)
  ultimately show "vm_step a s t"
    using k' tt tb by (simp add: vm_step_def vm_inv_def) (simp add: t_def)
qed

lemma mappages_loop_step:
  assumes "vm_inv s a" and "unat va div 4096 = n" and "n < mpages" and "leafn (mem s) a n AND PTE_V = 0"
  obtains t where "mappages_loop a va last_a pa perm s = Ok (-1, t)" "vm_ext a s t" "free_pages t = {}"
  | t where "mappages_loop a va last_a pa perm s =
        (if va = last_a then Ok (0, t) else mappages_loop a (va + PGSIZE) last_a (pa + PGSIZE) perm t)"
      "vm_step a s t"
      "\<And>k. k < vpages \<Longrightarrow> leafn (mem t) a k =
         (if k = n then PA2PTE pa OR scast perm OR PTE_V else leafn (mem s) a k)"
  using assms(1-3)
proof (cases rule: walk_alloc)
  case (1 s')
  then show ?thesis using that(1) by (simp add: mappages_loop.simps)
next
  case (2 s' c)
  let ?t = "s'\<lparr>mem := store64 (mem s') (pte_at c (path0 n)) (PA2PTE pa OR scast perm OR PTE_V)\<rparr>"
  have inv': "vm_inv s' a" and same: "leafn (mem s') a k = leafn (mem s) a k" for k
    using 2(2) by (simp_all add: vm_ext_def vm_step_def)
  have "load64 (mem s') (pte_at c (path0 n)) = leafn (mem s') a n"
    using 2(3) by (simp add: leafn_def entry_def)
  then have "load64 (mem s') (pte_at c (path0 n)) AND PTE_V = 0"
    using same assms(4) by simp
  with 2 have run: "mappages_loop a va last_a pa perm s =
      (if va = last_a then Ok (0, ?t) else mappages_loop a (va + PGSIZE) last_a (pa + PGSIZE) perm ?t)"
    by (subst mappages_loop.simps) (simp add: Let_def)
  note S = vm_store_leaf [OF inv' 2(3) mpages_vpages [OF assms(3)]]
  have "vm_step a s ?t"
    using 2(2) S(1) by (auto simp: vm_ext_def intro: vm_step_trans)
  with that(2) [OF run] S(2) same show ?thesis by simp
qed

lemma vpage_next: "unat va = 4096 * n \<Longrightarrow> n < mpages \<Longrightarrow> unat (va + PGSIZE) = 4096 * Suc n"
  by (subst unat_add_small) simp_all

lemma mappages_loop_ok:
  assumes "vm_inv s a" and "unat va = 4096 * n" and "unat last_a = 4096 * k" and "n \<le> k" and "k < mpages"
    and "\<And>i. n \<le> i \<Longrightarrow> i \<le> k \<Longrightarrow> leafn (mem s) a i AND PTE_V = 0"
  shows "\<exists>r t j. mappages_loop a va last_a pa perm s = Ok (r, t) \<and> vm_step a s t \<and>
    (r = 0 \<and> j = Suc k \<or> r = -1 \<and> n \<le> j \<and> j \<le> k \<and> free_pages t = {}) \<and>
    (\<forall>i<vpages. leafn (mem t) a i =
      (if n \<le> i \<and> i < j then PA2PTE (pa + 4096 * of_nat (i - n)) OR scast perm OR PTE_V
       else leafn (mem s) a i))"
  using assms
proof (induction "k - n" arbitrary: n va pa s)
  case 0
  then have "n = k" and va: "va = last_a" by (simp_all add: word_unat_eq_iff)
  have "unat va div 4096 = n" "n < mpages" "leafn (mem s) a n AND PTE_V = 0"
    using "0.prems" by auto
  with "0.prems"(1) show ?case
  proof (cases rule: mappages_loop_step [where last_a = last_a and pa = pa and perm = perm])
    case (1 t)
    then show ?thesis
      using \<open>n = k\<close> by (intro exI [of _ "-1"] exI [of _ t] exI [of _ n]) (auto simp: vm_ext_def)
  next
    case (2 t)
    then show ?thesis
      using va \<open>n = k\<close> by (intro exI [of _ 0] exI [of _ t] exI [of _ "Suc k"]) auto
  qed
next
  case (Suc d)
  have n: "n < k" "n < mpages" "Suc n \<le> k" and "d = k - Suc n" using Suc by linarith+
  have va: "va \<noteq> last_a" using Suc.prems n by (intro neq_via_unat) simp
  have "unat va div 4096 = n" "n < mpages" "leafn (mem s) a n AND PTE_V = 0"
    using Suc.prems n by auto
  with Suc.prems(1) show ?case
  proof (cases rule: mappages_loop_step [where last_a = last_a and pa = pa and perm = perm])
    case (1 t)
    then show ?thesis
      using n by (intro exI [of _ "-1"] exI [of _ t] exI [of _ n]) (auto simp: vm_ext_def)
  next
    case (2 t)
    have "vm_inv t a" using 2(2) by (simp add: vm_step_def)
    moreover have "leafn (mem t) a i AND PTE_V = 0" if "Suc n \<le> i" "i \<le> k" for i
      using that 2(3) [of i] Suc.prems by simp
    ultimately obtain r u j where u: "mappages_loop a (va + PGSIZE) last_a (pa + PGSIZE) perm t = Ok (r, u)"
      "vm_step a t u" "r = 0 \<and> j = Suc k \<or> r = -1 \<and> Suc n \<le> j \<and> j \<le> k \<and> free_pages u = {}"
      "\<forall>i<vpages. leafn (mem u) a i =
        (if Suc n \<le> i \<and> i < j then PA2PTE (pa + PGSIZE + 4096 * of_nat (i - Suc n)) OR scast perm OR PTE_V
         else leafn (mem t) a i)"
      using Suc.hyps(1) [OF \<open>d = k - Suc n\<close> _ vpage_next [OF Suc.prems(2) n(2)] Suc.prems(3) n(3) Suc.prems(5)]
      by blast
    have *: "pa + PGSIZE + 4096 * of_nat (i - Suc n) = pa + 4096 * of_nat (i - n)" if "Suc n \<le> i" for i
    proof -
      have "i - n = Suc (i - Suc n)" using that by simp
      then show ?thesis by (simp add: algebra_simps)
    qed
    have "leafn (mem u) a i =
        (if n \<le> i \<and> i < j then PA2PTE (pa + 4096 * of_nat (i - n)) OR scast perm OR PTE_V
         else leafn (mem s) a i)" if "i < vpages" for i
    proof -
      have "leafn (mem u) a i = (if Suc n \<le> i \<and> i < j
          then PA2PTE (pa + PGSIZE + 4096 * of_nat (i - Suc n)) OR scast perm OR PTE_V
          else leafn (mem t) a i)"
        using u(4) that by blast
      moreover have "n < j" using u(3) n(1) by auto
      ultimately show ?thesis
        using 2(3) [OF that] * [of i] by (cases i n rule: linorder_cases) simp_all
    qed
    moreover have "vm_step a s u" using 2(2) u(2) by (rule vm_step_trans)
    moreover have "mappages_loop a va last_a pa perm s = Ok (r, u)" using 2(1) va u(1) by simp
    ultimately show ?thesis
      using u(3) n(1) by (intro exI [of _ r] exI [of _ u] exI [of _ j]) auto
  qed
qed

lemma vpage_round:
  assumes "unat va = 4096 * n" and "n < mpages"
  shows "PGROUNDDOWN va = va" and "PGROUNDDOWN (va + PGSIZE - 1) = va"
proof -
  show "PGROUNDDOWN va = va" using assms by (simp add: page_aligned_unat)
  have "unat (va + 4095) = unat va + 4095"
    using assms by (subst unat_add_small) simp_all
  then have "unat (PGROUNDDOWN (va + 4095)) = unat va"
    using assms by (simp add: unat_PGROUNDDOWN)
  then show "PGROUNDDOWN (va + PGSIZE - 1) = va"
    by (simp add: word_unat_eq_iff add.commute)
qed

lemma mappages_page:
  assumes "vm_inv s a" and "unat va = 4096 * n" and "n < mpages" and "leafn (mem s) a n AND PTE_V = 0"
  obtains t where "mappages a va PGSIZE pa perm s = Ok (-1, t)" "vm_ext a s t"
  | t where "mappages a va PGSIZE pa perm s = Ok (0, t)" "vm_step a s t"
      "\<And>k. k < vpages \<Longrightarrow> leafn (mem t) a k =
         (if k = n then PA2PTE pa OR scast perm OR PTE_V else leafn (mem s) a k)"
proof -
  have *: "unat va div 4096 = n" using assms(2) by simp
  have "mappages a va PGSIZE pa perm s = mappages_loop a va va pa perm s"
    using vpage_round [OF assms(2,3)] by (simp add: mappages_def)
  with that mappages_loop_step [OF assms(1) * assms(3,4), of va pa perm] show ?thesis by metis
qed

section \<open>uvmunmap\<close>

text \<open>The physical page of virtual page \<open>i\<close>.\<close>

definition frame :: "bytes \<Rightarrow> uint64 \<Rightarrow> nat \<Rightarrow> uint64" where
  "frame m a i = PTE2PA (leafn m a i)"

text \<open>Table pages stay, the pages in \<open>F\<close> become free, and nothing else is written.\<close>

definition vm_unmap :: "uint64 \<Rightarrow> uint64 set \<Rightarrow> 'a kmem_scheme \<Rightarrow> 'a kmem_scheme \<Rightarrow> bool" where
  "vm_unmap a F s t \<longleftrightarrow> vm_inv t a \<and> same_rest s t \<and> tables (mem t) a = tables (mem s) a
     \<and> free_pages t = free_pages s \<union> F
     \<and> (\<forall>p. page_aligned p \<longrightarrow> p \<notin> tables (mem s) a \<union> F \<longrightarrow> same_page (mem s) (mem t) p)"

lemma vm_unmap_refl: "vm_inv s a \<Longrightarrow> vm_unmap a {} s s"
  by (simp add: vm_unmap_def)

lemma vm_unmap_trans:
  assumes "vm_unmap a F s t" and "vm_unmap a G t u"
  shows "vm_unmap a (F \<union> G) s u"
proof -
  have "same_page (mem s) (mem u) p"
    if "page_aligned p" "p \<notin> tables (mem s) a \<union> (F \<union> G)" for p
    using that assms same_page_trans [of "mem s" "mem t" p "mem u"] by (simp add: vm_unmap_def)
  with assms same_rest_trans [of s t u] show ?thesis
    by (simp add: vm_unmap_def Un_assoc)
qed

lemma kfree_page:
  assumes "kmem_inv s" and "q \<in> kpages s - free_pages s"
  obtains t where "kfree q s = Ok t" "kmem_inv t" "free_pages t = insert q (free_pages s)" "same_rest s t"
    "\<And>p. page_aligned p \<Longrightarrow> p \<noteq> q \<Longrightarrow> same_page (mem s) (mem t) p"
proof -
  obtain t where t: "kfree q s = Ok t" "kmem_inv t" "free_pages t = insert q (free_pages s)"
    using km.free_page [OF assms] by blast
  have "KmemLock \<notin> held s" using assms(1) by (auto simp: kmem_inv_def kmem_ok_def)
  then have eq: "t = s\<lparr>mem := store64 (fill (mem s) q 1 4096) q (freelist s), freelist := q\<rparr>"
    using t(1) assms(2) by (simp add: kfree_eq kpages_def)
  have q: "page_aligned q" using assms(2) kpages_aligned by auto
  have "same_page (mem s) (mem t) p" if "page_aligned p" "p \<noteq> q" for p
  proof (rule same_page_trans)
    show "same_page (mem s) (fill (mem s) q 1 4096) p" using that q by (intro same_page_fill)
    show "same_page (fill (mem s) q 1 4096) (mem t) p"
      using that q same_page_store [of p q 0] by (simp add: eq pte_at_def)
  qed
  with that t eq show ?thesis by (metis same_rest_simps)
qed

lemma vm_inv_frame:
  assumes "vm_inv s a" and "kmem_inv t" and "kpages t = kpages s"
    and "free_pages t \<inter> tables (mem s) a = {}"
    and "\<And>p. p \<in> tables (mem s) a \<Longrightarrow> same_page (mem s) (mem t) p"
  shows "vm_inv t a" "tables (mem t) a = tables (mem s) a" "leafn (mem t) a n = leafn (mem s) a n"
    "length is \<le> 2 \<Longrightarrow> tbl (mem t) a is = tbl (mem s) a is"
proof -
  show "tables (mem t) a = tables (mem s) a" by (rule tables_same) (rule assms(5))
  moreover have "tree_ok (mem t) a"
    by (rule tree_ok_same [of "mem s"]) (use assms in \<open>auto simp: vm_inv_def\<close>)
  ultimately show "vm_inv t a" using assms by (auto simp: vm_inv_def)
  show "leafn (mem t) a n = leafn (mem s) a n" by (rule leafn_same) (rule assms(5))
  show "length is \<le> 2 \<Longrightarrow> tbl (mem t) a is = tbl (mem s) a is"
    by (rule tbl_same) (use assms(5) in auto)
qed

lemma vm_free_frame:
  assumes "vm_inv s a" and "q \<in> kpages s - free_pages s - tables (mem s) a"
  obtains t where "kfree q s = Ok t" "vm_unmap a {q} s t" "\<And>n. leafn (mem t) a n = leafn (mem s) a n"
    "\<And>is. length is \<le> 2 \<Longrightarrow> tbl (mem t) a is = tbl (mem s) a is"
proof -
  have k: "kmem_inv s" "tree_ok (mem s) a" "tables (mem s) a \<inter> free_pages s = {}"
    using assms(1) by (auto simp: vm_inv_def)
  obtain t where t: "kfree q s = Ok t" "kmem_inv t" "free_pages t = insert q (free_pages s)" "same_rest s t"
    "\<And>p. page_aligned p \<Longrightarrow> p \<noteq> q \<Longrightarrow> same_page (mem s) (mem t) p"
    using kfree_page [OF k(1), of q] assms(2) by blast
  have same: "same_page (mem s) (mem t) p" if "p \<in> tables (mem s) a" for p
    using that t(5) assms(2) tables_aligned [OF k(2)] by auto
  have disj: "free_pages t \<inter> tables (mem s) a = {}"
    using t(3) k(3) assms(2) by auto
  note F = vm_inv_frame [OF assms(1) t(2) same_rest_kpages [OF t(4)] disj same]
  have "vm_unmap a {q} s t"
    using F(1,2) t by (simp add: vm_unmap_def)
  with that t(1) F(3,4) show ?thesis by blast
qed

lemma uvmunmap_loop_step:
  assumes inv: "vm_inv s a" and n: "unat va = 4096 * n" "n < mpages" and "va < end_a"
    and e: "leafn (mem s) a n AND PTE_V \<noteq> 0" "PTE_FLAGS (leafn (mem s) a n) \<noteq> PTE_V"
    and fr: "do_free \<Longrightarrow> frame (mem s) a n \<in> kpages s - free_pages s - tables (mem s) a"
  obtains t where "uvmunmap_loop a va end_a do_free s = uvmunmap_loop a (va + PGSIZE) end_a do_free t"
    "vm_unmap a (if do_free then {frame (mem s) a n} else {}) s t"
    "\<And>k. k < vpages \<Longrightarrow> leafn (mem t) a k = (if k = n then 0 else leafn (mem s) a k)"
proof -
  let ?F = "if do_free then {frame (mem s) a n} else {}"
  have div: "unat va div 4096 = n" and nz: "leafn (mem s) a n \<noteq> 0" using n e by auto
  obtain c where c: "walk a va False s = Ok (pte_at c (path0 n), s)" "pte_at c (path0 n) \<noteq> 0"
    "tbl (mem s) a [path2 n, path1 n] = Some c"
    "load64 (mem s) (pte_at c (path0 n)) = leafn (mem s) a n" "c \<in> tables (mem s) a"
    using walk_leaf [OF inv div n(2) nz] by blast
  obtain u where u: "(if do_free then kfree (frame (mem s) a n) s else Ok s) = Ok u" "vm_unmap a ?F s u"
    "\<And>n. leafn (mem u) a n = leafn (mem s) a n"
    "tbl (mem u) a [path2 n, path1 n] = Some c"
  proof (cases do_free)
    case True
    obtain u where "kfree (frame (mem s) a n) s = Ok u" "vm_unmap a {frame (mem s) a n} s u"
      "\<And>n. leafn (mem u) a n = leafn (mem s) a n"
      "\<And>is. length is \<le> 2 \<Longrightarrow> tbl (mem u) a is = tbl (mem s) a is"
      using vm_free_frame [OF inv fr [OF True]] by blast
    with that [of u] True c(3) show ?thesis by simp
  next
    case False
    with that [of s] inv c(3) show ?thesis by (simp add: vm_unmap_refl)
  qed
  let ?t = "u\<lparr>mem := store64 (mem u) (pte_at c (path0 n)) 0\<rparr>"
  have inv_u: "vm_inv u a" using u(2) by (simp add: vm_unmap_def)
  note S = vm_store_leaf [OF inv_u u(4) mpages_vpages [OF n(2)], where v = 0]
  have "uvmunmap_loop a va end_a do_free s = uvmunmap_loop a (va + PGSIZE) end_a do_free ?t"
    using c u(1) e assms(4)
    by (subst uvmunmap_loop.simps) (cases do_free; simp add: Let_def frame_def)
  moreover have "vm_unmap a {} u ?t"
    using S by (simp add: vm_unmap_def vm_step_def) (metis c(5) u(2) vm_unmap_def)
  from vm_unmap_trans [OF u(2) this] have "vm_unmap a ?F s ?t" by (simp only: Un_empty_right)
  ultimately show ?thesis
    by (rule that) (use S(2) u(3) in simp)
qed

lemma uvmunmap_loop_ok:
  assumes "vm_inv s a" and "unat va = 4096 * n" and "unat end_a = 4096 * k" and "n \<le> k" and "k \<le> mpages"
    and "\<And>i. n \<le> i \<Longrightarrow> i < k \<Longrightarrow> leafn (mem s) a i AND PTE_V \<noteq> 0 \<and> PTE_FLAGS (leafn (mem s) a i) \<noteq> PTE_V"
    and "\<And>i. do_free \<Longrightarrow> n \<le> i \<Longrightarrow> i < k \<Longrightarrow>
      frame (mem s) a i \<in> kpages s - free_pages s - tables (mem s) a"
    and "do_free \<Longrightarrow> inj_on (frame (mem s) a) {n..<k}"
  shows "\<exists>t. uvmunmap_loop a va end_a do_free s = Ok t
    \<and> vm_unmap a (if do_free then frame (mem s) a ` {n..<k} else {}) s t
    \<and> (\<forall>i<vpages. leafn (mem t) a i = (if n \<le> i \<and> i < k then 0 else leafn (mem s) a i))"
  using assms
proof (induction "k - n" arbitrary: n va s)
  case 0
  then have "uvmunmap_loop a va end_a do_free s = Ok s"
    by (subst uvmunmap_loop.simps) (simp add: word_less_nat_alt)
  with 0 show ?case by (auto intro: vm_unmap_refl)
next
  case (Suc d)
  have n: "n < k" "n < mpages" "Suc n \<le> k" "d = k - Suc n" using Suc by linarith+
  have lt: "va < end_a" using Suc.prems n by (simp add: word_less_nat_alt)
  obtain t where t: "uvmunmap_loop a va end_a do_free s = uvmunmap_loop a (va + PGSIZE) end_a do_free t"
    "vm_unmap a (if do_free then {frame (mem s) a n} else {}) s t"
    "\<And>k. k < vpages \<Longrightarrow> leafn (mem t) a k = (if k = n then 0 else leafn (mem s) a k)"
    using uvmunmap_loop_step [OF Suc.prems(1,2) n(2) lt, of do_free] Suc.prems(6,7) n by blast
  have leaf: "leafn (mem t) a i = leafn (mem s) a i" if "Suc n \<le> i" "i < k" for i
    using t(3) [of i] that Suc.prems(5) by simp
  then have fr: "frame (mem t) a i = frame (mem s) a i" if "Suc n \<le> i" "i < k" for i
    using that by (simp add: frame_def)
  have T: "vm_inv t a" "kpages t = kpages s" "tables (mem t) a = tables (mem s) a"
    "free_pages t = free_pages s \<union> (if do_free then {frame (mem s) a n} else {})"
    using t(2) same_rest_kpages [of s t] by (simp_all add: vm_unmap_def)
  have "\<exists>u. uvmunmap_loop a (va + PGSIZE) end_a do_free t = Ok u
    \<and> vm_unmap a (if do_free then frame (mem t) a ` {Suc n..<k} else {}) t u
    \<and> (\<forall>i<vpages. leafn (mem u) a i = (if Suc n \<le> i \<and> i < k then 0 else leafn (mem t) a i))"
  proof (rule Suc.hyps(1) [OF n(4) T(1) vpage_next [OF Suc.prems(2) n(2)] Suc.prems(3) n(3) Suc.prems(5)])
    fix i assume i: "Suc n \<le> i" "i < k"
    then show "leafn (mem t) a i AND PTE_V \<noteq> 0 \<and> PTE_FLAGS (leafn (mem t) a i) \<noteq> PTE_V"
      using leaf Suc.prems(6) [of i] by simp
    assume do_free
    then have "frame (mem s) a i \<noteq> frame (mem s) a n"
      using Suc.prems(8) i n(1) by (auto dest: inj_onD)
    with \<open>do_free\<close> show "frame (mem t) a i \<in> kpages t - free_pages t - tables (mem t) a"
      using fr [OF i] Suc.prems(7) [of i] T i by simp
  next
    assume do_free
    then have "inj_on (frame (mem s) a) {Suc n..<k}"
      using Suc.prems(8) by (auto intro: inj_on_subset)
    then show "inj_on (frame (mem t) a) {Suc n..<k}"
      using fr by (simp add: inj_on_def)
  qed
  then obtain u where u: "uvmunmap_loop a (va + PGSIZE) end_a do_free t = Ok u"
    "vm_unmap a (if do_free then frame (mem t) a ` {Suc n..<k} else {}) t u"
    "\<forall>i<vpages. leafn (mem u) a i = (if Suc n \<le> i \<and> i < k then 0 else leafn (mem t) a i)"
    by blast
  have img: "frame (mem s) a ` {n..<k} = insert (frame (mem s) a n) (frame (mem t) a ` {Suc n..<k})"
  proof -
    have "{n..<k} = insert n {Suc n..<k}" using n(1) by auto
    moreover have "frame (mem s) a ` {Suc n..<k} = frame (mem t) a ` {Suc n..<k}"
      by (rule image_cong) (use fr in auto)
    ultimately show ?thesis by simp
  qed
  have "vm_unmap a (if do_free then frame (mem s) a ` {n..<k} else {}) s u"
    using vm_unmap_trans [OF t(2) u(2)] unfolding img by (auto split: if_splits)
  moreover have "leafn (mem u) a i = (if n \<le> i \<and> i < k then 0 else leafn (mem s) a i)"
    if "i < vpages" for i
    using u(3) t(3) [OF that] that n(1) by (cases i n rule: linorder_cases) auto
  ultimately show ?case using t(1) u(1) by auto
qed

section \<open>User address spaces\<close>

text \<open>
  The first \<open>n\<close> pages are mapped, each to a page of its own; from \<open>n\<close> on at most the trap frame
  and the trampoline are mapped.
\<close>

definition utop :: nat where [simp]: "utop = 2 ^ 26 - 2"

text \<open>The pages of the trap frame and the trampoline.\<close>

definition trap_pages :: "nat set" where [simp]: "trap_pages = {utop, Suc utop}"

definition uspace :: "'a kmem_scheme \<Rightarrow> uint64 \<Rightarrow> nat \<Rightarrow> bool" where
  "uspace s a n \<longleftrightarrow> vm_inv s a \<and> n \<le> utop
     \<and> (\<forall>i<n. leafn (mem s) a i AND PTE_V \<noteq> 0 \<and> PTE_FLAGS (leafn (mem s) a i) \<noteq> PTE_V
          \<and> frame (mem s) a i \<in> kpages s - free_pages s - tables (mem s) a)
     \<and> inj_on (frame (mem s) a) {..<n}
     \<and> (\<forall>i. n \<le> i \<longrightarrow> i < vpages \<longrightarrow> i \<notin> trap_pages \<longrightarrow> leafn (mem s) a i AND PTE_V = 0)"

text \<open>The pages an address space owns: its tables and its frames.\<close>

definition owned :: "'a kmem_scheme \<Rightarrow> uint64 \<Rightarrow> nat \<Rightarrow> uint64 set" where
  "owned s a n = tables (mem s) a \<union> frame (mem s) a ` {..<n}"

text \<open>
  \<open>t\<close> agrees with \<open>s\<close> on the first \<open>n\<close> pages of the space, their content included, and on every
  page that is neither a table of the space nor free.
\<close>

definition uext :: "uint64 \<Rightarrow> nat \<Rightarrow> 'a kmem_scheme \<Rightarrow> 'a kmem_scheme \<Rightarrow> bool" where
  "uext a n s t \<longleftrightarrow> same_rest s t
     \<and> (\<forall>i<n. leafn (mem t) a i = leafn (mem s) a i)
     \<and> tables (mem s) a \<subseteq> tables (mem t) a
     \<and> tables (mem t) a \<union> free_pages t \<subseteq> tables (mem s) a \<union> free_pages s
     \<and> (\<forall>p. page_aligned p \<longrightarrow> p \<notin> tables (mem s) a \<union> free_pages s \<longrightarrow> same_page (mem s) (mem t) p)"

lemma uext_trans:
  assumes "uext a n s t" and "uext a n t u"
  shows "uext a n s u"
proof -
  have "same_page (mem s) (mem u) p"
    if "page_aligned p" "p \<notin> tables (mem s) a \<union> free_pages s" for p
  proof (rule same_page_trans)
    show "same_page (mem s) (mem t) p" using that assms(1) by (simp add: uext_def)
    have "p \<notin> tables (mem t) a \<union> free_pages t" using that assms(1) by (auto simp: uext_def)
    then show "same_page (mem t) (mem u) p" using that assms(2) by (simp add: uext_def)
  qed
  with assms same_rest_trans [of s t u] show ?thesis by (auto simp: uext_def)
qed

lemma uext_mono: "uext a n s t \<Longrightarrow> k \<le> n \<Longrightarrow> uext a k s t"
  by (simp add: uext_def)

lemma uext_refl: "uext a n s s"
  by (simp add: uext_def)

end
