(* ===== verification/Uspace.thy ===== *)
theory Uspace
  imports Uvm
begin

text \<open>
  The life of a user address space: \<^verbatim>\<open>uvmalloc\<close> and \<^verbatim>\<open>uvmcopy\<close> add a page at a time and give
  everything back when they run out of memory, \<^verbatim>\<open>uvmdealloc\<close> and \<^verbatim>\<open>uvmfree\<close> return the pages
  they drop. Every theorem accounts for all pages: what the space owned together with what was
  free is what it owns together with what is free afterwards.
\<close>

text \<open>A page count passes through a C \<^verbatim>\<open>int\<close> unchanged when it is small.\<close>

lemma int_roundtrip:
  fixes d :: uint64
  assumes "unat d < 2 ^ 31"
  shows "(scast (ucast d :: cint) :: uint64) = d"
proof (rule bit_eqI)
  fix k assume "possible_bit TYPE(64 word) k"
  then show "bit (scast (ucast d :: cint) :: uint64) k = bit d k"
    using small_bits [OF assms, of k] small_bits [OF assms, of 31]
    by (cases "k < 31") (auto simp: bit_simps min_def)
qed

section \<open>Adding one page\<close>

lemma uspace_keep:
  assumes "uspace s a n" and "vm_inv u a" and "same_rest s u"
    and "\<And>j. j < n \<Longrightarrow> leafn (mem u) a j = leafn (mem s) a j"
    and "\<And>j. n \<le> j \<Longrightarrow> j < vpages \<Longrightarrow> j \<notin> trap_pages \<Longrightarrow> leafn (mem u) a j AND PTE_V = 0"
    and "tables (mem u) a \<union> free_pages u \<subseteq> tables (mem s) a \<union> free_pages s"
  shows "uspace u a n"
proof -
  have fr: "frame (mem u) a j = frame (mem s) a j" if "j < n" for j
    using that assms(4) by (simp add: frame_def)
  have "inj_on (frame (mem u) a) {..<n}"
    using assms(1) fr unfolding uspace_def by (simp add: inj_on_def)
  moreover have "frame (mem u) a j \<in> kpages u - free_pages u - tables (mem u) a" if "j < n" for j
    using assms(1,6) fr [OF that] that same_rest_kpages [OF assms(3)]
    by (auto simp: uspace_def)
  ultimately show ?thesis
    using assms by (simp add: uspace_def)
qed

lemma uspace_add:
  assumes s: "uspace s a n" "n < utop" and u: "vm_inv u a" "same_rest s u"
    and leaf: "\<And>j. j < vpages \<Longrightarrow> leafn (mem u) a j = (if j = n then e else leafn (mem s) a j)"
    and e: "e AND PTE_V \<noteq> 0" "PTE_FLAGS e \<noteq> PTE_V"
    and q: "PTE2PA e \<in> free_pages s" "PTE2PA e \<notin> tables (mem u) a \<union> free_pages u"
    and sub: "tables (mem u) a \<union> free_pages u \<subseteq> tables (mem s) a \<union> free_pages s"
  shows "uspace u a (Suc n)"
proof -
  have S: "\<And>j. j < n \<Longrightarrow> frame (mem s) a j \<in> kpages s - free_pages s - tables (mem s) a"
    "inj_on (frame (mem s) a) {..<n}" "kmem_inv s"
    using s(1) by (simp_all add: uspace_def vm_inv_def)
  have frn: "frame (mem u) a n = PTE2PA e"
    using leaf s(2) by (simp add: frame_def)
  have fr: "frame (mem u) a j = frame (mem s) a j" if "j < n" for j
    using leaf that s(2) by (simp add: frame_def)
  have "inj_on (frame (mem u) a) {..<n}"
    using S(2) fr by (simp add: inj_on_def)
  moreover have "frame (mem u) a n \<notin> frame (mem u) a ` {..<n}"
    using S(1) fr frn q(1) by force
  ultimately have "inj_on (frame (mem u) a) {..<Suc n}"
    by (simp add: lessThan_Suc)
  moreover have "frame (mem u) a j \<in> kpages u - free_pages u - tables (mem u) a" if "j < Suc n" for j
  proof (cases "j = n")
    case True
    then show ?thesis
      using frn q km.avail_pages [OF S(3)] same_rest_kpages [OF u(2)] by auto
  next
    case False
    then show ?thesis using that S(1) [of j] fr [of j] sub same_rest_kpages [OF u(2)] by auto
  qed
  moreover have "leafn (mem u) a j AND PTE_V \<noteq> 0 \<and> PTE_FLAGS (leafn (mem u) a j) \<noteq> PTE_V" if "j < Suc n" for j
    using that s leaf [of j] e by (cases "j = n") (simp_all add: uspace_def)
  moreover have "leafn (mem u) a j AND PTE_V = 0" if "Suc n \<le> j" "j < vpages" "j \<notin> trap_pages" for j
    using that s(1) leaf [of j] by (simp add: uspace_def)
  ultimately show ?thesis
    using s(2) u(1) unfolding uspace_def by (metis Suc_leI)
qed

text \<open>The state after \<^verbatim>\<open>kalloc\<close> and the initialisation of the new page.\<close>

lemma user_page_init:
  assumes us: "uspace s a n" and q: "kalloc s = Ok (q, s1)" "q \<noteq> 0"
    and m2: "\<forall>p. page_aligned p \<longrightarrow> p \<noteq> q \<longrightarrow> same_page (mem s1) m2 p"
  defines "s2 \<equiv> s1\<lparr>mem := m2\<rparr>"
  shows "vm_inv s2 a" "same_rest s s2" "tables (mem s2) a = tables (mem s) a"
    "free_pages s2 = free_pages s - {q}" "leafn (mem s2) a j = leafn (mem s) a j"
    "page_aligned p \<Longrightarrow> p \<noteq> q \<Longrightarrow> same_page (mem s) (mem s2) p"
    "q \<in> free_pages s" "q \<in> kpages s" "q \<notin> tables (mem s) a" "page_aligned q"
proof -
  have inv: "vm_inv s a" and k: "kmem_inv s" using us by (simp_all add: uspace_def vm_inv_def)
  note K = kalloc_page [OF k q]
  show "q \<in> free_pages s" "q \<in> kpages s" "page_aligned q" by (fact K)+
  show qt: "q \<notin> tables (mem s) a" using inv K(4) by (auto simp: vm_inv_def)
  have al: "page_aligned p" if "p \<in> free_pages s" for p
    using that km.avail_pages [OF k] kpages_aligned by blast
  have same1: "same_page (mem s) (mem s1) p" if "page_aligned p" "p \<noteq> q" for p
    unfolding K(2) using that K(7) by (intro same_page_fill)
  show same: "same_page (mem s) (mem s2) p" if "page_aligned p" "p \<noteq> q" for p
    using same_page_trans [OF same1 [OF that]] m2 that by (simp add: s2_def)
  have "same_page (mem s1) m2 p" if "p \<in> free_pages s1" for p
    using that K(5) al m2 by auto
  from kmem_frame [OF K(1) this] K(5)
  have k2: "kmem_inv s2" and f2: "free_pages s2 = free_pages s - {q}"
    by (simp_all add: s2_def)
  then show "free_pages s2 = free_pages s - {q}" by simp
  show r: "same_rest s s2" using K(3) by (simp add: s2_def)
  have "same_page (mem s) (mem s2) p" if "p \<in> tables (mem s) a" for p
    using that same qt inv tables_aligned [of "mem s" a p] by (auto simp: vm_inv_def)
  moreover have "free_pages s2 \<inter> tables (mem s) a = {}"
    using f2 inv by (auto simp: vm_inv_def)
  ultimately show "vm_inv s2 a" "tables (mem s2) a = tables (mem s) a"
    "leafn (mem s2) a j = leafn (mem s) a j"
    using vm_inv_frame [OF inv k2 same_rest_kpages [OF r]] by auto
qed

lemma pte_perm:
  fixes f :: uint64
  assumes "page_aligned q" and "unat f < 2 ^ 10" and "f OR PTE_V \<noteq> PTE_V"
  shows "(PA2PTE q OR f OR PTE_V) AND PTE_V \<noteq> 0" "PTE_FLAGS (PA2PTE q OR f OR PTE_V) = f OR PTE_V"
    "PTE2PA (PA2PTE q OR f OR PTE_V) = q"
proof -
  have "bit ((PA2PTE q OR f OR PTE_V) AND PTE_V) 0" by (simp add: bit_simps)
  then show "(PA2PTE q OR f OR PTE_V) AND PTE_V \<noteq> 0" by (metis bit_0_eq bot_apply bot_bool_def)
  have "f OR PTE_V = take_bit 10 (f OR PTE_V)"
    using small_bits [OF assms(2)] by (intro bit_eqI) (auto simp: bit_simps not_le [symmetric])
  then have "unat (f OR PTE_V) < 2 ^ 10"
    by (metis take_bit_nat_less_exp unsigned_take_bit_eq)
  then show "PTE_FLAGS (PA2PTE q OR f OR PTE_V) = f OR PTE_V" "PTE2PA (PA2PTE q OR f OR PTE_V) = q"
    using PTE_FLAGS_PA2PTE PTE2PA_PA2PTE assms(1) by blast+
qed

lemma user_map_page:
  assumes us: "uspace s a n" and n: "n < utop" "unat va = 4096 * n"
    and q: "kalloc s = Ok (q, s1)" "q \<noteq> 0"
    and m2: "\<forall>p. page_aligned p \<longrightarrow> p \<noteq> q \<longrightarrow> same_page (mem s1) m2 p"
    and perm: "unat (scast perm :: uint64) < 2 ^ 10" "scast perm OR PTE_V \<noteq> PTE_V"
  obtains t u where "mappages a va PGSIZE q perm (s1\<lparr>mem := m2\<rparr>) = Ok (-1, t)" "kfree q t = Ok u"
      "uspace u a n" "uext a n s u" "owned u a n \<union> free_pages u = owned s a n \<union> free_pages s"
  | t where "mappages a va PGSIZE q perm (s1\<lparr>mem := m2\<rparr>) = Ok (0, t)"
      "uspace t a (Suc n)" "uext a n s t" "leafn (mem t) a n = PA2PTE q OR scast perm OR PTE_V"
      "same_page m2 (mem t) q" "owned t a (Suc n) \<union> free_pages t = owned s a n \<union> free_pages s"
proof -
  let ?s2 = "s1\<lparr>mem := m2\<rparr>"
  note I = user_page_init [OF us q m2]
  have nv: "n < mpages" using n(1) by simp
  have empty: "leafn (mem ?s2) a n AND PTE_V = 0"
    using us n(1) I(5) by (simp add: uspace_def)
  have unm: "\<And>j. n \<le> j \<Longrightarrow> j < vpages \<Longrightarrow> j \<notin> trap_pages \<Longrightarrow> leafn (mem s) a j AND PTE_V = 0"
    using us by (simp add: uspace_def)
  from I(1) n(2) nv empty show ?thesis
  proof (cases rule: mappages_page [where pa = q and perm = perm])
    case (1 t)
    have T: "vm_inv t a" "same_rest ?s2 t" "tables (mem s) a \<subseteq> tables (mem t) a"
      "free_pages s - {q} = free_pages t \<union> (tables (mem t) a - tables (mem s) a)"
      "\<And>j. leafn (mem t) a j = leafn (mem s) a j"
      "\<And>p. page_aligned p \<Longrightarrow> p \<notin> tables (mem s) a \<union> (free_pages s - {q}) \<Longrightarrow> same_page m2 (mem t) p"
      using 1(2) I(3-5) by (simp_all add: vm_ext_def vm_step_def)
    have rt: "same_rest s t" using I(2) T(2) by (rule same_rest_trans)
    have "q \<in> kpages t - free_pages t - tables (mem t) a"
      using I(7-9) T(4) same_rest_kpages [OF rt] by auto
    then obtain u where u: "kfree q t = Ok u" "vm_unmap a {q} t u" "\<And>j. leafn (mem u) a j = leafn (mem t) a j"
      using vm_free_frame [OF T(1)] by metis
    have U: "vm_inv u a" "same_rest s u" "tables (mem u) a = tables (mem t) a"
      "free_pages u = insert q (free_pages t)"
      "\<And>p. page_aligned p \<Longrightarrow> p \<notin> insert q (tables (mem t) a) \<Longrightarrow> same_page (mem t) (mem u) p"
      using u(2) same_rest_trans [OF rt] by (simp_all add: vm_unmap_def)
    have eqs: "free_pages u \<union> tables (mem u) a = free_pages s \<union> tables (mem s) a"
      using T(3,4) U(3,4) I(7) by auto
    have "uspace u a n"
      by (rule uspace_keep [OF us U(1,2)]) (use u(3) T(5) unm eqs in auto)
    moreover have "uext a n s u"
      unfolding uext_def
    proof (intro conjI allI impI)
      fix p assume p: "page_aligned p" "p \<notin> tables (mem s) a \<union> free_pages s"
      then have "p \<noteq> q" using I(7) by auto
      moreover have "p \<notin> tables (mem t) a" using p T(4) by auto
      ultimately show "same_page (mem s) (mem u) p"
        using p I(6) [of p] T(6) [of p] U(5) [of p] by (auto intro: same_page_trans)
    qed (use U(2,3) u(3) T(3,5) eqs in auto)
    moreover have "owned u a n \<union> free_pages u = owned s a n \<union> free_pages s"
      using eqs u(3) T(5) by (auto simp: owned_def frame_def)
    ultimately show ?thesis by (rule that(1) [OF 1(1) u(1)])
  next
    case (2 t)
    let ?e = "PA2PTE q OR scast perm OR PTE_V"
    note E = pte_perm [OF I(10) perm]
    have T: "vm_inv t a" "same_rest ?s2 t" "tables (mem s) a \<subseteq> tables (mem t) a"
      "free_pages s - {q} = free_pages t \<union> (tables (mem t) a - tables (mem s) a)"
      "\<And>p. page_aligned p \<Longrightarrow> p \<notin> tables (mem s) a \<union> (free_pages s - {q}) \<Longrightarrow> same_page m2 (mem t) p"
      using 2(2) I(3-5) by (simp_all add: vm_step_def)
    have rt: "same_rest s t" using I(2) T(2) by (rule same_rest_trans)
    have leaf: "leafn (mem t) a j = (if j = n then ?e else leafn (mem s) a j)" if "j < vpages" for j
      using 2(3) [of j] that I(5) by simp
    have sub: "tables (mem t) a \<union> free_pages t = tables (mem s) a \<union> free_pages s - {q}"
      using T(3,4) I(9) by auto
    have "uspace t a (Suc n)"
      by (rule uspace_add [OF us n(1) T(1) rt leaf E(1)]) (use E perm I(7) sub in auto)
    moreover have "uext a n s t"
      unfolding uext_def
    proof (intro conjI allI impI)
      fix p assume p: "page_aligned p" "p \<notin> tables (mem s) a \<union> free_pages s"
      then have "p \<noteq> q" using I(7) by auto
      then show "same_page (mem s) (mem t) p"
        using p I(6) [of p] T(5) [of p] by (auto intro: same_page_trans)
    qed (use rt leaf n sub T(3) in auto)
    moreover have "leafn (mem t) a n = ?e" using leaf n(1) by simp
    moreover have "same_page m2 (mem t) q" using T(5) I(9,10) by simp
    moreover have "owned t a (Suc n) \<union> free_pages t = owned s a n \<union> free_pages s"
    proof -
      have "frame (mem t) a ` {..<Suc n} = insert q (frame (mem s) a ` {..<n})"
        using leaf n(1) E(3) by (auto simp: frame_def lessThan_Suc)
      then show ?thesis using sub I(7) by (auto simp: owned_def)
    qed
    ultimately show ?thesis by (rule that(2) [OF 2(1)])
  qed
qed

section \<open>uvmdealloc\<close>

definition npg :: "uint64 \<Rightarrow> nat" where
  "npg sz = (unat sz + 4095) div 4096"

lemma unat_PGROUNDUP_npg: "npg sz \<le> utop \<Longrightarrow> unat (PGROUNDUP sz) = 4096 * npg sz"
  unfolding npg_def by (subst unat_PGROUNDUP) simp_all

lemma npg_mono: "sz \<le> sz' \<Longrightarrow> npg sz \<le> npg sz'"
  by (simp add: npg_def word_le_nat_alt div_le_mono)

lemma npg_pages: "unat a = 4096 * n \<Longrightarrow> npg a = n"
  by (simp add: npg_def)

lemma less_iff_npg:
  assumes "unat a = 4096 * n"
  shows "a < sz \<longleftrightarrow> n < npg sz"
  using assms by (simp add: npg_def word_less_nat_alt) linarith

lemma uspace_unmap:
  assumes us: "uspace s a n" and k: "k \<le> n" and va: "unat va = 4096 * k"
    and np: "unat np = n - k"
  shows "\<exists>t. uvmunmap a va np True s = Ok t \<and> uspace t a k
    \<and> vm_unmap a (frame (mem s) a ` {k..<n}) s t
    \<and> (\<forall>i<vpages. leafn (mem t) a i = (if k \<le> i \<and> i < n then 0 else leafn (mem s) a i))
    \<and> owned t a k \<union> free_pages t = owned s a n \<union> free_pages s"
proof -
  let ?F = "frame (mem s) a ` {k..<n}"
  have n: "n \<le> utop" and inv: "vm_inv s a"
    and S: "\<And>i. i < n \<Longrightarrow> leafn (mem s) a i AND PTE_V \<noteq> 0 \<and> PTE_FLAGS (leafn (mem s) a i) \<noteq> PTE_V"
      "\<And>i. i < n \<Longrightarrow> frame (mem s) a i \<in> kpages s - free_pages s - tables (mem s) a"
      "inj_on (frame (mem s) a) {..<n}"
    using us by (simp_all add: uspace_def)
  have e: "unat (va + np * PGSIZE) = 4096 * n"
  proof -
    have "unat (np * PGSIZE) = unat np * 4096"
      using np n by (simp add: unat_word_ariths(2))
    then show ?thesis using va np n k by (subst unat_add_small) simp_all
  qed
  have "inj_on (frame (mem s) a) {k..<n}"
    using S(3) by (rule inj_on_subset) auto
  then obtain t where t: "uvmunmap_loop a va (va + np * PGSIZE) True s = Ok t" "vm_unmap a ?F s t"
    "\<forall>i<vpages. leafn (mem t) a i = (if k \<le> i \<and> i < n then 0 else leafn (mem s) a i)"
    using uvmunmap_loop_ok [OF inv va e k, of True] n S by auto
  have T: "vm_inv t a" "same_rest s t" "tables (mem t) a = tables (mem s) a"
    "free_pages t = free_pages s \<union> ?F" using t(2) by (simp_all add: vm_unmap_def)
  have leaf: "leafn (mem t) a i = leafn (mem s) a i" if "i < k" for i
    using that t(3) k n by simp
  have fr: "frame (mem t) a i = frame (mem s) a i" if "i < k" for i
    using leaf [OF that] by (simp add: frame_def)
  have ne: "frame (mem s) a i \<notin> ?F" if "i < k" for i
    using that k S(3) by (auto dest: inj_onD)
  have "uspace t a k"
    unfolding uspace_def
  proof (intro conjI allI impI)
    fix i assume i: "i < k"
    show "leafn (mem t) a i AND PTE_V \<noteq> 0" "PTE_FLAGS (leafn (mem t) a i) \<noteq> PTE_V"
      using leaf [OF i] S(1) [of i] i k by auto
    show "frame (mem t) a i \<in> kpages t - free_pages t - tables (mem t) a"
      using fr [OF i] ne [OF i] S(2) [of i] i k T same_rest_kpages [OF T(2)] by auto
  next
    show "inj_on (frame (mem t) a) {..<k}"
      using S(3) k fr by (auto simp: inj_on_def)
  next
    fix i assume "k \<le> i" "i < vpages" "i \<notin> trap_pages"
    then show "leafn (mem t) a i AND PTE_V = 0"
      using t(3) us by (simp add: uspace_def)
  qed (use T k n in auto)
  moreover have "owned t a k \<union> free_pages t = owned s a n \<union> free_pages s"
  proof -
    have "frame (mem t) a ` {..<k} = frame (mem s) a ` {..<k}"
      by (rule image_cong) (use fr in auto)
    moreover have "{..<n} = {..<k} \<union> {k..<n}" using k by auto
    ultimately show ?thesis by (simp add: owned_def T image_Un) auto
  qed
  moreover have "uvmunmap a va np True s = Ok t"
    using t(1) va by (simp add: uvmunmap_def page_aligned_unat [unfolded page_aligned_def, simplified])
  ultimately show ?thesis using t by blast
qed

lemma uvmdealloc_pages:
  assumes us: "uspace s a n" and old: "npg oldsz = n" and lt: "newsz < oldsz"
  shows "\<exists>t. uvmdealloc a oldsz newsz s = Ok (newsz, t) \<and> uspace t a (npg newsz)
    \<and> vm_unmap a (frame (mem s) a ` {npg newsz..<n}) s t
    \<and> (\<forall>i<vpages. leafn (mem t) a i = (if npg newsz \<le> i \<and> i < n then 0 else leafn (mem s) a i))
    \<and> owned t a (npg newsz) \<union> free_pages t = owned s a n \<union> free_pages s"
proof -
  let ?k = "npg newsz"
  have k: "?k \<le> n" using npg_mono [of newsz oldsz] lt old by simp
  have n: "n \<le> utop" using us by (simp add: uspace_def)
  have up: "unat (PGROUNDUP newsz) = 4096 * ?k" "unat (PGROUNDUP oldsz) = 4096 * n"
    using unat_PGROUNDUP_npg [of newsz] unat_PGROUNDUP_npg [of oldsz] k n old by simp_all
  show ?thesis
  proof (cases "?k = n")
    case True
    then have "uvmdealloc a oldsz newsz s = Ok (newsz, s)"
      using up lt by (simp add: uvmdealloc_def word_less_nat_alt word_le_nat_alt)
    then show ?thesis using True us by (auto simp: uspace_def intro: vm_unmap_refl)
  next
    case False
    then have less: "PGROUNDUP newsz < PGROUNDUP oldsz" using k up by (simp add: word_less_nat_alt)
    let ?d = "(PGROUNDUP oldsz - PGROUNDUP newsz) div PGSIZE"
    have "unat (PGROUNDUP oldsz - PGROUNDUP newsz) = 4096 * (n - ?k)"
      using up k by (subst unat_sub) (simp_all add: word_le_nat_alt)
    then have d: "unat ?d = n - ?k" by (simp add: unat_div)
    have "scast (ucast ?d :: cint) = ?d"
      by (rule int_roundtrip) (use d n in simp)
    with uspace_unmap [OF us k up(1) d] less lt show ?thesis
      by (auto simp: uvmdealloc_def not_le)
  qed
qed

section \<open>uvmalloc\<close>

definition zero_page :: "bytes \<Rightarrow> uint64 \<Rightarrow> bool" where
  "zero_page m p \<longleftrightarrow> (\<forall>b. in_range b p 4096 \<longrightarrow> m b = 0)"

lemma zero_page_same: "zero_page m p \<Longrightarrow> same_page m m' p \<Longrightarrow> zero_page m' p"
  by (simp add: zero_page_def same_page_def)

text \<open>The frames below \<open>n\<close> keep their content in every extension of the space.\<close>

lemma uext_frames:
  assumes "uspace s a k" and "uext a k s t" and "j < k"
  shows "frame (mem t) a j = frame (mem s) a j" "same_page (mem s) (mem t) (frame (mem s) a j)"
proof -
  show "frame (mem t) a j = frame (mem s) a j" using assms by (simp add: uext_def frame_def)
  have "frame (mem s) a j \<in> kpages s - free_pages s - tables (mem s) a"
    using assms(1,3) by (simp add: uspace_def)
  then show "same_page (mem s) (mem t) (frame (mem s) a j)"
    using assms(2) kpages_aligned [of "frame (mem s) a j" s] by (auto simp: uext_def)
qed

text \<open>Undoing the growth from \<open>n\<close> to \<open>i\<close> pages leads back to the pages owned before it.\<close>

lemma uvm_undo:
  assumes us0: "uspace s0 a n" and us: "uspace s a i" and ext: "uext a n s0 s" and ni: "n \<le> i"
    and own: "owned s a i \<union> free_pages s = owned s0 a n \<union> free_pages s0"
    and t: "uspace t a n" "vm_unmap a (frame (mem s) a ` {n..<i}) s t"
      "\<And>j. j < n \<Longrightarrow> leafn (mem t) a j = leafn (mem s) a j"
      "owned t a n \<union> free_pages t = owned s a i \<union> free_pages s"
  shows "uext a n s0 t" and "owned t a n \<union> free_pages t = owned s0 a n \<union> free_pages s0"
proof -
  let ?F = "frame (mem s) a ` {n..<i}"
  have T: "same_rest s t" "tables (mem t) a = tables (mem s) a" "free_pages t = free_pages s \<union> ?F"
    "\<And>p. page_aligned p \<Longrightarrow> p \<notin> tables (mem s) a \<union> ?F \<Longrightarrow> same_page (mem s) (mem t) p"
    using t(2) by (simp_all add: vm_unmap_def)
  have E: "same_rest s0 s" "\<And>j. j < n \<Longrightarrow> leafn (mem s) a j = leafn (mem s0) a j"
    "tables (mem s0) a \<subseteq> tables (mem s) a"
    "tables (mem s) a \<union> free_pages s \<subseteq> tables (mem s0) a \<union> free_pages s0"
    "\<And>p. page_aligned p \<Longrightarrow> p \<notin> tables (mem s0) a \<union> free_pages s0 \<Longrightarrow> same_page (mem s0) (mem s) p"
    using ext by (simp_all add: uext_def)
  have F: "?F \<subseteq> tables (mem s0) a \<union> free_pages s0"
  proof
    fix p assume "p \<in> ?F"
    then obtain j where j: "n \<le> j" "j < i" "p = frame (mem s) a j" by auto
    then have "p \<in> owned s0 a n \<union> free_pages s0" using own by (auto simp: owned_def)
    moreover have "p \<notin> frame (mem s0) a ` {..<n}"
    proof
      assume "p \<in> frame (mem s0) a ` {..<n}"
      then obtain l where "l < n" "p = frame (mem s) a l" using E(2) by (auto simp: frame_def)
      with j us ni show False by (auto simp: uspace_def dest: inj_onD)
    qed
    ultimately show "p \<in> tables (mem s0) a \<union> free_pages s0" by (auto simp: owned_def)
  qed
  show "uext a n s0 t"
    unfolding uext_def
  proof (intro conjI allI impI)
    fix p assume p: "page_aligned p" "p \<notin> tables (mem s0) a \<union> free_pages s0"
    then have "p \<notin> tables (mem s) a \<union> ?F" using E(4) F by auto
    with p E(5) T(4) show "same_page (mem s0) (mem t) p" by (blast intro: same_page_trans)
  qed (use T E F t(3) same_rest_trans [of s0 s t] in auto)
  show "owned t a n \<union> free_pages t = owned s0 a n \<union> free_pages s0"
    using t(4) own by simp
qed

lemma uvm_rollback:
  assumes us0: "uspace s0 a n" and us: "uspace s a i" and ext: "uext a n s0 s" and ni: "n \<le> i"
    and own: "owned s a i \<union> free_pages s = owned s0 a n \<union> free_pages s0"
    and va: "unat va = 4096 * i" "unat old = 4096 * n"
  shows "\<exists>r t. uvmdealloc a va old s = Ok (r, t) \<and> uspace t a n \<and> uext a n s0 t
    \<and> owned t a n \<union> free_pages t = owned s0 a n \<union> free_pages s0"
proof (cases "n = i")
  case True
  then have "uvmdealloc a va old s = Ok (va, s)"
    using va by (simp add: uvmdealloc_def word_le_nat_alt)
  with True us ext own show ?thesis by auto
next
  case False
  then have lt: "old < va" using ni va by (simp add: word_less_nat_alt)
  from uvmdealloc_pages [OF us npg_pages [OF va(1)] lt] npg_pages [OF va(2)] obtain t where
    t: "uvmdealloc a va old s = Ok (old, t)" "uspace t a n" "vm_unmap a (frame (mem s) a ` {n..<i}) s t"
      "\<forall>j<vpages. leafn (mem t) a j = (if n \<le> j \<and> j < i then 0 else leafn (mem s) a j)"
      "owned t a n \<union> free_pages t = owned s a i \<union> free_pages s" by auto
  have "i \<le> utop" using us by (simp add: uspace_def)
  then have "leafn (mem t) a j = leafn (mem s) a j" if "j < n" for j
    using t(4) that ni by simp
  from uvm_undo [OF us0 us ext ni own t(2,3) this t(5)] t(1,2) show ?thesis by blast
qed

text \<open>The pages from \<open>n\<close> to \<open>i\<close> are fresh: zeroed, with the flags \<open>f\<close>.\<close>

definition fresh_pages :: "bytes \<Rightarrow> uint64 \<Rightarrow> uint64 \<Rightarrow> nat \<Rightarrow> nat \<Rightarrow> bool" where
  "fresh_pages m a f n i \<longleftrightarrow>
     (\<forall>j. n \<le> j \<longrightarrow> j < i \<longrightarrow> PTE_FLAGS (leafn m a j) = f OR PTE_V \<and> zero_page m (frame m a j))"

lemma uvmalloc_loop_pages:
  assumes "uspace s a i" and us0: "uspace s0 a n" and "n \<le> i" and "uext a n s0 s"
    and "owned s a i \<union> free_pages s = owned s0 a n \<union> free_pages s0"
    and "unat va = 4096 * i" and old: "unat old = 4096 * n" and new: "npg newsz \<le> utop"
    and perm: "unat (scast (ucast (PTE_R OR PTE_U) OR xperm) :: uint64) < 2 ^ 10"
      "scast (ucast (PTE_R OR PTE_U) OR xperm) OR PTE_V \<noteq> PTE_V"
    and "fresh_pages (mem s) a (scast (ucast (PTE_R OR PTE_U) OR xperm)) n i"
  shows "\<exists>r t. uvmalloc_loop a old va newsz xperm s = Ok (r, t) \<and> uext a n s0 t \<and>
    (r = newsz \<and> uspace t a (max i (npg newsz))
       \<and> owned t a (max i (npg newsz)) \<union> free_pages t = owned s0 a n \<union> free_pages s0
       \<and> fresh_pages (mem t) a (scast (ucast (PTE_R OR PTE_U) OR xperm)) n (max i (npg newsz))
     \<or> r = 0 \<and> uspace t a n \<and> owned t a n \<union> free_pages t = owned s0 a n \<union> free_pages s0)"
  using assms(1,3-6,11)
proof (induction "npg newsz - i" arbitrary: i va s)
  case 0
  then have "uvmalloc_loop a old va newsz xperm s = Ok (newsz, s)"
    using less_iff_npg [OF "0.prems"(5)] by (subst uvmalloc_loop.simps) simp
  with 0 show ?case by (auto simp: max_def)
next
  case (Suc d)
  let ?f = "scast (ucast (PTE_R OR PTE_U) OR xperm) :: uint64"
  have i: "i < npg newsz" "i < utop" "d = npg newsz - Suc i" using Suc.hyps(2) new by linarith+
  have lt: "va < newsz" using i less_iff_npg [OF Suc.prems(5)] by simp
  have k: "kmem_inv s" using Suc.prems(1) by (simp add: uspace_def vm_inv_def)
  from k show ?case
  proof (cases rule: kalloc_cases)
    case 1
    with lt uvm_rollback [OF us0 Suc.prems(1,3,2,4,5) old] show ?thesis
      by (subst uvmalloc_loop.simps) force
  next
    case (2 q s1)
    let ?m = "fill (mem s1) q 0 4096"
    have q: "page_aligned q" using kalloc_page [OF k 2] by simp
    then have m: "\<forall>p. page_aligned p \<longrightarrow> p \<noteq> q \<longrightarrow> same_page (mem s1) ?m p"
      using same_page_fill by blast
    from user_map_page [OF Suc.prems(1) i(2) Suc.prems(5) 2 m perm]
    consider t u where "mappages a va PGSIZE q (ucast (PTE_R OR PTE_U) OR xperm) (s1\<lparr>mem := ?m\<rparr>) = Ok (-1, t)"
        "kfree q t = Ok u" "uspace u a i" "uext a i s u" "owned u a i \<union> free_pages u = owned s a i \<union> free_pages s"
    | t where "mappages a va PGSIZE q (ucast (PTE_R OR PTE_U) OR xperm) (s1\<lparr>mem := ?m\<rparr>) = Ok (0, t)"
        "uspace t a (Suc i)" "uext a i s t" "leafn (mem t) a i = PA2PTE q OR ?f OR PTE_V"
        "same_page ?m (mem t) q" "owned t a (Suc i) \<union> free_pages t = owned s a i \<union> free_pages s"
      by blast
    then show ?thesis
    proof cases
      case (1 t u)
      have "uext a n s0 u"
        using Suc.prems(2,3) 1(4) by (blast intro: uext_trans uext_mono)
      from uvm_rollback [OF us0 1(3) this Suc.prems(2) _ Suc.prems(5) old] 1 Suc.prems(4) 2 lt
      show ?thesis by (subst uvmalloc_loop.simps) (force simp: Let_def)
    next
      case t: (2 t)
      have run: "uvmalloc_loop a old va newsz xperm s = uvmalloc_loop a old (va + PGSIZE) newsz xperm t"
        using lt 2 t(1) by (subst uvmalloc_loop.simps) (simp add: Let_def)
      have ext: "uext a n s0 t"
        using Suc.prems(2,3) t(3) by (blast intro: uext_trans uext_mono)
      have "frame (mem t) a i = q" "PTE_FLAGS (leafn (mem t) a i) = ?f OR PTE_V"
        using t(4) pte_perm [OF q perm] by (simp_all add: frame_def)
      moreover have "zero_page (mem t) q"
        by (rule zero_page_same [OF _ t(5)]) (simp add: zero_page_def fill_apply)
      moreover have "PTE_FLAGS (leafn (mem t) a j) = ?f OR PTE_V \<and> zero_page (mem t) (frame (mem t) a j)"
        if "n \<le> j" "j < i" for j
        using Suc.prems(6) uext_frames [OF Suc.prems(1) t(3) that(2)] that t(3) zero_page_same
        by (auto simp: fresh_pages_def uext_def)
      ultimately have fresh: "fresh_pages (mem t) a ?f n (Suc i)"
        by (auto simp: fresh_pages_def less_Suc_eq)
      have "unat (va + PGSIZE) = 4096 * Suc i" by (rule vpage_next [OF Suc.prems(5)]) (use i in simp)
      from Suc.hyps(1) [OF i(3) t(2) _ ext _ this fresh] Suc.prems(2,4) t(6)
      have "\<exists>r u. uvmalloc_loop a old (va + PGSIZE) newsz xperm t = Ok (r, u) \<and> uext a n s0 u \<and>
        (r = newsz \<and> uspace u a (max (Suc i) (npg newsz))
           \<and> owned u a (max (Suc i) (npg newsz)) \<union> free_pages u = owned s0 a n \<union> free_pages s0
           \<and> fresh_pages (mem u) a ?f n (max (Suc i) (npg newsz))
         \<or> r = 0 \<and> uspace u a n \<and> owned u a n \<union> free_pages u = owned s0 a n \<union> free_pages s0)"
        by simp
      moreover have "max (Suc i) (npg newsz) = max i (npg newsz)" using i(1) by simp
      ultimately show ?thesis unfolding run by simp
    qed
  qed
qed

lemma xperm_ok:
  assumes "unat (scast xperm :: uint64) < 2 ^ 10"
  defines "f \<equiv> scast (ucast (PTE_R OR PTE_U) OR (xperm :: cint)) :: uint64"
  shows "unat f < 2 ^ 10" "f OR PTE_V \<noteq> PTE_V" "f = (PTE_R OR PTE_U) OR scast xperm"
proof -
  show f: "f = (PTE_R OR PTE_U) OR scast xperm"
    unfolding f_def by (simp add: signed_or_eq)
  have "f = take_bit 10 f"
    unfolding f using small_bits [OF assms(1)] small_bits [of "18 :: uint64" 10]
    by (intro bit_eqI) (auto simp: bit_take_bit_iff bit_or_iff not_le [symmetric])
  then show "unat f < 2 ^ 10"
    by (metis take_bit_nat_less_exp unsigned_take_bit_eq)
  have "bit (f OR PTE_V) 1" unfolding f by (simp add: bit_or_iff)
  then show "f OR PTE_V \<noteq> PTE_V" by (metis PTE_V_def bit_1_iff one_neq_zero)
qed

lemma uvmalloc_pages:
  assumes us: "uspace s a (npg oldsz)" and le: "oldsz \<le> newsz" and new: "npg newsz \<le> utop"
    and perm: "unat (scast xperm :: uint64) < 2 ^ 10"
  shows "\<exists>r t. uvmalloc a oldsz newsz xperm s = Ok (r, t) \<and> uext a (npg oldsz) s t \<and>
    (r = newsz \<and> uspace t a (npg newsz)
       \<and> owned t a (npg newsz) \<union> free_pages t = owned s a (npg oldsz) \<union> free_pages s
       \<and> fresh_pages (mem t) a ((PTE_R OR PTE_U) OR scast xperm) (npg oldsz) (npg newsz)
     \<or> r = 0 \<and> uspace t a (npg oldsz)
       \<and> owned t a (npg oldsz) \<union> free_pages t = owned s a (npg oldsz) \<union> free_pages s)"
proof -
  note P = xperm_ok [OF perm]
  have mono: "npg oldsz \<le> npg newsz" using npg_mono [OF le] .
  have up: "unat (PGROUNDUP oldsz) = 4096 * npg oldsz"
    by (rule unat_PGROUNDUP_npg) (use mono new in linarith)
  have "fresh_pages (mem s) a (scast (ucast (PTE_R OR PTE_U) OR xperm)) (npg oldsz) (npg oldsz)"
    by (simp add: fresh_pages_def)
  from uvmalloc_loop_pages [OF us us le_refl uext_refl refl up up new P(1,2) this] mono
  show ?thesis
    using leD [OF le] unfolding P(3) by (simp add: uvmalloc_def max_absorb2)
qed

section \<open>The empty address space\<close>

lemma tbl_zero_root:
  assumes "\<And>i. unat i < 512 \<Longrightarrow> load64 m (pte_at a i) = 0"
  shows "tbl m a is = (if is = [] then Some a else None)"
  using assms by (cases "is") (auto simp: tbl.simps(2) Let_def)

lemma zero_page_entry: "zero_page m a \<Longrightarrow> unat i < 512 \<Longrightarrow> load64 m (pte_at a i) = 0"
proof -
  assume z: "zero_page m a" and i: "unat i < 512"
  have "load64 m (pte_at a i) = load64 (fill m a 0 4096) (pte_at a i)"
    by (rule load64_cong) (use z pte_at_range [OF i] in \<open>auto simp: zero_page_def fill_def\<close>)
  also have "\<dots> = 0" by (rule load64_fill_0) (use i in \<open>simp_all add: pte_at_def unat_pte_off\<close>)
  finally show ?thesis .
qed

lemma uspace_empty:
  assumes "kmem_inv s" and "a \<in> kpages s - free_pages s" and "zero_page (mem s) a"
  shows "uspace s a 0" and "tables (mem s) a = {a}" and "leafn (mem s) a i = 0"
proof -
  have t: "tbl (mem s) a is = (if is = [] then Some a else None)" for "is"
    by (rule tbl_zero_root) (rule zero_page_entry [OF assms(3)])
  then show tb: "tables (mem s) a = {a}" by (auto simp: tables_def)
  have leaf: "leafn (mem s) a i = 0" for i by (simp add: leafn_def entry_def t)
  then show "leafn (mem s) a i = 0" .
  have "tree_ok (mem s) a"
    unfolding tree_ok_def tb using assms(2) kpages_aligned zero_page_entry [OF assms(3)]
    by (auto simp: t split: if_splits)
  then show "uspace s a 0"
    using assms leaf by (simp add: uspace_def vm_inv_def tb)
qed

lemma uvmcreate_pages:
  assumes "kmem_inv s" and "free_pages s \<noteq> {}"
  shows "\<exists>a t. uvmcreate s = Ok (a, t) \<and> a \<noteq> 0 \<and> same_rest s t \<and> uspace t a 0
    \<and> owned t a 0 \<union> free_pages t = free_pages s \<and> (\<forall>i. leafn (mem t) a i = 0)"
  using assms(1)
proof (cases rule: kalloc_cases)
  case 1
  with assms(2) show ?thesis by simp
next
  case (2 q t)
  let ?t = "t\<lparr>mem := fill (mem t) q 0 4096\<rparr>"
  note K = kalloc_page [OF assms(1) 2]
  have al: "page_aligned p" if "p \<in> free_pages t" for p
    using that K(5) km.avail_pages [OF assms(1)] kpages_aligned by blast
  have "same_page (mem t) (fill (mem t) q 0 4096) p" if "p \<in> free_pages t" for p
    using that al [OF that] K(5,7) by (intro same_page_fill) auto
  note F = kmem_frame [OF K(1) this]
  have "q \<in> kpages ?t - free_pages ?t" "zero_page (mem ?t) q"
    using F(2) K(5,6,8) by (simp_all add: zero_page_def fill_apply)
  note E = uspace_empty [OF F(1) this]
  have "uvmcreate s = Ok (q, ?t)" using 2 by (simp add: uvmcreate_def)
  moreover have "owned ?t q 0 \<union> free_pages ?t = free_pages s"
    using E(2) F(2) K(4,5) by (auto simp: owned_def)
  ultimately show ?thesis using E(1,3) 2 K(3) by auto
qed

text \<open>The small machine with an empty address space whose root table is at \<open>0x80108000\<close>.\<close>

lemma zero_page_store: "zero_page m p \<Longrightarrow> 4096 \<le> unat (a - p) \<Longrightarrow> 8 \<le> unat (p - a) \<Longrightarrow>
  zero_page (store64 m a v) p"
proof -
  assume z: "zero_page m p" and d: "4096 \<le> unat (a - p)" "8 \<le> unat (p - a)"
  have "\<not> in_range b a 8" if b: "in_range b p 4096" for b
  proof
    assume b': "in_range b a 8"
    have "unat (b - p) < 4096" "unat (b - a) < 8" using b b' by (simp_all add: in_range_def)
    moreover have "a - p = (b - p) - (b - a)" "p - a = (b - a) - (b - p)" by simp_all
    ultimately show False
      using d unat_diff_small [of "b - p" 4096 "b - a" 8] by auto
  qed
  with z show ?thesis by (simp add: zero_page_def store64_outside)
qed

lemma demo_root: "0x80108000 \<in> kpages demo - free_pages demo" "zero_page (mem demo) 0x80108000"
proof -
  show "0x80108000 \<in> kpages demo - free_pages demo"
    unfolding demo_inv by (simp add: demo_pages_def demo_def kpages_def kpage_def page_aligned_def)
  show "zero_page (mem demo) 0x80108000"
    unfolding demo_def kmem.select_convs by (intro zero_page_store) (simp_all add: zero_page_def)
qed

lemma demo_uspace: "uspace demo 0x80108000 0"
  by (rule uspace_empty [OF demo_inv(1) demo_root])

section \<open>Properties\<close>

text \<open>
  C7: \<^verbatim>\<open>mappages\<close> on an unmapped range below \<^verbatim>\<open>MAXVA\<close>, of any address and any positive size, does not
  panic. It returns 0 after setting the entry of every page that has a byte in the range, the first one to \<^verbatim>\<open>pa\<close>
  and each further one to the next physical page, or \<open>-1\<close> when pages ran out after mapping a prefix of
  the range. No other translation changes, and no page outside the tables and the free list is written.
\<close>

theorem mappages_maps_range:
  assumes "vm_inv s a" and "sz \<noteq> 0" and "unat va + unat sz \<le> 2 ^ 38"
    and n: "n = unat va div 4096" and k: "k = (unat va + unat sz - 1) div 4096"
    and "\<forall>i. n \<le> i \<longrightarrow> i \<le> k \<longrightarrow> leafn (mem s) a i AND PTE_V = 0"
  shows "\<exists>r t j. mappages a va sz pa perm s = Ok (r, t) \<and> vm_step a s t \<and>
    (r = 0 \<and> j = Suc k \<or> r = -1 \<and> n \<le> j \<and> j \<le> k \<and> free_pages t = {}) \<and>
    (\<forall>i<vpages. leafn (mem t) a i =
      (if n \<le> i \<and> i < j then PA2PTE (pa + 4096 * of_nat (i - n)) OR scast perm OR PTE_V
       else leafn (mem s) a i))"
proof -
  have sz: "0 < unat sz" using assms(2) by (simp add: unat_gt_0)
  have first: "unat (PGROUNDDOWN va) = 4096 * n" by (simp add: n unat_PGROUNDDOWN minus_mod_eq_mult_div)
  have "unat (va + sz) = unat va + unat sz" using assms(3) by (subst unat_add_small) simp_all
  then have "unat (va + sz - 1) = unat va + unat sz - 1" using sz by (subst unat_sub) (simp_all add: word_le_nat_alt)
  then have last: "unat (PGROUNDDOWN (va + sz - 1)) = 4096 * k" by (simp add: k unat_PGROUNDDOWN minus_mod_eq_mult_div)
  have le: "n \<le> k" unfolding n k using sz by (intro div_le_mono) simp
  have "4096 * k < 2 ^ 38" unfolding k using assms(3) sz by linarith
  then have "k < mpages" by simp
  moreover have "leafn (mem s) a i AND PTE_V = 0" if "n \<le> i" "i \<le> k" for i using assms(6) that by blast
  ultimately have "\<exists>r t j. mappages_loop a (PGROUNDDOWN va) (PGROUNDDOWN (va + sz - 1)) pa perm s = Ok (r, t) \<and> vm_step a s t \<and>
    (r = 0 \<and> j = Suc k \<or> r = -1 \<and> n \<le> j \<and> j \<le> k \<and> free_pages t = {}) \<and>
    (\<forall>i<vpages. leafn (mem t) a i =
      (if n \<le> i \<and> i < j then PA2PTE (pa + 4096 * of_nat (i - n)) OR scast perm OR PTE_V
       else leafn (mem s) a i))"
    by (rule mappages_loop_ok [OF assms(1) first last le])
  then show ?thesis unfolding mappages_def if_not_P [OF assms(2)] .
qed

theorem mappages_maps_range_witness:
  "\<exists>r t. mappages 0x80108000 0x10 4096 0x80109000 22 demo = Ok (r, t) \<and> vm_step 0x80108000 demo t
     \<and> (r = -1 \<or> r = 0 \<and> leafn (mem t) 0x80108000 1 = PA2PTE (0x80109000 + 4096) OR scast (22 :: cint) OR PTE_V)"
proof -
  have us: "vm_inv demo 0x80108000" "\<forall>i. 0 \<le> i \<longrightarrow> i \<le> 1 \<longrightarrow> leafn (mem demo) 0x80108000 i AND PTE_V = 0"
    using demo_uspace by (simp_all add: uspace_def)
  have "\<exists>r t j. mappages 0x80108000 0x10 4096 0x80109000 22 demo = Ok (r, t) \<and> vm_step 0x80108000 demo t \<and>
    (r = 0 \<and> j = Suc 1 \<or> r = -1 \<and> 0 \<le> j \<and> j \<le> 1 \<and> free_pages t = {}) \<and>
    (\<forall>i<vpages. leafn (mem t) 0x80108000 i =
      (if 0 \<le> i \<and> i < j then PA2PTE (0x80109000 + 4096 * of_nat (i - 0)) OR scast (22 :: cint) OR PTE_V
       else leafn (mem demo) 0x80108000 i))"
    by (rule mappages_maps_range [OF us(1)]) (use us(2) in simp_all)
  then obtain r t j where t: "mappages 0x80108000 0x10 4096 0x80109000 22 demo = Ok (r, t)" "vm_step 0x80108000 demo t"
    "r = 0 \<and> j = Suc 1 \<or> r = -1 \<and> 0 \<le> j \<and> j \<le> 1 \<and> free_pages t = {}"
    "\<forall>i<vpages. leafn (mem t) 0x80108000 i =
      (if 0 \<le> i \<and> i < j then PA2PTE (0x80109000 + 4096 * of_nat (i - 0)) OR scast (22 :: cint) OR PTE_V
       else leafn (mem demo) 0x80108000 i)" by blast
  have "r = -1 \<or> r = 0 \<and> leafn (mem t) 0x80108000 1 = PA2PTE (0x80109000 + 4096) OR scast (22 :: cint) OR PTE_V"
    using t(3) spec [OF t(4), of 1] by auto
  with t(1,2) show ?thesis by blast
qed

text \<open>
  C3: \<^verbatim>\<open>uvmalloc\<close> either grows the address space to the new size with zeroed pages that carry the
  requested permissions, or returns 0 with the address space as it was. In both cases the
  content of the old pages is unchanged and no page is lost: the pages owned by the space and
  the free pages are together the same as before.
\<close>

theorem uvmalloc_grows:
  assumes "uspace s a (npg oldsz)" and "oldsz \<le> newsz" and "npg newsz \<le> utop"
    and "unat (scast xperm :: uint64) < 2 ^ 10"
  shows "\<exists>r t. uvmalloc a oldsz newsz xperm s = Ok (r, t) \<and> uext a (npg oldsz) s t \<and>
    (r = newsz \<and> uspace t a (npg newsz)
       \<and> owned t a (npg newsz) \<union> free_pages t = owned s a (npg oldsz) \<union> free_pages s
       \<and> fresh_pages (mem t) a ((PTE_R OR PTE_U) OR scast xperm) (npg oldsz) (npg newsz)
     \<or> r = 0 \<and> uspace t a (npg oldsz)
       \<and> owned t a (npg oldsz) \<union> free_pages t = owned s a (npg oldsz) \<union> free_pages s)"
  by (rule uvmalloc_pages [OF assms])

theorem uvmalloc_grows_witness:
  "\<exists>r t. uvmalloc 0x80108000 0 8192 4 demo = Ok (r, t) \<and> uext 0x80108000 0 demo t"
  using uvmalloc_grows [of demo "0x80108000" 0 8192 4] demo_uspace by (auto simp: npg_def)

text \<open>
  C31: \<^verbatim>\<open>uvmdealloc\<close> to a smaller size unmaps exactly the pages above it, returns them to the free
  list and keeps the rest of the address space.
\<close>

theorem uvmdealloc_shrinks:
  assumes "uspace s a (npg oldsz)" and "newsz < oldsz"
  shows "\<exists>t. uvmdealloc a oldsz newsz s = Ok (newsz, t) \<and> uspace t a (npg newsz)
    \<and> free_pages t = free_pages s \<union> frame (mem s) a ` {npg newsz..<npg oldsz}
    \<and> (\<forall>i<vpages. leafn (mem t) a i =
         (if npg newsz \<le> i \<and> i < npg oldsz then 0 else leafn (mem s) a i))
    \<and> owned t a (npg newsz) \<union> free_pages t = owned s a (npg oldsz) \<union> free_pages s"
  using uvmdealloc_pages [OF assms(1) refl assms(2)] unfolding vm_unmap_def by blast

theorem uvmdealloc_shrinks_witness:
  "\<exists>r t. uvmalloc 0x80108000 0 8192 4 demo = Ok (r, t) \<and>
     (r = 0 \<or> (\<exists>u. uvmdealloc 0x80108000 8192 4096 t = Ok (4096, u)))"
proof -
  obtain r t where t: "uvmalloc 0x80108000 0 8192 4 demo = Ok (r, t)"
    "r = 8192 \<and> uspace t 0x80108000 (npg 8192) \<or> r = 0"
    using uvmalloc_pages [of demo "0x80108000" 0 8192 4] demo_uspace by (auto simp: npg_def)
  with uvmdealloc_shrinks [of t "0x80108000" 8192 4096] show ?thesis by auto
qed

end
