(* ===== verification/Freewalk.thy ===== *)
theory Freewalk
  imports Uspace
begin

text \<open>
  \<^verbatim>\<open>freewalk\<close> and \<^verbatim>\<open>uvmfree\<close>. A subtree of depth \<open>l\<close> whose lowest tables have no valid entry is
  returned to the free list page by page; three levels of recursion are enough for a page
  table, and \<^verbatim>\<open>uvmfree\<close> gives back every page the address space owned.
\<close>

section \<open>Subtrees\<close>

definition subt :: "bytes \<Rightarrow> uint64 \<Rightarrow> nat \<Rightarrow> uint64 set" where
  "subt m b l = {c. \<exists>is. length is \<le> l \<and> tbl m b is = Some c}"

definition valid_entry :: "bytes \<Rightarrow> uint64 \<Rightarrow> uint64 \<Rightarrow> bool" where
  "valid_entry m b i \<longleftrightarrow> unat i < 512 \<and> load64 m (pte_at b i) AND PTE_V \<noteq> 0"

definition child :: "bytes \<Rightarrow> uint64 \<Rightarrow> uint64 \<Rightarrow> uint64" where
  "child m b i = PTE2PA (load64 m (pte_at b i))"

definition sub_ok :: "bytes \<Rightarrow> uint64 \<Rightarrow> nat \<Rightarrow> bool" where
  "sub_ok m b l \<longleftrightarrow>
     (\<forall>is js c. length is \<le> l \<longrightarrow> length js \<le> l \<longrightarrow> tbl m b is = Some c \<longrightarrow> tbl m b js = Some c \<longrightarrow> is = js)
     \<and> (\<forall>c \<in> subt m b l. page_aligned c)
     \<and> (\<forall>is i c. length is \<le> l \<longrightarrow> tbl m b is = Some c \<longrightarrow> valid_entry m c i \<longrightarrow>
          length is < l \<and> load64 m (pte_at c i) AND (PTE_R OR PTE_W OR PTE_X) = 0)"

lemma tbl_Cons:
  "tbl m b (i # is) = (if valid_entry m b i then tbl m (child m b i) is else None)"
  by (simp add: tbl.simps(2) valid_entry_def child_def Let_def)

lemma subt_self: "b \<in> subt m b l"
  by (auto simp: subt_def intro!: exI [of _ "[]"])

lemma subt_child:
  assumes "valid_entry m b i" and "c \<in> subt m (child m b i) l"
  shows "c \<in> subt m b (Suc l)"
proof -
  from assms(2) obtain js where "length js \<le> l" "tbl m (child m b i) js = Some c"
    by (auto simp: subt_def)
  with assms(1) show ?thesis
    by (auto simp: subt_def tbl_Cons intro!: exI [of _ "i # js"])
qed

lemma subt_Suc: "subt m b (Suc l) = insert b (\<Union>i \<in> {i. valid_entry m b i}. subt m (child m b i) l)"
proof (intro set_eqI iffI)
  fix c assume "c \<in> subt m b (Suc l)"
  then obtain js where js: "length js \<le> Suc l" "tbl m b js = Some c" by (auto simp: subt_def)
  then show "c \<in> insert b (\<Union>i \<in> {i. valid_entry m b i}. subt m (child m b i) l)"
    by (cases js) (auto simp: tbl_Cons subt_def split: if_splits)
next
  fix c assume "c \<in> insert b (\<Union>i \<in> {i. valid_entry m b i}. subt m (child m b i) l)"
  then show "c \<in> subt m b (Suc l)" using subt_child by (auto simp: subt_self)
qed

lemma sub_ok_inj:
  "sub_ok m b l \<Longrightarrow> tbl m b is = Some c \<Longrightarrow> tbl m b js = Some c \<Longrightarrow> length is \<le> l \<Longrightarrow> length js \<le> l \<Longrightarrow> is = js"
  unfolding sub_ok_def by blast

lemma sub_ok_aligned: "sub_ok m b l \<Longrightarrow> c \<in> subt m b l \<Longrightarrow> page_aligned c"
  unfolding sub_ok_def by blast

lemma sub_ok_entry:
  "sub_ok m b l \<Longrightarrow> tbl m b is = Some c \<Longrightarrow> length is \<le> l \<Longrightarrow> valid_entry m c i \<Longrightarrow>
   length is < l \<and> load64 m (pte_at c i) AND (PTE_R OR PTE_W OR PTE_X) = 0"
  unfolding sub_ok_def by blast

lemma sub_ok_child:
  assumes "sub_ok m b (Suc l)" and v: "valid_entry m b i"
  shows "sub_ok m (child m b i) l"
  unfolding sub_ok_def
proof (intro conjI allI impI ballI)
  fix js ks c
  assume "length js \<le> l" "length ks \<le> l" "tbl m (child m b i) js = Some c" "tbl m (child m b i) ks = Some c"
  then show "js = ks"
    using sub_ok_inj [OF assms(1), of "i # js" c "i # ks"] v by (simp add: tbl_Cons)
next
  fix c assume "c \<in> subt m (child m b i) l"
  then show "page_aligned c" using sub_ok_aligned [OF assms(1)] subt_child [OF v] by blast
next
  fix js k c
  assume "length js \<le> l" "tbl m (child m b i) js = Some c" "valid_entry m c k"
  then have "length (i # js) < Suc l \<and> load64 m (pte_at c k) AND (PTE_R OR PTE_W OR PTE_X) = 0"
    by (intro sub_ok_entry [OF assms(1)]) (simp_all add: tbl_Cons v)
  then show "length js < l" "load64 m (pte_at c k) AND (PTE_R OR PTE_W OR PTE_X) = 0" by simp_all
qed

lemma sub_disjoint:
  assumes ok: "sub_ok m b (Suc l)" and v: "valid_entry m b i" "valid_entry m b j" "i \<noteq> j"
  shows "subt m (child m b i) l \<inter> subt m (child m b j) l = {}" "b \<notin> subt m (child m b i) l"
proof -
  have "is = js \<and> i = j" if "tbl m (child m b i) is = Some c" "tbl m (child m b j) js = Some c"
    "length is \<le> l" "length js \<le> l" for "is" js c
    using sub_ok_inj [OF ok, of "i # is" c "j # js"] that v by (simp add: tbl_Cons)
  then show "subt m (child m b i) l \<inter> subt m (child m b j) l = {}"
    using v(3) by (auto simp: subt_def)
  have False if "tbl m (child m b i) is = Some b" "length is \<le> l" for "is"
    using sub_ok_inj [OF ok, of "i # is" b "[]"] that v by (simp add: tbl_Cons)
  then show "b \<notin> subt m (child m b i) l" by (auto simp: subt_def)
qed

text \<open>A subtree is unchanged when its pages are.\<close>

lemma sub_same:
  assumes "\<And>c. c \<in> subt m b l \<Longrightarrow> same_page m m' c"
  shows "length is \<le> l \<Longrightarrow> tbl m' b is = tbl m b is" "subt m' b l = subt m b l" "sub_ok m b l \<Longrightarrow> sub_ok m' b l"
proof -
  show t: "tbl m' b is = tbl m b is" if "length is \<le> l" for "is"
  proof (rule tbl_cong)
    fix js k c ks
    assume c: "is = js @ k # ks" "tbl m b js = Some c" "unat k < 512"
    then have "c \<in> subt m b l" using that by (auto simp: subt_def intro!: exI [of _ js])
    from same_page_entry [OF assms [OF this] c(3)]
    show "load64 m' (pte_at c k) = load64 m (pte_at c k)" .
  qed
  then show s: "subt m' b l = subt m b l" by (auto simp: subt_def)
  have e: "load64 m' (pte_at c i) = load64 m (pte_at c i)"
    if "length is \<le> l" "tbl m b is = Some c" "unat i < 512" for "is" c i
  proof -
    have "c \<in> subt m b l" using that by (auto simp: subt_def)
    from same_page_entry [OF assms [OF this] that(3)] show ?thesis .
  qed
  assume ok: "sub_ok m b l"
  show "sub_ok m' b l"
    unfolding sub_ok_def
  proof (intro conjI allI impI ballI)
    fix js ks c
    assume "length js \<le> l" "length ks \<le> l" "tbl m' b js = Some c" "tbl m' b ks = Some c"
    then show "js = ks" using sub_ok_inj [OF ok] t by simp
  next
    fix c assume "c \<in> subt m' b l"
    then show "page_aligned c" using s sub_ok_aligned [OF ok] by simp
  next
    fix js i c
    assume a: "length js \<le> l" "tbl m' b js = Some c" "valid_entry m' c i"
    then have c: "tbl m b js = Some c" using t by simp
    have ee: "load64 m' (pte_at c i) = load64 m (pte_at c i)"
      using e [OF a(1) c] a(3) by (simp add: valid_entry_def)
    then have "valid_entry m c i" using a(3) by (simp add: valid_entry_def)
    from sub_ok_entry [OF ok c a(1) this]
    show "length js < l" "load64 m' (pte_at c i) AND (PTE_R OR PTE_W OR PTE_X) = 0"
      unfolding ee by blast+
  qed
qed

section \<open>freewalk frees a subtree\<close>

text \<open>The pages of \<open>F\<close> have been added to the free list; nothing outside \<open>F \<union> W\<close> was written.\<close>

definition freed :: "uint64 set \<Rightarrow> uint64 set \<Rightarrow> 'a kmem_scheme \<Rightarrow> 'a kmem_scheme \<Rightarrow> bool" where
  "freed F W s t \<longleftrightarrow> kmem_inv t \<and> same_rest s t \<and> free_pages t = free_pages s \<union> F
     \<and> (\<forall>p. page_aligned p \<longrightarrow> p \<notin> F \<union> W \<longrightarrow> same_page (mem s) (mem t) p)"

lemma freed_trans:
  assumes "freed F W s t" and "freed G W t u"
  shows "freed (F \<union> G) W s u"
  using assms same_rest_trans [of s t u] same_page_trans [of "mem s" "mem t" _ "mem u"]
  by (simp add: freed_def Un_assoc)

lemma freed_store:
  assumes "freed F {} s t" and "page_aligned b" and "b \<notin> free_pages t" and "unat i < 512"
  shows "freed F {b} s (t\<lparr>mem := store64 (mem t) (pte_at b i) v\<rparr>)"
proof -
  have k: "kmem_inv t" using assms(1) by (simp add: freed_def)
  have "same_page (mem t) (store64 (mem t) (pte_at b i) v) p" if "p \<in> free_pages t" for p
    using that assms(2-4) km.avail_pages [OF k] kpages_aligned [of p t]
    by (intro same_page_store) auto
  from kmem_frame [OF k this] show ?thesis
    using assms same_page_store [OF _ assms(2) _ assms(4)] same_page_trans [of "mem s" "mem t"]
    by (simp add: freed_def)
qed

lemma freed_mono: "freed F W s t \<Longrightarrow> W \<subseteq> V \<Longrightarrow> freed F V s t"
  unfolding freed_def by blast

text \<open>The pages freed by the first \<open>i\<close> rounds of the loop over a table.\<close>

definition freed_below :: "bytes \<Rightarrow> uint64 \<Rightarrow> nat \<Rightarrow> nat \<Rightarrow> uint64 set" where
  "freed_below m b l i = (\<Union>j \<in> {j. j < i \<and> valid_entry m b (of_nat j)}. subt m (child m b (of_nat j)) l)"

lemma freed_below_Suc:
  "freed_below m b l (Suc i) =
     freed_below m b l i \<union> (if valid_entry m b (of_nat i) then subt m (child m b (of_nat i)) l else {})"
  by (auto simp: freed_below_def less_Suc_eq)

lemma index_of_nat: "i < 512 \<Longrightarrow> unat (of_nat i :: uint64) = i"
  by (rule unat_of_nat_small) simp

lemma subt_freed_below: "subt m b (Suc l) = insert b (freed_below m b l 512)"
proof -
  have "i \<in> of_nat ` {..<512}" if "valid_entry m b i" for i
    using that by (auto simp: valid_entry_def image_iff intro!: bexI [of _ "unat i"])
  then have "{i. valid_entry m b i} = of_nat ` {j. j < 512 \<and> valid_entry m b (of_nat j)}"
    by auto
  then show ?thesis by (simp add: subt_Suc freed_below_def)
qed

lemma freed_below_disjoint:
  assumes "sub_ok m b (Suc l)" and "i < 512" and "valid_entry m b (of_nat i)"
  shows "subt m (child m b (of_nat i)) l \<inter> insert b (freed_below m b l i) = {}"
proof -
  have "subt m (child m b (of_nat i)) l \<inter> subt m (child m b (of_nat j)) l = {}"
    if "j < i" "valid_entry m b (of_nat j)" for j
  proof (rule sub_disjoint(1) [OF assms(1,3) that(2)])
    show "of_nat i \<noteq> (of_nat j :: uint64)"
      using that(1) assms(2) index_of_nat [of i] index_of_nat [of j] by (intro neq_via_unat) simp
  qed
  moreover have "b \<notin> subt m (child m b (of_nat i)) l"
  proof
    assume "b \<in> subt m (child m b (of_nat i)) l"
    then obtain "is" where "length is \<le> l" "tbl m (child m b (of_nat i)) is = Some b"
      by (auto simp: subt_def)
    then show False
      using sub_ok_inj [OF assms(1), of "of_nat i # is" b "[]"] assms(3) by (simp add: tbl_Cons)
  qed
  ultimately show ?thesis by (auto simp: freed_below_def)
qed

lemma root_not_below:
  assumes "sub_ok m b (Suc l)" and "i \<le> 512"
  shows "b \<notin> freed_below m b l i"
proof
  assume "b \<in> freed_below m b l i"
  then obtain j where "j < i" "valid_entry m b (of_nat j)" "b \<in> subt m (child m b (of_nat j)) l"
    by (auto simp: freed_below_def)
  with freed_below_disjoint [OF assms(1), of j] assms(2) show False by auto
qed

lemma kfree_freed:
  assumes "freed F {b} s t" and "b \<in> kpages s - free_pages s - F"
  shows "\<exists>u. kfree b t = Ok u \<and> freed (insert b F) {} s u"
proof -
  have k: "kmem_inv t" and b: "b \<in> kpages t - free_pages t"
    using assms same_rest_kpages [of s t] by (auto simp: freed_def)
  obtain u where u: "kfree b t = Ok u" "kmem_inv u" "free_pages u = insert b (free_pages t)" "same_rest t u"
    "\<And>p. page_aligned p \<Longrightarrow> p \<noteq> b \<Longrightarrow> same_page (mem t) (mem u) p"
    using kfree_page [OF k b] by blast
  then show ?thesis
    using assms same_rest_trans [of s t u] same_page_trans [of "mem s" "mem t" _ "mem u"]
    by (auto simp: freed_def)
qed

text \<open>One round of the loop: entry \<open>i\<close> is skipped or its subtree is freed.\<close>

definition freewalk_inv :: "uint64 \<Rightarrow> nat \<Rightarrow> 'a kmem_scheme \<Rightarrow> nat \<Rightarrow> 'a kmem_scheme \<Rightarrow> bool" where
  "freewalk_inv b l s i t \<longleftrightarrow> freed (freed_below (mem s) b l i) {b} s t
     \<and> (\<forall>k. i \<le> k \<longrightarrow> k < 512 \<longrightarrow>
          load64 (mem t) (pte_at b (of_nat k)) = load64 (mem s) (pte_at b (of_nat k)))"

lemma freewalk_child:
  assumes IH: "\<And>b (s :: 'a kmem_scheme). kmem_inv s \<Longrightarrow> sub_ok (mem s) b l \<Longrightarrow>
      subt (mem s) b l \<subseteq> kpages s - free_pages s \<Longrightarrow> \<exists>t. freewalk (Suc l) b s = Ok t \<and> freed (subt (mem s) b l) {} s t"
    and ok: "sub_ok (mem s) b (Suc l)" and pg: "subt (mem s) b (Suc l) \<subseteq> kpages s - free_pages s"
    and inv: "freewalk_inv b l s i (t :: 'a kmem_scheme)" and i: "i < 512"
    and v: "valid_entry (mem s) b (of_nat i)"
  shows "\<exists>u. freewalk (Suc l) (child (mem s) b (of_nat i)) t = Ok u \<and>
    freewalk_inv b l s (Suc i) (u\<lparr>mem := store64 (mem u) (pte_at b (of_nat i)) 0\<rparr>)"
proof -
  let ?c = "child (mem s) b (of_nat i)" and ?F = "freed_below (mem s) b l i"
  have T: "kmem_inv t" "kpages t = kpages s" "free_pages t = free_pages s \<union> ?F"
    "\<And>p. page_aligned p \<Longrightarrow> p \<notin> ?F \<union> {b} \<Longrightarrow> same_page (mem s) (mem t) p"
    using inv same_rest_kpages [of s t] by (simp_all add: freewalk_inv_def freed_def)
  have disj: "subt (mem s) ?c l \<inter> insert b ?F = {}" by (rule freed_below_disjoint [OF ok i v])
  have sub: "subt (mem s) ?c l \<subseteq> kpages s - free_pages s" using subt_child [OF v] pg by blast
  have al: "page_aligned p" if "p \<in> subt (mem s) b (Suc l)" for p
    using sub_ok_aligned [OF ok that] .
  have same: "same_page (mem s) (mem t) p" if "p \<in> subt (mem s) ?c l" for p
    using that disj al [OF subt_child [OF v that]] by (intro T(4)) auto
  note S = sub_same [OF same]
  have "\<exists>u. freewalk (Suc l) ?c t = Ok u \<and> freed (subt (mem t) ?c l) {} t u"
    using S(2,3) sub_ok_child [OF ok v] sub T(2,3) disj by (intro IH T(1)) auto
  then obtain u where u: "freewalk (Suc l) ?c t = Ok u" "freed (subt (mem s) ?c l) {} t u"
    using S(2) by auto
  have b: "page_aligned b" "b \<notin> free_pages s \<union> ?F \<union> subt (mem s) ?c l"
    using al [OF subt_self] pg subt_self [of b "mem s" "Suc l"] disj root_not_below [OF ok, of i] i
    by auto
  let ?u = "u\<lparr>mem := store64 (mem u) (pte_at b (of_nat i)) 0\<rparr>"
  have "b \<notin> free_pages u" using u(2) b(2) T(3) by (simp add: freed_def)
  from freed_store [OF u(2) b(1) this, of "of_nat i" 0] i
  have "freed (subt (mem s) ?c l) {b} t ?u" by (simp add: index_of_nat)
  with inv have "freed (freed_below (mem s) b l (Suc i)) {b} s ?u"
    using freed_trans v by (auto simp: freewalk_inv_def freed_below_Suc)
  moreover have "load64 (mem ?u) (pte_at b (of_nat k)) = load64 (mem s) (pte_at b (of_nat k))"
    if k: "Suc i \<le> k" "k < 512" for k
  proof -
    have "same_page (mem t) (mem u) b" using u(2) b by (simp add: freed_def)
    moreover have "(of_nat k :: uint64) \<noteq> of_nat i"
      using k i by (intro neq_via_unat) (simp add: index_of_nat)
    ultimately show ?thesis
      using inv k i same_page_entry [of "mem t" "mem u" b "of_nat k"]
      by (simp add: load64_store64_entry index_of_nat freewalk_inv_def)
  qed
  ultimately show ?thesis using u(1) by (auto simp: freewalk_inv_def)
qed

lemma freewalk_table:
  assumes "for_each (freewalk_entry (freewalk l) b) [0..<512] s = Ok t"
    and "freed F {b} s t" and "b \<in> kpages s - free_pages s - F"
  shows "\<exists>u. freewalk (Suc l) b s = Ok u \<and> freed (insert b F) {} s u"
  using kfree_freed [OF assms(2,3)] assms(1) by simp

lemma freewalk_round:
  assumes IH: "\<And>b (s :: 'a kmem_scheme). kmem_inv s \<Longrightarrow> sub_ok (mem s) b l \<Longrightarrow>
      subt (mem s) b l \<subseteq> kpages s - free_pages s \<Longrightarrow> \<exists>t. freewalk (Suc l) b s = Ok t \<and> freed (subt (mem s) b l) {} s t"
    and ok: "sub_ok (mem s) b (Suc l)" and pg: "subt (mem s) b (Suc l) \<subseteq> kpages s - free_pages s"
    and t: "freewalk_inv b l s i (t :: 'a kmem_scheme)" and i: "i < 512"
  shows "\<exists>t'. freewalk_entry (freewalk (Suc l)) b i t = Ok t' \<and> freewalk_inv b l s (Suc i) t'"
proof -
  have e: "load64 (mem t) (pte_at b (of_nat i)) = load64 (mem s) (pte_at b (of_nat i))"
    using t i by (simp add: freewalk_inv_def)
  show ?thesis
  proof (cases "valid_entry (mem s) b (of_nat i)")
    case True
    then have "load64 (mem s) (pte_at b (of_nat i)) AND (PTE_R OR PTE_W OR PTE_X) = 0"
      "load64 (mem s) (pte_at b (of_nat i)) AND PTE_V \<noteq> 0"
      using sub_ok_entry [OF ok, of "[]" b] by (simp_all add: valid_entry_def)
    with e have "freewalk_entry (freewalk (Suc l)) b i t =
        rbind (freewalk (Suc l) (child (mem s) b (of_nat i)) t) (\<lambda>s.
          Ok (s\<lparr>mem := store64 (mem s) (pte_at b (of_nat i)) 0\<rparr>))"
      by (simp add: freewalk_entry_def child_def del: freewalk.simps)
    with freewalk_child [OF IH ok pg t i True] show ?thesis by auto
  next
    case False
    then have "load64 (mem s) (pte_at b (of_nat i)) AND PTE_V = 0"
      using i by (simp add: valid_entry_def index_of_nat)
    with e have "freewalk_entry (freewalk (Suc l)) b i t = Ok t"
      by (simp add: freewalk_entry_def del: freewalk.simps)
    with False t show ?thesis by (simp add: freewalk_inv_def freed_below_Suc)
  qed
qed

lemma freewalk_subtree:
  fixes s :: "'a kmem_scheme"
  assumes "kmem_inv s" and "sub_ok (mem s) b l" and "subt (mem s) b l \<subseteq> kpages s - free_pages s"
  shows "\<exists>t. freewalk (Suc l) b s = Ok t \<and> freed (subt (mem s) b l) {} s t"
  using assms
proof (induction l arbitrary: b s)
  case 0
  have "load64 (mem s) (pte_at b (of_nat i)) AND PTE_V = 0" if "i < 512" for i
    using sub_ok_entry [OF "0.prems"(2), of "[]" b "of_nat i"] that
    by (auto simp: valid_entry_def index_of_nat)
  then have "\<exists>t. for_each (freewalk_entry (freewalk 0) b) [0..<512] s = Ok t \<and> t = s"
    by (intro for_each_range) (auto simp: freewalk_entry_def Let_def)
  moreover have "freed {} {b} s s" using "0.prems"(1) by (simp add: freed_def)
  moreover have "subt (mem s) b 0 = {b}" by (auto simp: subt_def)
  ultimately show ?case
    using freewalk_table [where F = "{}" and l = 0 and b = b and s = s and t = s] "0.prems"(3) by simp
next
  case (Suc l)
  have "freewalk_inv b l s 0 s"
    using Suc.prems(1) by (simp add: freewalk_inv_def freed_def freed_below_def)
  then have "\<exists>t. for_each (freewalk_entry (freewalk (Suc l)) b) [0..<512] s = Ok t \<and> freewalk_inv b l s 512 t"
    by (rule for_each_range) (rule freewalk_round [OF Suc.IH Suc.prems(2,3)])
  then obtain t where t: "for_each (freewalk_entry (freewalk (Suc l)) b) [0..<512] s = Ok t"
    "freewalk_inv b l s 512 t" by blast
  have "b \<in> kpages s - free_pages s - freed_below (mem s) b l 512"
    using Suc.prems(3) subt_self [of b "mem s" "Suc l"] root_not_below [OF Suc.prems(2)] by auto
  with freewalk_table [OF t(1)] t(2) show ?case
    unfolding subt_freed_below freewalk_inv_def by blast
qed

section \<open>uvmfree\<close>

lemma tables_subt: "tables m a = subt m a 2"
  by (simp add: tables_def subt_def)

lemma index_path:
  assumes "unat i < 512" and "unat j < 512" and "unat k < 512"
  obtains n where "n < vpages" "path2 n = i" "path1 n = j" "path0 n = k"
proof
  let ?n = "unat i * 262144 + unat j * 512 + unat k"
  have d: "?n div 262144 = unat i" "?n div 512 mod 512 = unat j" "?n mod 512 = unat k"
  proof -
    have r: "unat j * 512 + unat k < 262144" using assms by linarith
    then show "?n div 262144 = unat i" by (simp add: add.assoc)
    have "?n div 512 = unat i * 512 + unat j" using assms(3) by simp
    then show "?n div 512 mod 512 = unat j" using assms(2) by simp
    have "?n = unat k + 512 * (unat i * 512 + unat j)" by simp
    then show "?n mod 512 = unat k" using assms(3) by (metis mod_mult_self2 mod_less)
  qed
  show "?n < vpages" using assms by simp
  show "path2 ?n = i" "path1 ?n = j" "path0 ?n = k"
    unfolding path2_def path1_def path0_def d by simp_all
qed

lemma tree_sub_ok:
  assumes ok: "tree_ok m a" and leaf: "\<And>n. n < vpages \<Longrightarrow> leafn m a n AND PTE_V = 0"
  shows "sub_ok m a 2"
  unfolding sub_ok_def
proof (intro conjI allI impI ballI)
  fix js ks c
  assume "length js \<le> 2" "length ks \<le> 2" "tbl m a js = Some c" "tbl m a ks = Some c"
  then show "js = ks" using tree_inj [OF ok] by blast
next
  fix c assume "c \<in> subt m a 2"
  then show "page_aligned c" using tables_aligned [OF ok] by (simp add: tables_subt)
next
  fix js k c
  assume js: "length js \<le> 2" "tbl m a js = Some c" "valid_entry m c k"
  show "length js < 2"
  proof (rule ccontr)
    assume "\<not> length js < 2"
    then obtain i j where ij: "js = [i, j]"
      using js(1) by (auto simp: length_Suc_conv numeral_2_eq_2 not_less le_Suc_eq)
    have "unat i < 512" "unat j < 512" using tbl_index [OF js(2)] ij by auto
    moreover have "unat k < 512" using js(3) by (simp add: valid_entry_def)
    ultimately obtain n where n: "n < vpages" "path2 n = i" "path1 n = j" "path0 n = k"
      by (rule index_path)
    then have "leafn m a n = load64 m (pte_at c k)" using js(2) ij by (simp add: leafn_def entry_def)
    with leaf [OF n(1)] js(3) show False by (simp add: valid_entry_def)
  qed
  then show "load64 m (pte_at c k) AND (PTE_R OR PTE_W OR PTE_X) = 0"
    using table_entry [OF ok js(2)] js(3) by (auto simp: valid_entry_def)
qed

lemma freewalk_tables:
  assumes "vm_inv s a" and "\<And>n. n < vpages \<Longrightarrow> leafn (mem s) a n AND PTE_V = 0"
  shows "\<exists>t. freewalk 3 a s = Ok t \<and> freed (tables (mem s) a) {} s t"
proof -
  have "kmem_inv s" "sub_ok (mem s) a 2" "subt (mem s) a 2 \<subseteq> kpages s - free_pages s"
    using assms tree_sub_ok by (auto simp: vm_inv_def tables_subt)
  from freewalk_subtree [OF this] show ?thesis
    by (simp add: tables_subt numeral_3_eq_3 numeral_2_eq_2)
qed

text \<open>
  \<^verbatim>\<open>uvmfree\<close> after the trampoline and the trap frame have been unmapped.
\<close>

lemma uvmfree_pages:
  assumes us: "uspace s a (npg sz)"
    and trap: "\<And>i. i \<in> trap_pages \<Longrightarrow> leafn (mem s) a i AND PTE_V = 0"
  shows "\<exists>t. uvmfree a sz s = Ok t \<and> freed (owned s a (npg sz)) {} s t"
proof -
  let ?n = "npg sz"
  have n: "?n \<le> utop" and rest: "\<And>i. ?n \<le> i \<Longrightarrow> i < vpages \<Longrightarrow> leafn (mem s) a i AND PTE_V = 0"
    using us trap by (auto simp: uspace_def)
  have up: "unat (PGROUNDUP sz div PGSIZE) = ?n - 0"
    using unat_PGROUNDUP_npg [OF n] by (simp add: unat_div)
  from uspace_unmap [OF us le0 _ up, of 0] obtain u where
    u: "uvmunmap a 0 (PGROUNDUP sz div PGSIZE) True s = Ok u" "uspace u a 0"
      "vm_unmap a (frame (mem s) a ` {0..<?n}) s u"
      "\<forall>i<vpages. leafn (mem u) a i = (if 0 \<le> i \<and> i < ?n then 0 else leafn (mem s) a i)" by auto
  have step: "\<exists>u. (if sz > 0 then uvmunmap a 0 (PGROUNDUP sz div PGSIZE) True s else Ok s) = Ok u
     \<and> vm_unmap a (frame (mem s) a ` {..<?n}) s u \<and> (\<forall>i<vpages. leafn (mem u) a i AND PTE_V = 0)"
  proof (cases "sz > 0")
    case True
    with u rest show ?thesis by (auto simp: atLeast0LessThan)
  next
    case False
    then have "sz = 0" by (simp add: word_gt_0)
    then have "?n = 0" by (simp add: npg_def)
    with False rest us show ?thesis by (auto simp: uspace_def intro: vm_unmap_refl)
  qed
  then obtain u where u: "(if sz > 0 then uvmunmap a 0 (PGROUNDUP sz div PGSIZE) True s else Ok s) = Ok u"
    "vm_unmap a (frame (mem s) a ` {..<?n}) s u" "\<forall>i<vpages. leafn (mem u) a i AND PTE_V = 0" by blast
  have U: "vm_inv u a" "tables (mem u) a = tables (mem s) a" using u(2) by (simp_all add: vm_unmap_def)
  from freewalk_tables [OF U(1)] u(3) obtain t where
    t: "freewalk 3 a u = Ok t" "freed (tables (mem u) a) {} u t" by blast
  have "freed (owned s a ?n) {} s t"
    using t(2) u(2) same_rest_trans [of s u t] same_page_trans [of "mem s" "mem u" _ "mem t"]
    by (auto simp: freed_def vm_unmap_def owned_def)
  moreover have "uvmfree a sz s = Ok t" unfolding uvmfree_def u(1) using t(1) by simp
  ultimately show ?thesis by blast
qed

section \<open>Property\<close>

text \<open>
  C5: \<^verbatim>\<open>uvmfree\<close> of an address space without trap pages returns, its recursion needs no more than
  three levels, and every page the space owned, data and page tables, is on the free list
  afterwards.
\<close>

theorem uvmfree_frees_all:
  assumes "uspace s a (npg sz)" and "\<forall>i \<in> trap_pages. leafn (mem s) a i AND PTE_V = 0"
  shows "\<exists>t. uvmfree a sz s = Ok t \<and> kmem_inv t
    \<and> free_pages t = free_pages s \<union> owned s a (npg sz)"
  using uvmfree_pages [OF assms(1)] assms(2) unfolding freed_def by blast

theorem uvmfree_frees_all_witness:
  "\<exists>t. uvmfree 0x80108000 0 demo = Ok t \<and> kmem_inv t"
proof -
  have "leafn (mem demo) 0x80108000 i = 0" for i
    by (rule uspace_empty(3) [OF demo_inv(1)])
      (use demo_root in auto)
  with uvmfree_frees_all [of demo "0x80108000" 0] demo_uspace show ?thesis by (auto simp: npg_def)
qed

end
