(* ===== verification/Proc.thy ===== *)
theory Proc
  imports Freewalk
begin

text \<open>
  The process table of \<^verbatim>\<open>kernel/proc.c\<close>: allocation and release of slots and their page tables,
  sleeping and waking, killing, and the accounting that the added schedulers read. A process
  is named by its index in \<^verbatim>\<open>proc[NPROC]\<close>. The system calls that also touch files (\<^verbatim>\<open>fork\<close>, \<^verbatim>\<open>exit\<close>,
  \<^verbatim>\<open>userinit\<close>) are in a later theory.
\<close>

section \<open>State\<close>

datatype procstate = UNUSED | USED | SLEEPING | RUNNABLE | RUNNING | ZOMBIE

record kcontext =
  ctx_ra :: uint64
  ctx_sp :: uint64
  ctx_s :: "nat \<Rightarrow> uint64"

text \<open>
  \<^verbatim>\<open>struct proc\<close>, field by field. The trap frame is a page of the byte memory, \<open>p_trapframe\<close> its
  address; \<open>p_name\<close> is the name without its terminating zero; open files and the working
  directory are indices into the file and inode tables.
\<close>

record proc =
  p_creationTime :: cint
  p_state :: procstate
  p_chan :: chan
  p_killed :: cint
  p_xstate :: cint
  p_pid :: cint
  p_parent :: "nat option"
  p_kstack :: uint64
  p_sz :: uint64
  p_pagetable :: uint64
  p_trapframe :: uint64
  p_context :: kcontext
  p_ofile :: "nat \<Rightarrow> nat option"
  p_cwd :: "nat option"
  p_name :: "uchar list"
  p_mask :: cint
  p_stat_pr :: cint
  p_sleep_time :: cint
  p_st_time :: cint
  p_run_time :: cint
  p_numOfScheduled :: cint
  p_tickets :: cint
  p_num_of_ticks :: "nat \<Rightarrow> cint"
  p_curr_queue :: cint
  p_wait_time :: cint
  p_end_time :: cint
  p_tot_run_time :: cint
  p_handler :: uint64
  p_tickss :: cint
  p_now_ticks :: cint
  p_trapframe_copy :: uint64
  p_is_sigalarm :: cint

text \<open>
  The globals of \<^verbatim>\<open>proc.c\<close> and \<^verbatim>\<open>ticks\<close>. \<open>curproc\<close> is \<^verbatim>\<open>mycpu()->proc\<close>. The last three fields are
  addresses fixed by the linker or the compiler: the trampoline page, \<^verbatim>\<open>forkret\<close>, and the place
  of a kernel variable whose bytes are handed to \<^verbatim>\<open>copyin\<close> or \<^verbatim>\<open>copyout\<close>.
\<close>

record pstate = kmem +
  procs :: "nat \<Rightarrow> proc"
  initproc :: "nat option"
  nextpid :: cint
  curproc :: "nat option"
  ticks :: uint
  seed :: cint
  queue :: "nat \<Rightarrow> nat \<Rightarrow> nat option"
  queue_ptr :: "nat \<Rightarrow> cint"
  trampoline :: uint64
  forkret_pc :: uint64
  ktmp :: uint64

definition updp :: "nat \<Rightarrow> (proc \<Rightarrow> proc) \<Rightarrow> 'a pstate_scheme \<Rightarrow> 'a pstate_scheme" where
  "updp i f s = s\<lparr>procs := (procs s)(i := f (procs s i))\<rparr>"

text \<open>\<^verbatim>\<open>myproc()\<close>; its callers dereference the result.\<close>

definition myproc :: "'a pstate_scheme \<Rightarrow> nat result" where
  "myproc s = (case curproc s of Some p \<Rightarrow> Ok p | None \<Rightarrow> Stop (Fault ''myproc''))"

section \<open>Allocation\<close>

definition procinit :: "'a pstate_scheme \<Rightarrow> 'a pstate_scheme" where
  "procinit s =
     (let s = lk_init PidLock s;
          s = lk_init WaitLock s
      in foldl (\<lambda>s i. updp i (\<lambda>p. p\<lparr>p_state := UNUSED, p_kstack := KSTACK i\<rparr>) (lk_init (ProcLock i) s))
           s [0..<NPROC])"

definition allocpid :: "'a pstate_scheme \<Rightarrow> (cint \<times> 'a pstate_scheme) result" where
  "allocpid s =
     rbind (lk_acquire PidLock s) (\<lambda>s.
     let pid = nextpid s; s = s\<lparr>nextpid := nextpid s + 1\<rparr>
     in rbind (lk_release PidLock s) (\<lambda>s. Ok (pid, s)))"

definition proc_pagetable :: "nat \<Rightarrow> 'a pstate_scheme \<Rightarrow> (uint64 \<times> 'a pstate_scheme) result" where
  "proc_pagetable p s =
     rbind (uvmcreate s) (\<lambda>(pagetable, s).
     if pagetable = 0 then Ok (0, s)
     else rbind (mappages pagetable TRAMPOLINE PGSIZE (trampoline s) (ucast (PTE_R OR PTE_X)) s) (\<lambda>(r, s).
       if sint r < 0 then rbind (uvmfree pagetable 0 s) (\<lambda>s. Ok (0, s))
       else rbind (mappages pagetable TRAPFRAME PGSIZE (p_trapframe (procs s p)) (ucast (PTE_R OR PTE_W)) s)
         (\<lambda>(r, s).
          if sint r < 0
          then rbind (uvmunmap pagetable TRAMPOLINE 1 False s) (\<lambda>s.
               rbind (uvmfree pagetable 0 s) (\<lambda>s. Ok (0, s)))
          else Ok (pagetable, s))))"

definition proc_freepagetable :: "uint64 \<Rightarrow> uint64 \<Rightarrow> 'a pstate_scheme \<Rightarrow> 'a pstate_scheme result" where
  "proc_freepagetable pagetable sz s =
     rbind (uvmunmap pagetable TRAMPOLINE 1 False s) (\<lambda>s.
     rbind (uvmunmap pagetable TRAPFRAME 1 False s) (\<lambda>s.
     uvmfree pagetable sz s))"

definition freeproc :: "nat \<Rightarrow> 'a pstate_scheme \<Rightarrow> 'a pstate_scheme result" where
  "freeproc p s =
     rbind (if p_trapframe_copy (procs s p) \<noteq> 0 then kfree (p_trapframe_copy (procs s p)) s else Ok s) (\<lambda>s.
     let s = updp p (\<lambda>q. q\<lparr>p_trapframe := 0\<rparr>) s
     in rbind (if p_pagetable (procs s p) \<noteq> 0
               then proc_freepagetable (p_pagetable (procs s p)) (p_sz (procs s p)) s else Ok s) (\<lambda>s.
        Ok (updp p (\<lambda>q. q\<lparr>p_pagetable := 0, p_sz := 0, p_pid := 0, p_parent := None, p_name := [],
              p_chan := ChNone, p_killed := 0, p_xstate := 0, p_state := UNUSED\<rparr>) s)))"

text \<open>
  \<^verbatim>\<open>queueK_ptr++; queueK[queueK_ptr] = p\<close>: the arrays have \<^verbatim>\<open>NPROC\<close> elements and the code does not
  check the index.
\<close>

definition enqueue :: "nat \<Rightarrow> nat \<Rightarrow> 'a pstate_scheme \<Rightarrow> 'a pstate_scheme result" where
  "enqueue k p s =
     (let i = queue_ptr s k + 1;
          s = s\<lparr>queue_ptr := (queue_ptr s)(k := i)\<rparr>
      in if 0 \<le> sint i \<and> sint i < int NPROC
         then Ok (s\<lparr>queue := (queue s)(k := (queue s k)(nat (sint i) := Some p))\<rparr>)
         else Stop (Fault ''queue index''))"

function allocproc_scan :: "nat \<Rightarrow> 'a pstate_scheme \<Rightarrow> (nat option \<times> 'a pstate_scheme) result" where
  "allocproc_scan i s =
     (if i < NPROC
      then rbind (lk_acquire (ProcLock i) s) (\<lambda>s.
           if p_state (procs s i) = UNUSED then Ok (Some i, s)
           else rbind (lk_release (ProcLock i) s) (allocproc_scan (Suc i)))
      else Ok (None, s))"
  by pat_completeness auto
termination
  by (relation "measure (\<lambda>(i, s). NPROC - i)") auto

definition allocproc_init :: "nat \<Rightarrow> 'a pstate_scheme \<Rightarrow> 'a pstate_scheme result" where
  "allocproc_init p s =
     rbind (allocpid s) (\<lambda>(pid, s).
     let s = updp p (\<lambda>q. q\<lparr>p_pid := pid, p_state := USED, p_creationTime := ticks s, p_st_time := 0,
               p_stat_pr := 60, p_run_time := 0, p_sleep_time := 0, p_numOfScheduled := 0,
               p_tickets := 1, p_curr_queue := 0\<rparr>) s
     in rbind (enqueue 0 p s) (\<lambda>s.
        Ok (updp p (\<lambda>q. q\<lparr>p_num_of_ticks := (p_num_of_ticks q)(0 := 0, 1 := 0, 2 := 0, 3 := 0, 4 := 0),
                          p_wait_time := 3\<rparr>) s)))"

definition allocproc :: "'a pstate_scheme \<Rightarrow> (nat option \<times> 'a pstate_scheme) result" where
  "allocproc s =
     rbind (allocproc_scan 0 s) (\<lambda>(found, s). case found of
       None \<Rightarrow> Ok (None, s)
     | Some p \<Rightarrow>
       rbind (allocproc_init p s) (\<lambda>s.
       rbind (kalloc s) (\<lambda>(pa, s).
       let s = updp p (\<lambda>q. q\<lparr>p_trapframe := pa\<rparr>) s
       in if pa = 0
          then rbind (freeproc p s) (\<lambda>s.
               rbind (lk_release (ProcLock p) s) (\<lambda>s. Ok (None, s)))
          else rbind (proc_pagetable p s) (\<lambda>(pt, s).
               let s = updp p (\<lambda>q. q\<lparr>p_pagetable := pt\<rparr>) s
               in if pt = 0
                  then rbind (freeproc p s) (\<lambda>s.
                       rbind (lk_release (ProcLock p) s) (\<lambda>s. Ok (None, s)))
                  else let s = updp p (\<lambda>q. q\<lparr>p_context :=
                             \<lparr>ctx_ra = forkret_pc s, ctx_sp = p_kstack q + PGSIZE, ctx_s = (\<lambda>_. 0)\<rparr>\<rparr>) s
                       in rbind (kalloc s) (\<lambda>(pa, s).
                          let s = updp p (\<lambda>q. q\<lparr>p_trapframe_copy := pa\<rparr>) s
                          in if pa = 0
                             then rbind (lk_release (ProcLock p) s) (\<lambda>s. Ok (None, s))
                             else Ok (Some p, updp p (\<lambda>q. q\<lparr>p_is_sigalarm := 0, p_tickss := 0,
                                    p_now_ticks := 0, p_handler := 0\<rparr>) s))))))"

definition growproc :: "cint \<Rightarrow> 'a pstate_scheme \<Rightarrow> (cint \<times> 'a pstate_scheme) result" where
  "growproc n s =
     rbind (myproc s) (\<lambda>p.
     let sz = p_sz (procs s p)
     in if sint n > 0
        then rbind (uvmalloc (p_pagetable (procs s p)) sz (sz + scast n) (ucast PTE_W) s) (\<lambda>(sz, s).
             if sz = 0 then Ok (-1, s) else Ok (0, updp p (\<lambda>q. q\<lparr>p_sz := sz\<rparr>) s))
        else if sint n < 0
        then rbind (uvmdealloc (p_pagetable (procs s p)) sz (sz + scast n) s) (\<lambda>(sz, s).
             Ok (0, updp p (\<lambda>q. q\<lparr>p_sz := sz\<rparr>) s))
        else Ok (0, updp p (\<lambda>q. q\<lparr>p_sz := sz\<rparr>) s))"

section \<open>Sleeping and waking\<close>

text \<open>
  What happens between \<^verbatim>\<open>swtch\<close> to the scheduler and the return from it, on this hart and the
  others, is the parameter \<open>others\<close>. The checks of \<^verbatim>\<open>sched\<close> come first. \<^verbatim>\<open>noff\<close> counts the locks held;
  interrupts are off while a lock is held, so the last check of the source cannot fail here.
\<close>

definition sched :: "('a pstate_scheme \<Rightarrow> 'a pstate_scheme result) \<Rightarrow> 'a pstate_scheme \<Rightarrow> 'a pstate_scheme result" where
  "sched others s =
     rbind (myproc s) (\<lambda>p.
       if ProcLock p \<notin> held s then Stop (Panic ''sched p->lock'')
       else if card (held s) \<noteq> 1 then Stop (Panic ''sched locks'')
       else if p_state (procs s p) = RUNNING then Stop (Panic ''sched running'')
       else others s)"

definition yield :: "('a pstate_scheme \<Rightarrow> 'a pstate_scheme result) \<Rightarrow> 'a pstate_scheme \<Rightarrow> 'a pstate_scheme result" where
  "yield others s =
     rbind (myproc s) (\<lambda>p.
     rbind (lk_acquire (ProcLock p) s) (\<lambda>s.
     let s = updp p (\<lambda>q. q\<lparr>p_state := RUNNABLE\<rparr>) s
     in rbind (sched others s) (lk_release (ProcLock p))))"

definition sleep :: "('a pstate_scheme \<Rightarrow> 'a pstate_scheme result) \<Rightarrow> chan \<Rightarrow> lockid
    \<Rightarrow> 'a pstate_scheme \<Rightarrow> 'a pstate_scheme result" where
  "sleep others ch lk s =
     rbind (myproc s) (\<lambda>p.
     rbind (lk_acquire (ProcLock p) s) (\<lambda>s.
     rbind (lk_release lk s) (\<lambda>s.
     let s = updp p (\<lambda>q. q\<lparr>p_chan := ch, p_state := SLEEPING\<rparr>) s
     in rbind (sched others s) (\<lambda>s.
        let s = updp p (\<lambda>q. q\<lparr>p_chan := ChNone\<rparr>) s
        in rbind (lk_release (ProcLock p) s) (lk_acquire lk)))))"

definition wakeup_one :: "chan \<Rightarrow> nat \<Rightarrow> 'a pstate_scheme \<Rightarrow> 'a pstate_scheme result" where
  "wakeup_one ch i s =
     (if curproc s \<noteq> Some i
      then rbind (lk_acquire (ProcLock i) s) (\<lambda>s.
           let s = (if p_state (procs s i) = SLEEPING \<and> p_chan (procs s i) = ch
                    then updp i (\<lambda>q. q\<lparr>p_state := RUNNABLE\<rparr>) s else s)
           in lk_release (ProcLock i) s)
      else Ok s)"

definition wakeup :: "chan \<Rightarrow> 'a pstate_scheme \<Rightarrow> 'a pstate_scheme result" where
  "wakeup ch s = for_each (wakeup_one ch) [0..<NPROC] s"

section \<open>Killing\<close>

function kill_from :: "nat \<Rightarrow> cint \<Rightarrow> 'a pstate_scheme \<Rightarrow> (cint \<times> 'a pstate_scheme) result" where
  "kill_from i pid s =
     (if i < NPROC
      then rbind (lk_acquire (ProcLock i) s) (\<lambda>s.
           if p_pid (procs s i) = pid
           then let s = updp i (\<lambda>q. q\<lparr>p_killed := 1\<rparr>) s;
                    s = (if p_state (procs s i) = SLEEPING
                         then updp i (\<lambda>q. q\<lparr>p_state := RUNNABLE\<rparr>) s else s)
                in rbind (lk_release (ProcLock i) s) (\<lambda>s. Ok (0, s))
           else rbind (lk_release (ProcLock i) s) (kill_from (Suc i) pid))
      else Ok (-1, s))"
  by pat_completeness auto
termination
  by (relation "measure (\<lambda>(i, pid, s). NPROC - i)") auto

definition kill :: "cint \<Rightarrow> 'a pstate_scheme \<Rightarrow> (cint \<times> 'a pstate_scheme) result" where
  "kill pid s = kill_from 0 pid s"

definition setkilled :: "nat \<Rightarrow> 'a pstate_scheme \<Rightarrow> 'a pstate_scheme result" where
  "setkilled p s =
     rbind (lk_acquire (ProcLock p) s) (\<lambda>s.
     lk_release (ProcLock p) (updp p (\<lambda>q. q\<lparr>p_killed := 1\<rparr>) s))"

definition killed :: "nat \<Rightarrow> 'a pstate_scheme \<Rightarrow> (cint \<times> 'a pstate_scheme) result" where
  "killed p s =
     rbind (lk_acquire (ProcLock p) s) (\<lambda>s.
     let k = p_killed (procs s p)
     in rbind (lk_release (ProcLock p) s) (\<lambda>s. Ok (k, s)))"

section \<open>Copies to either address space\<close>

definition either_copyout :: "bool \<Rightarrow> uint64 \<Rightarrow> uint64 \<Rightarrow> uint64 \<Rightarrow> 'a pstate_scheme
    \<Rightarrow> (cint \<times> 'a pstate_scheme) result" where
  "either_copyout user_dst dst src len s =
     rbind (myproc s) (\<lambda>p.
     if user_dst then copyout (p_pagetable (procs s p)) dst src len s
     else Ok (0, s\<lparr>mem := memmove (mem s) dst src (ucast len)\<rparr>))"

definition either_copyin :: "uint64 \<Rightarrow> bool \<Rightarrow> uint64 \<Rightarrow> uint64 \<Rightarrow> 'a pstate_scheme
    \<Rightarrow> (cint \<times> 'a pstate_scheme) result" where
  "either_copyin dst user_src src len s =
     rbind (myproc s) (\<lambda>p.
     if user_src then copyin (p_pagetable (procs s p)) dst src len s
     else Ok (0, s\<lparr>mem := memmove (mem s) dst src (ucast len)\<rparr>))"

section \<open>Waiting for children\<close>

text \<open>
  One scan of the table by \<^verbatim>\<open>wait\<close>: it reaps a zombie child, fails to copy out its status, or
  reports whether there are children. The status is copied from the bytes of \<^verbatim>\<open>pp->xstate\<close>.
\<close>

datatype 'r scan = Reaped 'r | Failed | Scanned bool

definition copyout_int :: "uint64 \<Rightarrow> uint64 \<Rightarrow> cint \<Rightarrow> 'a pstate_scheme \<Rightarrow> (cint \<times> 'a pstate_scheme) result" where
  "copyout_int pt addr v s = copyout pt addr (ktmp s) 4 (s\<lparr>mem := store32 (mem s) (ktmp s) v\<rparr>)"

definition wait_reap :: "nat \<Rightarrow> uint64 \<Rightarrow> nat \<Rightarrow> 'a pstate_scheme \<Rightarrow> (bool \<times> 'a pstate_scheme) result" where
  "wait_reap p addr pp s =
     rbind (if addr \<noteq> 0
            then rbind (copyout_int (p_pagetable (procs s p)) addr (p_xstate (procs s pp)) s) (\<lambda>(r, s).
                 Ok (sint r < 0, s))
            else Ok (False, s)) (\<lambda>(bad, s).
     if bad
     then rbind (lk_release (ProcLock pp) s) (\<lambda>s.
          rbind (lk_release WaitLock s) (\<lambda>s. Ok (False, s)))
     else rbind (freeproc pp s) (\<lambda>s.
          rbind (lk_release (ProcLock pp) s) (\<lambda>s.
          rbind (lk_release WaitLock s) (\<lambda>s. Ok (True, s)))))"

function wait_scan :: "nat \<Rightarrow> uint64 \<Rightarrow> nat \<Rightarrow> bool \<Rightarrow> 'a pstate_scheme
    \<Rightarrow> (cint scan \<times> 'a pstate_scheme) result" where
  "wait_scan p addr pp havekids s =
     (if pp < NPROC
      then if p_parent (procs s pp) = Some p
           then rbind (lk_acquire (ProcLock pp) s) (\<lambda>s.
                if p_state (procs s pp) = ZOMBIE
                then let pid = p_pid (procs s pp)
                     in rbind (wait_reap p addr pp s) (\<lambda>(ok, s).
                        Ok (if ok then Reaped pid else Failed, s))
                else rbind (lk_release (ProcLock pp) s) (wait_scan p addr (Suc pp) True))
           else wait_scan p addr (Suc pp) havekids s
      else Ok (Scanned havekids, s))"
  by pat_completeness auto
termination
  by (relation "measure (\<lambda>(p, addr, pp, havekids, s). NPROC - pp)") auto

text \<open>The \<^verbatim>\<open>for(;;)\<close> of \<^verbatim>\<open>wait\<close>; a round that sleeps costs one unit of fuel.\<close>

primrec wait_loop :: "nat \<Rightarrow> ('a pstate_scheme \<Rightarrow> 'a pstate_scheme result) \<Rightarrow> nat \<Rightarrow> uint64
    \<Rightarrow> 'a pstate_scheme \<Rightarrow> (cint \<times> 'a pstate_scheme) result" where
  "wait_loop 0 others p addr s = Stop OutOfFuel"
| "wait_loop (Suc fuel) others p addr s =
     rbind (wait_scan p addr 0 False s) (\<lambda>(r, s). case r of
       Reaped pid \<Rightarrow> Ok (pid, s)
     | Failed \<Rightarrow> Ok (-1, s)
     | Scanned havekids \<Rightarrow>
       rbind (if havekids then killed p s else Ok (1, s)) (\<lambda>(k, s).
       if k \<noteq> 0 then rbind (lk_release WaitLock s) (\<lambda>s. Ok (-1, s))
       else rbind (sleep others (ChProc p) WaitLock s) (wait_loop fuel others p addr)))"

definition wait :: "nat \<Rightarrow> ('a pstate_scheme \<Rightarrow> 'a pstate_scheme result) \<Rightarrow> uint64
    \<Rightarrow> 'a pstate_scheme \<Rightarrow> (cint \<times> 'a pstate_scheme) result" where
  "wait fuel others addr s =
     rbind (myproc s) (\<lambda>p.
     rbind (lk_acquire WaitLock s) (wait_loop fuel others p addr))"

text \<open>
  \<^verbatim>\<open>waitx\<close> is \<^verbatim>\<open>wait\<close> with the times of the child; it reads \<^verbatim>\<open>p->killed\<close> without the lock. The results
  are \<^verbatim>\<open>*rtime\<close> and \<^verbatim>\<open>*wtime\<close>, left as they were unless a zombie is found.
\<close>

function waitx_scan :: "nat \<Rightarrow> uint64 \<Rightarrow> nat \<Rightarrow> bool \<Rightarrow> uint \<times> uint \<Rightarrow> 'a pstate_scheme
    \<Rightarrow> ((cint scan \<times> uint \<times> uint) \<times> 'a pstate_scheme) result" where
  "waitx_scan p addr np havekids tms s =
     (if np < NPROC
      then if p_parent (procs s np) = Some p
           then rbind (lk_acquire (ProcLock np) s) (\<lambda>s.
                if p_state (procs s np) = ZOMBIE
                then let q = procs s np; pid = p_pid q;
                         rtime = p_tot_run_time q;
                         wtime = p_end_time q - (p_creationTime q + p_tot_run_time q)
                     in rbind (wait_reap p addr np s) (\<lambda>(ok, s).
                        Ok ((if ok then Reaped pid else Failed, rtime, wtime), s))
                else rbind (lk_release (ProcLock np) s) (waitx_scan p addr (Suc np) True tms))
           else waitx_scan p addr (Suc np) havekids tms s
      else Ok ((Scanned havekids, tms), s))"
  by pat_completeness auto
termination
  by (relation "measure (\<lambda>(p, addr, np, havekids, tms, s). NPROC - np)") auto

primrec waitx_loop :: "nat \<Rightarrow> ('a pstate_scheme \<Rightarrow> 'a pstate_scheme result) \<Rightarrow> nat \<Rightarrow> uint64 \<Rightarrow> uint \<times> uint
    \<Rightarrow> 'a pstate_scheme \<Rightarrow> ((cint \<times> uint \<times> uint) \<times> 'a pstate_scheme) result" where
  "waitx_loop 0 others p addr tms s = Stop OutOfFuel"
| "waitx_loop (Suc fuel) others p addr tms s =
     rbind (waitx_scan p addr 0 False tms s) (\<lambda>((r, tms), s). case r of
       Reaped pid \<Rightarrow> Ok ((pid, tms), s)
     | Failed \<Rightarrow> Ok ((-1, tms), s)
     | Scanned havekids \<Rightarrow>
       if \<not> havekids \<or> p_killed (procs s p) \<noteq> 0
       then rbind (lk_release WaitLock s) (\<lambda>s. Ok ((-1, tms), s))
       else rbind (sleep others (ChProc p) WaitLock s) (waitx_loop fuel others p addr tms))"

definition waitx :: "nat \<Rightarrow> ('a pstate_scheme \<Rightarrow> 'a pstate_scheme result) \<Rightarrow> uint64 \<Rightarrow> uint \<times> uint
    \<Rightarrow> 'a pstate_scheme \<Rightarrow> ((cint \<times> uint \<times> uint) \<times> 'a pstate_scheme) result" where
  "waitx fuel others addr tms s =
     rbind (myproc s) (\<lambda>p.
     rbind (lk_acquire WaitLock s) (waitx_loop fuel others p addr tms))"

section \<open>Priorities and accounting\<close>

function setPriority_from :: "nat \<Rightarrow> ('a pstate_scheme \<Rightarrow> 'a pstate_scheme result) \<Rightarrow> cint \<Rightarrow> cint
    \<Rightarrow> 'a pstate_scheme \<Rightarrow> (cint \<times> 'a pstate_scheme) result" where
  "setPriority_from i others priority pid s =
     (if i < NPROC
      then rbind (lk_acquire (ProcLock i) s) (\<lambda>s.
           if p_pid (procs s i) = pid
           then let val = p_stat_pr (procs s i);
                    s = updp i (\<lambda>q. q\<lparr>p_stat_pr := priority, p_run_time := 0, p_sleep_time := 0\<rparr>) s
                in rbind (lk_release (ProcLock i) s) (\<lambda>s.
                   rbind (if sint val > sint priority then yield others s else Ok s) (\<lambda>s.
                   Ok (val, s)))
           else rbind (lk_release (ProcLock i) s) (setPriority_from (Suc i) others priority pid))
      else Ok (-1, s))"
  by pat_completeness auto
termination
  by (relation "measure (\<lambda>(i, others, priority, pid, s). NPROC - i)") auto

definition setPriority :: "('a pstate_scheme \<Rightarrow> 'a pstate_scheme result) \<Rightarrow> cint \<Rightarrow> cint
    \<Rightarrow> 'a pstate_scheme \<Rightarrow> (cint \<times> 'a pstate_scheme) result" where
  "setPriority others priority pid s = setPriority_from 0 others priority pid s"

definition updateTime_one :: "nat \<Rightarrow> 'a pstate_scheme \<Rightarrow> 'a pstate_scheme result" where
  "updateTime_one i s =
     rbind (lk_acquire (ProcLock i) s) (\<lambda>s.
     let s = (if p_state (procs s i) = RUNNING
              then updp i (\<lambda>q. q\<lparr>p_run_time := p_run_time q + 1, p_tot_run_time := p_tot_run_time q + 1\<rparr>) s
              else s);
         s = (if p_state (procs s i) = SLEEPING
              then updp i (\<lambda>q. q\<lparr>p_sleep_time := p_sleep_time q + 1\<rparr>) s else s)
     in lk_release (ProcLock i) s)"

definition updateTime :: "'a pstate_scheme \<Rightarrow> 'a pstate_scheme result" where
  "updateTime s = for_each updateTime_one [0..<NPROC] s"

definition reparent_one :: "nat \<Rightarrow> nat \<Rightarrow> 'a pstate_scheme \<Rightarrow> 'a pstate_scheme result" where
  "reparent_one p pp s =
     (if p_parent (procs s pp) = Some p
      then let s = updp pp (\<lambda>q. q\<lparr>p_parent := initproc s\<rparr>) s
           in (case initproc s of Some i \<Rightarrow> wakeup (ChProc i) s | None \<Rightarrow> wakeup ChNone s)
      else Ok s)"

definition reparent :: "nat \<Rightarrow> 'a pstate_scheme \<Rightarrow> 'a pstate_scheme result" where
  "reparent p s = for_each (reparent_one p) [0..<NPROC] s"

end
