(* ===== verification/Procspec.thy ===== *)
theory Procspec
  imports Proc
begin

text \<open>
  What the operations on the process table do: \<^verbatim>\<open>wakeup\<close> and \<^verbatim>\<open>kill\<close> change exactly the processes
  they should, \<^verbatim>\<open>updateTime\<close> charges the right counters, \<^verbatim>\<open>wait\<close> returns at once when there is
  nothing to wait for, and the page table of a process is built and taken down without losing
  a page. The trap frame page, however, is never freed.
\<close>

declare allocproc_scan.simps [simp del] kill_from.simps [simp del] wait_scan.simps [simp del]
  waitx_scan.simps [simp del] setPriority_from.simps [simp del]

lemma updp_simps [simp]:
  "procs (updp i f s) = (procs s)(i := f (procs s i))" "held (updp i f s) = held s"
  "curproc (updp i f s) = curproc s" "mem (updp i f s) = mem s" "kend (updp i f s) = kend s"
  "freelist (updp i f s) = freelist s" "nextpid (updp i f s) = nextpid s" "ticks (updp i f s) = ticks s"
  "initproc (updp i f s) = initproc s" "queue (updp i f s) = queue s" "queue_ptr (updp i f s) = queue_ptr s"
  "ktmp (updp i f s) = ktmp s" "trampoline (updp i f s) = trampoline s" "forkret_pc (updp i f s) = forkret_pc s"
  "seed (updp i f s) = seed s"
  by (simp_all add: updp_def)

section \<open>Waking\<close>

definition wakes :: "chan \<Rightarrow> 'a pstate_scheme \<Rightarrow> nat \<Rightarrow> bool" where
  "wakes ch s i \<longleftrightarrow> curproc s \<noteq> Some i \<and> p_state (procs s i) = SLEEPING \<and> p_chan (procs s i) = ch"

text \<open>The caller holds no process lock, except possibly its own.\<close>

definition no_proc_lock :: "'a pstate_scheme \<Rightarrow> bool" where
  "no_proc_lock s \<longleftrightarrow> (\<forall>i < NPROC. curproc s \<noteq> Some i \<longrightarrow> ProcLock i \<notin> held s)"

lemma wakeup_one_eq:
  assumes "ProcLock i \<notin> held s \<or> curproc s = Some i"
  shows "wakeup_one ch i s =
    Ok (if wakes ch s i then updp i (\<lambda>q. q\<lparr>p_state := RUNNABLE\<rparr>) s else s)"
  using assms by (auto simp: wakeup_one_def wakes_def run_simps updp_def Let_def)

lemma wakeup_eq:
  assumes "no_proc_lock s"
  shows "wakeup ch s = Ok (s\<lparr>procs := (\<lambda>i. if i < NPROC \<and> wakes ch s i
    then (procs s i)\<lparr>p_state := RUNNABLE\<rparr> else procs s i)\<rparr>)"
proof -
  let ?st = "\<lambda>n. s\<lparr>procs := (\<lambda>i. if i < n \<and> wakes ch s i
    then (procs s i)\<lparr>p_state := RUNNABLE\<rparr> else procs s i)\<rparr>"
  have "\<exists>t. for_each (wakeup_one ch) [0..<NPROC] s = Ok t \<and> t = ?st NPROC"
  proof (rule for_each_range)
    fix i t assume i: "i < NPROC" and t: "t = ?st i"
    have w: "wakes ch t i = wakes ch s i" by (simp add: t wakes_def)
    have "(if wakes ch t i then updp i (\<lambda>q. q\<lparr>p_state := RUNNABLE\<rparr>) t else t) = ?st (Suc i)"
      unfolding w by (auto simp: t updp_def less_Suc_eq fun_eq_iff)
    moreover have "ProcLock i \<notin> held t \<or> curproc t = Some i"
      using assms i by (auto simp: no_proc_lock_def t)
    ultimately show "\<exists>t'. wakeup_one ch i t = Ok t' \<and> t' = ?st (Suc i)"
      by (simp only: wakeup_one_eq result.inject ex_simps simp_thms)
  qed simp
  then show ?thesis by (simp add: wakeup_def)
qed

text \<open>For callers that do not care who wakes up: nothing but scheduling states changes.\<close>

lemma wakeup_some:
  assumes "no_proc_lock s"
  obtains P where "wakeup ch s = Ok (s\<lparr>procs := P\<rparr>)"
    "\<And>i. P i = procs s i \<or> P i = (procs s i)\<lparr>p_state := RUNNABLE\<rparr>"
    "\<And>i. curproc s = Some i \<Longrightarrow> P i = procs s i"
  using wakeup_eq [OF assms, of ch] by (auto simp: wakes_def)

section \<open>Killing\<close>

definition kill_effect :: "proc \<Rightarrow> proc" where
  "kill_effect q = q\<lparr>p_killed := 1,
     p_state := (if p_state q = SLEEPING then RUNNABLE else p_state q)\<rparr>"

lemma kill_from_eq:
  assumes "\<forall>j < NPROC. ProcLock j \<notin> held s"
  shows "kill_from i pid s =
    (if \<exists>j. i \<le> j \<and> j < NPROC \<and> p_pid (procs s j) = pid
     then Ok (0, updp (LEAST j. i \<le> j \<and> p_pid (procs s j) = pid) kill_effect s)
     else Ok (-1, s))"
  using assms
proof (induction i pid s rule: kill_from.induct)
  case (1 i pid s)
  show ?case
  proof (cases "i < NPROC")
    case True
    then have nl: "ProcLock i \<notin> held s" using "1.prems" by blast
    show ?thesis
    proof (cases "p_pid (procs s i) = pid")
      case found: True
      then have "(LEAST j. i \<le> j \<and> p_pid (procs s j) = pid) = i"
        by (intro Least_equality) auto
      moreover have "kill_from i pid s = Ok (0, updp i kill_effect s)"
        using True nl found
        by (subst kill_from.simps) (auto simp: run_simps updp_def kill_effect_def Let_def)
      ultimately show ?thesis using True found by auto
    next
      case False
      have step: "kill_from i pid s = kill_from (Suc i) pid s"
        using True nl False by (subst kill_from.simps) (simp add: run_simps)
      have "kill_from (Suc i) pid s =
        (if \<exists>j. Suc i \<le> j \<and> j < NPROC \<and> p_pid (procs s j) = pid
         then Ok (0, updp (LEAST j. Suc i \<le> j \<and> p_pid (procs s j) = pid) kill_effect s)
         else Ok (-1, s))"
        using "1.IH" [OF True, of "s\<lparr>held := insert (ProcLock i) (held s)\<rparr>" s] nl False "1.prems"
        by (simp add: run_simps)
      moreover have "i \<le> j \<and> p_pid (procs s j) = pid \<longleftrightarrow> Suc i \<le> j \<and> p_pid (procs s j) = pid" for j
        using False by (cases "i = j") auto
      then have "(LEAST j. i \<le> j \<and> p_pid (procs s j) = pid) = (LEAST j. Suc i \<le> j \<and> p_pid (procs s j) = pid)"
        "(\<exists>j. i \<le> j \<and> j < NPROC \<and> p_pid (procs s j) = pid) \<longleftrightarrow>
         (\<exists>j. Suc i \<le> j \<and> j < NPROC \<and> p_pid (procs s j) = pid)"
        by (simp_all only:) blast
      ultimately show ?thesis unfolding step by (simp only:)
    qed
  next
    case False
    then show ?thesis by (subst kill_from.simps) auto
  qed
qed

section \<open>Accounting\<close>

definition charge :: "proc \<Rightarrow> proc" where
  "charge q = (case p_state q of
     RUNNING \<Rightarrow> q\<lparr>p_run_time := p_run_time q + 1, p_tot_run_time := p_tot_run_time q + 1\<rparr>
   | SLEEPING \<Rightarrow> q\<lparr>p_sleep_time := p_sleep_time q + 1\<rparr>
   | _ \<Rightarrow> q)"

lemma updateTime_one_eq:
  assumes "ProcLock i \<notin> held s"
  shows "updateTime_one i s = Ok (updp i charge s)"
  using assms
  by (cases "p_state (procs s i)") (simp_all add: updateTime_one_def charge_def updp_def run_simps Let_def)

lemma updateTime_eq:
  assumes "\<forall>i < NPROC. ProcLock i \<notin> held s"
  shows "updateTime s = Ok (s\<lparr>procs := (\<lambda>i. if i < NPROC then charge (procs s i) else procs s i)\<rparr>)"
proof -
  let ?st = "\<lambda>n. s\<lparr>procs := (\<lambda>i. if i < n then charge (procs s i) else procs s i)\<rparr>"
  have "\<exists>t. for_each updateTime_one [0..<NPROC] s = Ok t \<and> t = ?st NPROC"
  proof (rule for_each_range)
    fix i t assume "i < NPROC" and t: "t = ?st i"
    then have "updateTime_one i t = Ok (updp i charge t)"
      using assms by (intro updateTime_one_eq) simp
    moreover have "updp i charge t = ?st (Suc i)"
      by (auto simp: t updp_def less_Suc_eq fun_eq_iff)
    ultimately show "\<exists>t'. updateTime_one i t = Ok t' \<and> t' = ?st (Suc i)" by metis
  qed simp
  then show ?thesis by (simp add: updateTime_def)
qed

section \<open>Waiting\<close>

lemma wait_scan_none:
  assumes "\<forall>j < NPROC. i \<le> j \<longrightarrow> p_parent (procs s j) \<noteq> Some p"
  shows "wait_scan p addr i havekids s = Ok (Scanned havekids, s)"
  using assms
proof (induction "NPROC - i" arbitrary: i)
  case 0
  then show ?case by (subst wait_scan.simps) simp
next
  case (Suc d)
  then have "wait_scan p addr i havekids s = wait_scan p addr (Suc i) havekids s"
    by (subst wait_scan.simps) auto
  then show ?case using Suc by simp
qed

lemma wait_no_children:
  assumes "curproc s = Some p" and "WaitLock \<notin> held s" and "\<forall>j < NPROC. p_parent (procs s j) \<noteq> Some p"
  shows "wait (Suc fuel) others addr s = Ok (-1, s)"
  using assms wait_scan_none [of 0 "s\<lparr>held := insert WaitLock (held s)\<rparr>" p addr False]
  by (simp add: wait_def myproc_def run_simps)

section \<open>The page table of a process\<close>

lemma same_rest_proc:
  fixes s t :: "'a pstate_scheme"
  assumes "same_rest s t"
  shows "procs t = procs s" "held t = held s" "trampoline t = trampoline s" "kend t = kend s"
    "curproc t = curproc s" "ticks t = ticks s"
  using assms by (cases s; cases t; simp add: same_rest_def)+

text \<open>Entries of the trap pages may change without affecting the user part of the space.\<close>

lemma uspace_trap:
  assumes "uspace s a n" and "vm_inv t a" and "same_rest s t"
    and "tables (mem t) a \<union> free_pages t \<subseteq> tables (mem s) a \<union> free_pages s"
    and "\<And>k. k < vpages \<Longrightarrow> k \<notin> trap_pages \<Longrightarrow> leafn (mem t) a k = leafn (mem s) a k"
  shows "uspace t a n"
proof (rule uspace_keep [OF assms(1-3) _ _ assms(4)])
  have "n \<le> utop" using assms(1) by (simp add: uspace_def)
  then show "leafn (mem t) a j = leafn (mem s) a j" if "j < n" for j
    using that by (intro assms(5)) auto
  show "leafn (mem t) a j AND PTE_V = 0" if "n \<le> j" "j < vpages" "j \<notin> trap_pages" for j
    using that assms(1,5) by (simp add: uspace_def)
qed

lemma map_trap_page:
  assumes us: "uspace s a n" and va: "unat va = 4096 * k" "k \<in> trap_pages"
    and inv: "leafn (mem s) a k AND PTE_V = 0"
  obtains t where "mappages a va PGSIZE pa perm s = Ok (-1, t)" "uspace t a n" "same_rest s t"
      "owned t a n \<union> free_pages t = owned s a n \<union> free_pages s" "\<And>i. leafn (mem t) a i = leafn (mem s) a i"
  | t where "mappages a va PGSIZE pa perm s = Ok (0, t)" "uspace t a n" "same_rest s t"
      "owned t a n \<union> free_pages t = owned s a n \<union> free_pages s"
      "\<And>i. i < vpages \<Longrightarrow> leafn (mem t) a i = (if i = k then PA2PTE pa OR scast perm OR PTE_V else leafn (mem s) a i)"
proof -
  have inv_s: "vm_inv s a" and n: "n \<le> utop" using us by (simp_all add: uspace_def)
  have k: "k < mpages" "n \<le> k" using va(2) n by auto
  have T: "uspace t a n" "same_rest s t" "owned t a n \<union> free_pages t = owned s a n \<union> free_pages s"
    if st: "vm_step a s t" and leaf: "\<And>i. i < vpages \<Longrightarrow> i \<noteq> k \<Longrightarrow> leafn (mem t) a i = leafn (mem s) a i" for t
  proof -
    have V: "vm_inv t a" "same_rest s t" "tables (mem s) a \<subseteq> tables (mem t) a"
      "free_pages s = free_pages t \<union> (tables (mem t) a - tables (mem s) a)"
      using st by (simp_all add: vm_step_def)
    then show "same_rest s t" by simp
    have eq: "tables (mem t) a \<union> free_pages t = tables (mem s) a \<union> free_pages s" using V(3,4) by auto
    show "uspace t a n"
      by (rule uspace_trap [OF us V(1,2)]) (use eq leaf va(2) in auto)
    have "frame (mem t) a ` {..<n} = frame (mem s) a ` {..<n}"
      using leaf k n by (intro image_cong) (auto simp: frame_def)
    then show "owned t a n \<union> free_pages t = owned s a n \<union> free_pages s" using eq by (auto simp: owned_def)
  qed
  from inv_s va(1) k(1) inv show ?thesis
  proof (cases rule: mappages_page [where pa = pa and perm = perm])
    case (1 t)
    then have "vm_step a s t" "\<And>i. leafn (mem t) a i = leafn (mem s) a i" by (simp_all add: vm_ext_def)
    with T [of t] that(1) [OF 1(1)] show ?thesis by blast
  next
    case (2 t)
    then have "leafn (mem t) a i = leafn (mem s) a i" if "i < vpages" "i \<noteq> k" for i using that by simp
    from T [OF 2(2) this] that(2) [OF 2(1)] 2(3) show ?thesis by blast
  qed
qed

lemma unmap_trap_page:
  assumes us: "uspace s a n" and va: "unat va = 4096 * k" "k \<in> trap_pages"
    and v: "leafn (mem s) a k AND PTE_V \<noteq> 0" "PTE_FLAGS (leafn (mem s) a k) \<noteq> PTE_V"
  obtains t where "uvmunmap a va 1 False s = Ok t" "uspace t a n" "same_rest s t"
      "owned t a n = owned s a n" "free_pages t = free_pages s"
      "\<And>i. i < vpages \<Longrightarrow> leafn (mem t) a i = (if i = k then 0 else leafn (mem s) a i)"
proof -
  have inv_s: "vm_inv s a" and n: "n \<le> utop" using us by (simp_all add: uspace_def)
  have k: "k < mpages" "n \<le> k" using va(2) n by auto
  have e: "unat (va + 1 * PGSIZE) = 4096 * Suc k" using vpage_next [OF va(1) k(1)] by simp
  obtain t where t: "uvmunmap_loop a va (va + 1 * PGSIZE) False s = Ok t" "vm_unmap a {} s t"
    "\<forall>i<vpages. leafn (mem t) a i = (if k \<le> i \<and> i < Suc k then 0 else leafn (mem s) a i)"
    using uvmunmap_loop_ok [OF inv_s va(1) e, where do_free = False] k v by (auto simp: less_Suc_eq_le)
  have V: "vm_inv t a" "same_rest s t" "tables (mem t) a = tables (mem s) a" "free_pages t = free_pages s"
    using t(2) by (simp_all add: vm_unmap_def)
  have leaf: "leafn (mem t) a i = (if i = k then 0 else leafn (mem s) a i)" if "i < vpages" for i
    using t(3) that by (auto simp: less_Suc_eq_le)
  have "uspace t a n"
    by (rule uspace_trap [OF us V(1,2)]) (use V leaf va(2) in auto)
  moreover have "frame (mem t) a ` {..<n} = frame (mem s) a ` {..<n}"
    using leaf k n by (intro image_cong) (auto simp: frame_def)
  then have "owned t a n = owned s a n" using V by (simp add: owned_def)
  moreover have "uvmunmap a va 1 False s = Ok t"
    using t(1) va(1) by (simp add: uvmunmap_def page_aligned_unat [unfolded page_aligned_def, simplified])
  ultimately show ?thesis using that V leaf by blast
qed

lemma trap_vas:
  "unat TRAMPOLINE = 4096 * Suc utop" "unat TRAPFRAME = 4096 * utop"
  "Suc utop \<in> trap_pages" "utop \<in> trap_pages" "Suc utop < vpages" "utop < vpages"
  by (simp_all add: TRAMPOLINE_eq TRAPFRAME_eq)

text \<open>The leaf entries \<^verbatim>\<open>proc_pagetable\<close> writes are valid leaves.\<close>

lemma trap_ptes:
  fixes perm :: cint
  assumes "page_aligned pa" and "perm = ucast (PTE_R OR PTE_X) \<or> perm = ucast (PTE_R OR PTE_W)"
  shows "(PA2PTE pa OR scast perm OR PTE_V) AND PTE_V \<noteq> 0"
    "PTE_FLAGS (PA2PTE pa OR scast perm OR PTE_V) \<noteq> PTE_V"
    "PTE2PA (PA2PTE pa OR scast perm OR PTE_V) = pa"
  using assms pte_perm [OF assms(1), of "scast perm"] by auto

text \<open>
  An address space with both trap pages mapped: what \<^verbatim>\<open>proc_pagetable\<close> returns and
  \<^verbatim>\<open>proc_freepagetable\<close> expects.
\<close>

definition pspace :: "'a pstate_scheme \<Rightarrow> uint64 \<Rightarrow> nat \<Rightarrow> bool" where
  "pspace s a n \<longleftrightarrow> uspace s a n \<and> (\<forall>i \<in> trap_pages. leafn (mem s) a i AND PTE_V \<noteq> 0
     \<and> PTE_FLAGS (leafn (mem s) a i) \<noteq> PTE_V)"

lemma proc_freepagetable_pages:
  fixes s :: "'a pstate_scheme"
  assumes ps: "pspace s a (npg sz)"
  shows "\<exists>t. proc_freepagetable a sz s = Ok t \<and> kmem_inv t \<and> same_rest s t
    \<and> free_pages t = free_pages s \<union> owned s a (npg sz)"
proof -
  have us: "uspace s a (npg sz)"
    and L: "\<And>i. i \<in> trap_pages \<Longrightarrow> leafn (mem s) a i AND PTE_V \<noteq> 0 \<and> PTE_FLAGS (leafn (mem s) a i) \<noteq> PTE_V"
    using ps by (auto simp: pspace_def)
  obtain t where t: "uvmunmap a TRAMPOLINE 1 False s = Ok t" "uspace t a (npg sz)" "same_rest s t"
      "owned t a (npg sz) = owned s a (npg sz)" "free_pages t = free_pages s"
      "\<And>i. i < vpages \<Longrightarrow> leafn (mem t) a i = (if i = Suc utop then 0 else leafn (mem s) a i)"
    using unmap_trap_page [OF us trap_vas(1,3)] L [OF trap_vas(3)] by blast
  have "leafn (mem t) a utop = leafn (mem s) a utop" using t(6) [OF trap_vas(6)] by simp
  with L [OF trap_vas(4)] have Lt: "leafn (mem t) a utop AND PTE_V \<noteq> 0" "PTE_FLAGS (leafn (mem t) a utop) \<noteq> PTE_V"
    by simp_all
  obtain u where u: "uvmunmap a TRAPFRAME 1 False t = Ok u" "uspace u a (npg sz)" "same_rest t u"
      "owned u a (npg sz) = owned t a (npg sz)" "free_pages u = free_pages t"
      "\<And>i. i < vpages \<Longrightarrow> leafn (mem u) a i = (if i = utop then 0 else leafn (mem t) a i)"
    using unmap_trap_page [OF t(2) trap_vas(2,4) Lt] by blast
  have "leafn (mem u) a i AND PTE_V = 0" if "i \<in> trap_pages" for i
    using that u(6) [of i] t(6) [of i] by (auto simp: trap_pages_def)
  from uvmfree_pages [OF u(2) this] obtain v where
    v: "uvmfree a sz u = Ok v" "freed (owned u a (npg sz)) {} u v" by blast
  have "same_rest u v" using v(2) by (simp add: freed_def)
  then have "same_rest s v" using same_rest_trans [OF same_rest_trans [OF t(3) u(3)]] by simp
  with v t(1,4,5) u(1,4,5) show ?thesis by (auto simp: proc_freepagetable_def freed_def)
qed

lemma uvmfree_empty:
  assumes "uspace t a 0" and "\<forall>i<vpages. leafn (mem t) a i = 0"
  shows "\<exists>u. uvmfree a 0 t = Ok u \<and> same_rest t u \<and> kmem_inv u \<and> free_pages u = owned t a 0 \<union> free_pages t"
proof -
  have z: "uspace t a (npg 0)" using assms(1) by (simp add: npg_def)
  have "leafn (mem t) a i AND PTE_V = 0" if "i \<in> trap_pages" for i
    using assms(2) that by auto
  from uvmfree_pages [OF z this] obtain u where "uvmfree a 0 t = Ok u" "freed (owned t a 0) {} t u"
    by (auto simp: npg_def)
  then show ?thesis by (auto simp: freed_def)
qed

text \<open>
  What is left of \<^verbatim>\<open>proc_pagetable\<close> once the trampoline is mapped: the trap frame is mapped too, or
  the trampoline is unmapped and the table freed.
\<close>

lemma proc_pagetable_second:
  fixes s t :: "'a pstate_scheme"
  assumes us: "uspace t a 0" and rt: "same_rest s t" and own: "owned t a 0 \<union> free_pages t = free_pages s"
    and tf: "page_aligned pa" and tr: "page_aligned (trampoline s)"
    and L: "\<And>i. i < vpages \<Longrightarrow> leafn (mem t) a i =
      (if i = Suc utop then PA2PTE (trampoline s) OR scast (ucast (PTE_R OR PTE_X) :: cint) OR PTE_V else 0)"
  shows "(\<exists>u v w. mappages a TRAPFRAME PGSIZE pa (ucast (PTE_R OR PTE_W)) t = Ok (-1, u)
      \<and> uvmunmap a TRAMPOLINE 1 False u = Ok v \<and> uvmfree a 0 v = Ok w
      \<and> same_rest s w \<and> kmem_inv w \<and> free_pages w = free_pages s)
    \<or> (\<exists>u. mappages a TRAPFRAME PGSIZE pa (ucast (PTE_R OR PTE_W)) t = Ok (0, u)
      \<and> same_rest s u \<and> kmem_inv u \<and> pspace u a 0 \<and> tables (mem u) a \<union> free_pages u = free_pages s
      \<and> PTE2PA (leafn (mem u) a utop) = pa \<and> PTE2PA (leafn (mem u) a (Suc utop)) = trampoline s)"
proof -
  let ?e = "PA2PTE (trampoline s) OR scast (ucast (PTE_R OR PTE_X) :: cint) OR PTE_V"
  have e: "leafn (mem t) a (Suc utop) = ?e" using L [OF trap_vas(5)] by (simp only: refl if_True)
  have V: "?e AND PTE_V \<noteq> 0" "PTE_FLAGS ?e \<noteq> PTE_V" "PTE2PA ?e = trampoline s"
    using trap_ptes [OF tr] by blast+
  have "leafn (mem t) a utop = 0" using L [OF trap_vas(6)] by (simp only: n_not_Suc_n if_False)
  then have z: "leafn (mem t) a utop AND PTE_V = 0" by simp
  from us trap_vas(2,4) z show ?thesis
  proof (cases rule: map_trap_page [where pa = pa and perm = "ucast (PTE_R OR PTE_W)"])
    case (1 u)
    have eu: "leafn (mem u) a (Suc utop) = ?e" using e by (simp only: 1(5))
    from 1(2) trap_vas(1,3) V(1,2) [folded eu] obtain v where
      v: "uvmunmap a TRAMPOLINE 1 False u = Ok v" "uspace v a 0" "same_rest u v"
        "owned v a 0 = owned u a 0" "free_pages v = free_pages u"
        "\<And>i. i < vpages \<Longrightarrow> leafn (mem v) a i = (if i = Suc utop then 0 else leafn (mem u) a i)"
      by (rule unmap_trap_page) blast
    have "\<forall>i<vpages. leafn (mem v) a i = 0" using v(6) 1(5) L by simp
    from uvmfree_empty [OF v(2) this] obtain w where
      w: "uvmfree a 0 v = Ok w" "same_rest v w" "kmem_inv w" "free_pages w = owned v a 0 \<union> free_pages v" by blast
    have "same_rest s w" using same_rest_trans [OF same_rest_trans [OF same_rest_trans [OF rt 1(3)] v(3)] w(2)] .
    moreover have "free_pages w = free_pages s" using w(4) v(4,5) 1(4) own by simp
    ultimately show ?thesis using 1(1) v(1) w(1,3) by blast
  next
    case (2 u)
    have e1: "leafn (mem u) a (Suc utop) = ?e" using 2(5) [OF trap_vas(5)] e by (simp only: Suc_n_not_n if_False)
    have e0: "leafn (mem u) a utop = PA2PTE pa OR scast (ucast (PTE_R OR PTE_W) :: cint) OR PTE_V"
      using 2(5) [OF trap_vas(6)] by (simp only: refl if_True)
    have W: "leafn (mem u) a utop AND PTE_V \<noteq> 0" "PTE_FLAGS (leafn (mem u) a utop) \<noteq> PTE_V"
      "PTE2PA (leafn (mem u) a utop) = pa"
      unfolding e0 using trap_ptes [OF tf] by blast+
    have "pspace u a 0"
      unfolding pspace_def trap_pages_def using 2(2) W V [folded e1] by blast
    moreover have "same_rest s u" using rt 2(3) by (rule same_rest_trans)
    moreover have "tables (mem u) a \<union> free_pages u = free_pages s" using 2(4) own by (simp add: owned_def)
    moreover have "kmem_inv u" using 2(2) by (simp add: uspace_def vm_inv_def)
    ultimately show ?thesis using 2(1) W(3) V(3) [folded e1] by blast
  qed
qed

lemma proc_pagetable_pages:
  fixes s :: "'a pstate_scheme"
  assumes k: "kmem_inv s" and tf: "page_aligned (p_trapframe (procs s p))" and tr: "page_aligned (trampoline s)"
  shows "\<exists>a t. proc_pagetable p s = Ok (a, t) \<and> same_rest s t \<and> kmem_inv t \<and>
    (a = 0 \<and> free_pages t = free_pages s
     \<or> a \<noteq> 0 \<and> pspace t a 0 \<and> tables (mem t) a \<union> free_pages t = free_pages s
       \<and> PTE2PA (leafn (mem t) a utop) = p_trapframe (procs s p)
       \<and> PTE2PA (leafn (mem t) a (Suc utop)) = trampoline s)"
proof (cases "free_pages s = {}")
  case True
  then have "uvmcreate s = Ok (0, s)" using km.alloc_none [OF k] by (simp add: uvmcreate_def)
  with k show ?thesis by (auto simp: proc_pagetable_def)
next
  case False
  obtain a s1 where c: "uvmcreate s = Ok (a, s1)" "a \<noteq> 0" "same_rest s s1" "uspace s1 a 0"
    "owned s1 a 0 \<union> free_pages s1 = free_pages s" "\<And>i. leafn (mem s1) a i = 0"
    using uvmcreate_pages [OF k False] by blast
  have z: "leafn (mem s1) a (Suc utop) AND PTE_V = 0" by (simp only: c(6)) simp
  have tr1: "trampoline s1 = trampoline s" using same_rest_proc [OF c(3)] by simp
  from c(4) trap_vas(1,3) z show ?thesis
  proof (cases rule: map_trap_page [where pa = "trampoline s" and perm = "ucast (PTE_R OR PTE_X)"])
    case (1 t)
    have "\<forall>i<vpages. leafn (mem t) a i = 0" using 1(5) c(6) by simp
    from uvmfree_empty [OF 1(2) this] obtain u where
      u: "uvmfree a 0 t = Ok u" "same_rest t u" "kmem_inv u" "free_pages u = owned t a 0 \<union> free_pages t" by blast
    have "same_rest s u" using same_rest_trans [OF same_rest_trans [OF c(3) 1(3)] u(2)] .
    with u 1(1,4) c(1,2,5) tr1 show ?thesis by (simp add: proc_pagetable_def)
  next
    case (2 t)
    have rt: "same_rest s t" using c(3) 2(3) by (rule same_rest_trans)
    have own: "owned t a 0 \<union> free_pages t = free_pages s" using 2(4) c(5) by simp
    have L: "leafn (mem t) a i =
      (if i = Suc utop then PA2PTE (trampoline s) OR scast (ucast (PTE_R OR PTE_X) :: cint) OR PTE_V else 0)"
      if "i < vpages" for i using 2(5) [OF that] by (simp only: c(6))
    have pt: "p_trapframe (procs t p) = p_trapframe (procs s p)" using same_rest_proc [OF rt] by simp
    from proc_pagetable_second [OF 2(2) rt own tf tr L] show ?thesis
      using c(1,2) 2(1) tr1 pt by (auto simp: proc_pagetable_def)
  qed
qed

end
