(* ===== verification/Sleepwake.thy ===== *)
theory Sleepwake
  imports Procspec
begin

text \<open>
  Why \<^verbatim>\<open>sleep\<close> and \<^verbatim>\<open>wakeup\<close> lose no wakeup: a process that waits for a condition and another hart that
  establishes it run interleaved at the granularity of their lock operations. The waiter tests
  the condition under the lock \<^verbatim>\<open>lk\<close>; \<^verbatim>\<open>sleep\<close> takes \<^verbatim>\<open>p->lock\<close> before it drops \<^verbatim>\<open>lk\<close>, and gives \<^verbatim>\<open>p->lock\<close> up only
  through \<^verbatim>\<open>sched\<close>, after the state is \<^verbatim>\<open>SLEEPING\<close>.
\<close>

section \<open>The two threads\<close>

datatype party = Waiter | Waker

text \<open>
  The waiter: about to take \<^verbatim>\<open>lk\<close>, testing the condition, in \<^verbatim>\<open>sleep\<close> with both locks, with only
  \<^verbatim>\<open>p->lock\<close>, switched away, resumed by the scheduler, about to retake \<^verbatim>\<open>lk\<close>, finished.
\<close>

datatype waiter_pc = WEnter | WTest | WBoth | WUnlocked | WAway | WResumed | WDone

text \<open>The waker: about to take \<^verbatim>\<open>lk\<close>, condition set, visiting the waiter in \<^verbatim>\<open>wakeup\<close>, past it, finished.\<close>

datatype waker_pc = KEnter | KSet | KVisit | KPast | KDone

record sw_state =
  sw_lk :: "party option"
  sw_plock :: "party option"
  sw_cond :: bool
  sw_state :: procstate
  sw_chan :: bool
  sw_w :: waiter_pc
  sw_k :: waker_pc

definition sw_init :: sw_state where
  "sw_init = \<lparr>sw_lk = None, sw_plock = None, sw_cond = False, sw_state = RUNNING, sw_chan = False,
     sw_w = WEnter, sw_k = KEnter\<rparr>"

inductive sw_step :: "sw_state \<Rightarrow> sw_state \<Rightarrow> bool" where
  enter: "sw_w s = WEnter \<Longrightarrow> sw_lk s = None \<Longrightarrow> sw_step s (s\<lparr>sw_lk := Some Waiter, sw_w := WTest\<rparr>)"
| seen: "sw_w s = WTest \<Longrightarrow> sw_cond s \<Longrightarrow> sw_step s (s\<lparr>sw_lk := None, sw_w := WDone\<rparr>)"
| sleep_plock: "sw_w s = WTest \<Longrightarrow> \<not> sw_cond s \<Longrightarrow> sw_plock s = None \<Longrightarrow>
    sw_step s (s\<lparr>sw_plock := Some Waiter, sw_w := WBoth\<rparr>)"
| sleep_unlock: "sw_w s = WBoth \<Longrightarrow> sw_step s (s\<lparr>sw_lk := None, sw_w := WUnlocked\<rparr>)"
| sleep_sched: "sw_w s = WUnlocked \<Longrightarrow>
    sw_step s (s\<lparr>sw_chan := True, sw_state := SLEEPING, sw_plock := None, sw_w := WAway\<rparr>)"
| scheduled: "sw_w s = WAway \<Longrightarrow> sw_state s = RUNNABLE \<Longrightarrow> sw_plock s = None \<Longrightarrow>
    sw_step s (s\<lparr>sw_plock := Some Waiter, sw_state := RUNNING, sw_w := WResumed\<rparr>)"
| sleep_return: "sw_w s = WResumed \<Longrightarrow>
    sw_step s (s\<lparr>sw_chan := False, sw_plock := None, sw_w := WEnter\<rparr>)"
| waker_enter: "sw_k s = KEnter \<Longrightarrow> sw_lk s = None \<Longrightarrow>
    sw_step s (s\<lparr>sw_lk := Some Waker, sw_cond := True, sw_k := KSet\<rparr>)"
| wakeup_lock: "sw_k s = KSet \<Longrightarrow> sw_plock s = None \<Longrightarrow> sw_step s (s\<lparr>sw_plock := Some Waker, sw_k := KVisit\<rparr>)"
| wakeup_visit: "sw_k s = KVisit \<Longrightarrow>
    sw_step s (s\<lparr>sw_state := (if sw_state s = SLEEPING \<and> sw_chan s then RUNNABLE else sw_state s),
                sw_plock := None, sw_k := KPast\<rparr>)"
| waker_leave: "sw_k s = KPast \<Longrightarrow> sw_step s (s\<lparr>sw_lk := None, sw_k := KDone\<rparr>)"

inductive_cases sw_stepE: "sw_step s t"

section \<open>Invariant\<close>

text \<open>
  Who holds which lock follows from the program counters; the condition is set once the waker
  has entered; a waiter that is switched away is asleep only while the waker has yet to visit it.
\<close>

definition sw_inv :: "sw_state \<Rightarrow> bool" where
  "sw_inv s \<longleftrightarrow>
     (sw_lk s = Some Waiter \<longleftrightarrow> sw_w s \<in> {WTest, WBoth}) \<and>
     (sw_lk s = Some Waker \<longleftrightarrow> sw_k s \<in> {KSet, KVisit, KPast}) \<and>
     (sw_plock s = Some Waiter \<longleftrightarrow> sw_w s \<in> {WBoth, WUnlocked, WResumed}) \<and>
     (sw_plock s = Some Waker \<longleftrightarrow> sw_k s = KVisit) \<and>
     (sw_cond s \<longleftrightarrow> sw_k s \<noteq> KEnter) \<and>
     (sw_w s = WAway \<longrightarrow> sw_chan s \<and> (sw_state s = SLEEPING \<or> sw_state s = RUNNABLE)) \<and>
     (sw_w s = WAway \<and> sw_state s = SLEEPING \<longrightarrow> sw_k s \<in> {KEnter, KSet, KVisit}) \<and>
     (sw_w s \<in> {WUnlocked, WBoth} \<longrightarrow> sw_k s \<in> {KEnter, KSet})"

lemma sw_inv_init: "sw_inv sw_init"
  by (simp add: sw_inv_def sw_init_def)

lemma sw_inv_step: "sw_step s t \<Longrightarrow> sw_inv s \<Longrightarrow> sw_inv t"
  by (erule sw_stepE) (auto simp: sw_inv_def)

lemma sw_inv_reachable: "sw_step\<^sup>*\<^sup>* sw_init s \<Longrightarrow> sw_inv s"
  by (induction rule: rtranclp_induct) (auto intro: sw_inv_init sw_inv_step)

text \<open>Some thread can always move until the waiter is done.\<close>

lemma sw_owner:
  assumes "sw_inv s"
  shows "sw_lk s = None \<or> sw_w s \<in> {WTest, WBoth} \<or> sw_k s \<in> {KSet, KVisit, KPast}"
    "sw_plock s = None \<or> sw_w s \<in> {WBoth, WUnlocked, WResumed} \<or> sw_k s = KVisit"
proof -
  have x: "x = None \<or> x = Some Waiter \<or> x = Some Waker" for x
    by (metis party.exhaust option.exhaust)
  note c = assms [unfolded sw_inv_def]
  note a = c [THEN conjunct1, THEN iffD1] c [THEN conjunct2, THEN conjunct1, THEN iffD1]
  note b = c [THEN conjunct2, THEN conjunct2, THEN conjunct1, THEN iffD1]
    c [THEN conjunct2, THEN conjunct2, THEN conjunct2, THEN conjunct1, THEN iffD1]
  show "sw_lk s = None \<or> sw_w s \<in> {WTest, WBoth} \<or> sw_k s \<in> {KSet, KVisit, KPast}"
    using x [of "sw_lk s"] by (elim disjE) (blast dest: a)+
  show "sw_plock s = None \<or> sw_w s \<in> {WBoth, WUnlocked, WResumed} \<or> sw_k s = KVisit"
    using x [of "sw_plock s"] by (elim disjE) (blast dest: b)+
qed

lemma sw_inside_moves:
  "sw_w s \<in> {WBoth, WUnlocked, WResumed} \<or> sw_k s \<in> {KVisit, KPast} \<Longrightarrow> \<exists>t. sw_step s t"
  using sleep_unlock sleep_sched sleep_return wakeup_visit waker_leave by blast

lemma sw_waiter_moves:
  assumes inv: "sw_inv s" and w: "sw_w s \<noteq> WDone"
  shows "\<exists>t. sw_step s t"
proof (rule ccontr)
  assume stuck: "\<nexists>t. sw_step s t"
  with sw_inside_moves [of s] have n: "sw_w s \<notin> {WBoth, WUnlocked, WResumed}" "sw_k s \<notin> {KVisit, KPast}" by blast+
  with sw_owner(2) [OF inv] have pl: "sw_plock s = None" by blast
  with stuck wakeup_lock have "sw_k s \<noteq> KSet" by blast
  with n have k: "sw_k s = KEnter \<or> sw_k s = KDone" by (cases "sw_k s") auto
  show False
  proof (cases "sw_w s = WTest")
    case True
    with pl stuck seen sleep_plock show False by blast
  next
    case False
    with sw_owner(1) [OF inv] n k have lk: "sw_lk s = None" by auto
    with stuck enter waker_enter k have "sw_w s \<noteq> WEnter" "sw_k s = KDone" by blast+
    with n w False have "sw_w s = WAway" by (cases "sw_w s") auto
    with inv \<open>sw_k s = KDone\<close> have "sw_state s = RUNNABLE" by (auto simp: sw_inv_def)
    with \<open>sw_w s = WAway\<close> pl stuck scheduled show False by blast
  qed
qed

lemma sw_not_asleep:
  assumes "sw_inv s" and "sw_k s = KDone" shows "\<not> (sw_w s = WAway \<and> sw_state s = SLEEPING)"
  using assms(1) [unfolded sw_inv_def] unfolding assms(2) by simp

text \<open>
  C14: in every reachable state of a waiter in \<^verbatim>\<open>sleep\<close> and a waker in \<^verbatim>\<open>wakeup\<close>, once the waker has
  finished the waiter is not left asleep, and as long as the waiter has not seen the condition
  some step is possible: no wakeup is lost and the two cannot deadlock.
\<close>

theorem sleep_wakeup_not_lost:
  assumes "sw_step\<^sup>*\<^sup>* sw_init s" and "sw_w s \<noteq> WDone"
  shows "(\<exists>t. sw_step s t) \<and> (sw_k s = KDone \<longrightarrow> \<not> (sw_w s = WAway \<and> sw_state s = SLEEPING))"
  using sw_waiter_moves [OF sw_inv_reachable [OF assms(1)] assms(2)] sw_not_asleep [OF sw_inv_reachable [OF assms(1)]]
  by blast

theorem sleep_wakeup_not_lost_witness:
  "\<exists>s. sw_step\<^sup>*\<^sup>* sw_init s \<and> sw_w s = WBoth \<and> (\<exists>t. sw_step s t)"
proof -
  let ?a = "sw_init\<lparr>sw_lk := Some Waiter, sw_w := WTest\<rparr>"
  let ?b = "?a\<lparr>sw_plock := Some Waiter, sw_w := WBoth\<rparr>"
  have "sw_step sw_init ?a" by (rule enter) (simp_all add: sw_init_def)
  moreover have "sw_step ?a ?b" by (rule sleep_plock) (simp_all add: sw_init_def)
  ultimately have r: "sw_step\<^sup>*\<^sup>* sw_init ?b" by (rule converse_rtranclp_into_rtranclp [OF _ r_into_rtranclp])
  show ?thesis using sleep_wakeup_not_lost [OF r] r by (intro exI [of _ ?b]) simp
qed

end
