(* ===== verification/Sleeplock.thy ===== *)
theory Sleeplock
  imports Procspec
begin

text \<open>
  The sleeping locks of \<^verbatim>\<open>kernel/sleeplock.c\<close>: one per buffer of the block cache and one per inode
  of the inode table. Each is protected by a spin lock of its own.
\<close>

datatype slockid = BufLock nat | InodeLock nat

primrec slk_lk :: "slockid \<Rightarrow> lockid" where
  "slk_lk (BufLock i) = BufLk i"
| "slk_lk (InodeLock i) = InodeLk i"

primrec slk_chan :: "slockid \<Rightarrow> chan" where
  "slk_chan (BufLock i) = ChBufLock i"
| "slk_chan (InodeLock i) = ChInodeLock i"

record sleeplock =
  sl_locked :: uint
  sl_pid :: cint

record slstate = pstate +
  slks :: "slockid \<Rightarrow> sleeplock"

text \<open>
  The surroundings of a kernel thread that may sleep: how often a waiting loop may go to sleep
  before the model gives up, and what happens between \<^verbatim>\<open>swtch\<close> to the scheduler and the return.
\<close>

type_synonym 's env = "nat \<times> ('s \<Rightarrow> 's result)"

definition initsleeplock :: "slockid \<Rightarrow> 'a slstate_scheme \<Rightarrow> 'a slstate_scheme" where
  "initsleeplock lk s =
     (let s = lk_init (slk_lk lk) s
      in s\<lparr>slks := (slks s)(lk := \<lparr>sl_locked = 0, sl_pid = 0\<rparr>)\<rparr>)"

primrec acquiresleep_loop :: "nat \<Rightarrow> ('a slstate_scheme \<Rightarrow> 'a slstate_scheme result) \<Rightarrow> slockid
    \<Rightarrow> 'a slstate_scheme \<Rightarrow> 'a slstate_scheme result" where
  "acquiresleep_loop 0 others lk s =
     (if sl_locked (slks s lk) \<noteq> 0 then Stop OutOfFuel else Ok s)"
| "acquiresleep_loop (Suc fuel) others lk s =
     (if sl_locked (slks s lk) \<noteq> 0
      then rbind (sleep others (slk_chan lk) (slk_lk lk) s) (acquiresleep_loop fuel others lk)
      else Ok s)"

definition acquiresleep :: "'a slstate_scheme env \<Rightarrow> slockid \<Rightarrow> 'a slstate_scheme \<Rightarrow> 'a slstate_scheme result" where
  "acquiresleep E lk s =
     rbind (lk_acquire (slk_lk lk) s) (\<lambda>s.
     rbind (acquiresleep_loop (fst E) (snd E) lk s) (\<lambda>s.
     rbind (myproc s) (\<lambda>p.
     lk_release (slk_lk lk)
       (s\<lparr>slks := (slks s)(lk := \<lparr>sl_locked = 1, sl_pid = p_pid (procs s p)\<rparr>)\<rparr>))))"

definition releasesleep :: "slockid \<Rightarrow> 'a slstate_scheme \<Rightarrow> 'a slstate_scheme result" where
  "releasesleep lk s =
     rbind (lk_acquire (slk_lk lk) s) (\<lambda>s.
     rbind (wakeup (slk_chan lk) (s\<lparr>slks := (slks s)(lk := \<lparr>sl_locked = 0, sl_pid = 0\<rparr>)\<rparr>))
       (lk_release (slk_lk lk)))"

definition holdingsleep :: "slockid \<Rightarrow> 'a slstate_scheme \<Rightarrow> (bool \<times> 'a slstate_scheme) result" where
  "holdingsleep lk s =
     rbind (lk_acquire (slk_lk lk) s) (\<lambda>s.
     rbind (if sl_locked (slks s lk) \<noteq> 0
            then rbind (myproc s) (\<lambda>p. Ok (sl_pid (slks s lk) = p_pid (procs s p))) else Ok False) (\<lambda>r.
     rbind (lk_release (slk_lk lk) s) (\<lambda>s. Ok (r, s))))"

end
