(* ===== verification/Virtio.thy ===== *)
theory Virtio
  imports Sleeplock
begin

text \<open>
  The disk driver \<^verbatim>\<open>kernel/virtio_disk.c\<close> and the buffers of \<^verbatim>\<open>kernel/buf.h\<close>. The descriptor table and
  the two rings are typed arrays shared with the device; the command headers, the status bytes
  and the data are reached by the device through their addresses. Values read from the device's
  registers are a parameter; writes to them are appended to \<open>mmio_log\<close>. The device itself acts
  while a process sleeps.
\<close>

section \<open>State\<close>

definition BSIZE :: nat where [simp]: "BSIZE = 1024"
definition NUM :: nat where [simp]: "NUM = 8"
definition VRING_DESC_F_NEXT :: ushort where [simp]: "VRING_DESC_F_NEXT = 1"
definition VRING_DESC_F_WRITE :: ushort where [simp]: "VRING_DESC_F_WRITE = 2"

text \<open>
  \<^verbatim>\<open>struct buf\<close>; buffers are named by their index in \<^verbatim>\<open>bcache.buf\<close>, \<^verbatim>\<open>bcache.head\<close> by \<^verbatim>\<open>NBUF\<close>. \<open>b_data\<close> is
  the address of the data array.
\<close>

record buf =
  b_valid :: bool
  b_disk :: bool
  b_dev :: uint
  b_blockno :: uint
  b_refcnt :: uint
  b_prev :: nat
  b_next :: nat
  b_data :: uint64

record virtq_desc =
  vq_addr :: uint64
  vq_len :: uint
  vq_flags :: ushort
  vq_next :: ushort

record virtio_blk_req =
  vr_out :: bool
  vr_sector :: uint64

text \<open>
  \<^verbatim>\<open>struct disk\<close>; \<open>vd_used_hw\<close> is \<^verbatim>\<open>disk.used->idx\<close>, the index the device advances. \<open>vd_ops_addr\<close> and
  \<open>vd_status_addr\<close> are the addresses of \<^verbatim>\<open>disk.ops[i]\<close> and \<^verbatim>\<open>disk.info[i].status\<close>. The last two fields are
  the contents of the disk, by block and offset, and the blocks the device has written so far, in
  that order.
\<close>

record vstate = slstate +
  bufs :: "nat \<Rightarrow> buf"
  vd_pages :: "uint64 \<times> uint64 \<times> uint64"
  vd_desc :: "nat \<Rightarrow> virtq_desc"
  vd_avail :: "nat \<Rightarrow> ushort"
  vd_avail_idx :: ushort
  vd_used :: "nat \<Rightarrow> uint"
  vd_used_hw :: ushort
  vd_free :: "nat \<Rightarrow> bool"
  vd_used_idx :: ushort
  vd_info_b :: "nat \<Rightarrow> nat option"
  vd_status :: "nat \<Rightarrow> uchar"
  vd_ops :: "nat \<Rightarrow> virtio_blk_req"
  vd_ops_addr :: "nat \<Rightarrow> uint64"
  vd_status_addr :: "nat \<Rightarrow> uint64"
  mmio_log :: "(uint \<times> uint) list"
  platter :: "nat \<Rightarrow> nat \<Rightarrow> uchar"
  disk_log :: "(nat \<times> (nat \<Rightarrow> uchar)) list"

definition updb :: "nat \<Rightarrow> (buf \<Rightarrow> buf) \<Rightarrow> 'a vstate_scheme \<Rightarrow> 'a vstate_scheme" where
  "updb i f s = s\<lparr>bufs := (bufs s)(i := f (bufs s i))\<rparr>"

definition mmio_write :: "uint \<Rightarrow> uint \<Rightarrow> 'a vstate_scheme \<Rightarrow> 'a vstate_scheme" where
  "mmio_write r v s = s\<lparr>mmio_log := mmio_log s @ [(r, v)]\<rparr>"

section \<open>Initialisation\<close>

text \<open>The features the driver accepts: what the device offers without seven of the bits.\<close>

definition virtio_features :: "uint \<Rightarrow> uint" where
  "virtio_features offered =
     ucast (foldl (\<lambda>f b. f AND NOT (push_bit b 1)) (ucast offered :: uint64) [5, 7, 11, 12, 27, 29, 28])"

definition virtio_queue_alloc :: "'a vstate_scheme \<Rightarrow> 'a vstate_scheme result" where
  "virtio_queue_alloc s =
     rbind (kalloc s) (\<lambda>(d, s). rbind (kalloc s) (\<lambda>(a, s). rbind (kalloc s) (\<lambda>(u, s).
     if d = 0 \<or> a = 0 \<or> u = 0 then Stop (Panic ''virtio disk kalloc'')
     else Ok (s\<lparr>mem := memset (memset (memset (mem s) d 0 (ucast PGSIZE)) a 0 (ucast PGSIZE)) u 0 (ucast PGSIZE),
            vd_pages := (d, a, u),
            vd_desc := (\<lambda>_. \<lparr>vq_addr = 0, vq_len = 0, vq_flags = 0, vq_next = 0\<rparr>),
            vd_avail := (\<lambda>_. 0), vd_avail_idx := 0, vd_used := (\<lambda>_. 0), vd_used_hw := 0\<rparr>))))"

definition virtio_disk_init :: "(uint \<Rightarrow> uint) \<Rightarrow> 'a vstate_scheme \<Rightarrow> 'a vstate_scheme result" where
  "virtio_disk_init R s =
     (let s = lk_init DiskLock s
      in if R 0x000 \<noteq> 0x74726976 \<or> R 0x004 \<noteq> 2 \<or> R 0x008 \<noteq> 2 \<or> R 0x00c \<noteq> 0x554d4551
         then Stop (Panic ''could not find virtio disk'')
         else let s = mmio_write 0x070 0 s;
                  s = mmio_write 0x070 1 s;
                  s = mmio_write 0x070 3 s;
                  s = mmio_write 0x020 (virtio_features (R 0x010)) s;
                  s = mmio_write 0x070 11 s;
                  status = R 0x070
              in if status AND 8 = 0 then Stop (Panic ''virtio disk FEATURES_OK unset'')
                 else let s = mmio_write 0x030 0 s
                      in if R 0x044 \<noteq> 0 then Stop (Panic ''virtio disk should not be ready'')
                         else if R 0x034 = 0 then Stop (Panic ''virtio disk has no queue 0'')
                         else if R 0x034 < of_nat NUM then Stop (Panic ''virtio disk max queue too short'')
                         else rbind (virtio_queue_alloc s) (\<lambda>s.
                              let (d, a, u) = vd_pages s;
                                  s = mmio_write 0x038 (of_nat NUM) s;
                                  s = mmio_write 0x080 (ucast d) s; s = mmio_write 0x084 (ucast (drop_bit 32 d)) s;
                                  s = mmio_write 0x090 (ucast a) s; s = mmio_write 0x094 (ucast (drop_bit 32 a)) s;
                                  s = mmio_write 0x0a0 (ucast u) s; s = mmio_write 0x0a4 (ucast (drop_bit 32 u)) s;
                                  s = mmio_write 0x044 1 s;
                                  s = s\<lparr>vd_free := (\<lambda>i. if i < NUM then True else vd_free s i)\<rparr>
                              in Ok (mmio_write 0x070 (status OR 4) s)))"

section \<open>Descriptors\<close>

function alloc_desc_from :: "nat \<Rightarrow> 'a vstate_scheme \<Rightarrow> nat option \<times> 'a vstate_scheme" where
  "alloc_desc_from i s =
     (if i < NUM
      then if vd_free s i then (Some i, s\<lparr>vd_free := (vd_free s)(i := False)\<rparr>)
           else alloc_desc_from (Suc i) s
      else (None, s))"
  by pat_completeness auto
termination
  by (relation "measure (\<lambda>(i, s). NUM - i)") auto

definition alloc_desc :: "'a vstate_scheme \<Rightarrow> nat option \<times> 'a vstate_scheme" where
  "alloc_desc s = alloc_desc_from 0 s"

definition free_desc :: "nat \<Rightarrow> 'a vstate_scheme \<Rightarrow> 'a vstate_scheme result" where
  "free_desc i s =
     (if i \<ge> NUM then Stop (Panic ''free_desc 1'')
      else if vd_free s i then Stop (Panic ''free_desc 2'')
      else wakeup ChDiskFree
             (s\<lparr>vd_desc := (vd_desc s)(i := \<lparr>vq_addr = 0, vq_len = 0, vq_flags = 0, vq_next = 0\<rparr>),
                vd_free := (vd_free s)(i := True)\<rparr>))"

text \<open>\<^verbatim>\<open>while(1)\<close> of \<^verbatim>\<open>free_chain\<close>; freeing a descriptor twice panics, so it takes at most \<^verbatim>\<open>NUM\<close> rounds.\<close>

primrec free_chain_loop :: "nat \<Rightarrow> nat \<Rightarrow> 'a vstate_scheme \<Rightarrow> 'a vstate_scheme result" where
  "free_chain_loop 0 i s = Stop OutOfFuel"
| "free_chain_loop (Suc fuel) i s =
     (let flag = vq_flags (vd_desc s i); nxt = unat (vq_next (vd_desc s i))
      in rbind (free_desc i s) (\<lambda>s.
         if flag AND VRING_DESC_F_NEXT \<noteq> 0 then free_chain_loop fuel nxt s else Ok s))"

definition free_chain :: "nat \<Rightarrow> 'a vstate_scheme \<Rightarrow> 'a vstate_scheme result" where
  "free_chain i s = free_chain_loop (Suc NUM) i s"

text \<open>The loop of \<^verbatim>\<open>alloc3_desc\<close>; \<open>got\<close> holds \<^verbatim>\<open>idx[0..i-1]\<close>.\<close>

primrec alloc3_loop :: "nat \<Rightarrow> nat list \<Rightarrow> 'a vstate_scheme \<Rightarrow> (nat list option \<times> 'a vstate_scheme) result" where
  "alloc3_loop 0 got s = Ok (Some got, s)"
| "alloc3_loop (Suc n) got s =
     (case alloc_desc s of
        (None, s) \<Rightarrow> rbind (for_each free_desc got s) (\<lambda>s. Ok (None, s))
      | (Some i, s) \<Rightarrow> alloc3_loop n (got @ [i]) s)"

definition alloc3_desc :: "'a vstate_scheme \<Rightarrow> (nat list option \<times> 'a vstate_scheme) result" where
  "alloc3_desc s = alloc3_loop 3 [] s"

section \<open>Requests\<close>

primrec alloc3_wait :: "nat \<Rightarrow> ('a vstate_scheme \<Rightarrow> 'a vstate_scheme result) \<Rightarrow> 'a vstate_scheme
    \<Rightarrow> (nat list \<times> 'a vstate_scheme) result" where
  "alloc3_wait 0 others s = Stop OutOfFuel"
| "alloc3_wait (Suc fuel) others s =
     rbind (alloc3_desc s) (\<lambda>(idx, s). case idx of
       Some l \<Rightarrow> Ok (l, s)
     | None \<Rightarrow> rbind (sleep others ChDiskFree DiskLock s) (alloc3_wait fuel others))"

definition virtio_format :: "nat \<Rightarrow> bool \<Rightarrow> nat list \<Rightarrow> 'a vstate_scheme \<Rightarrow> 'a vstate_scheme" where
  "virtio_format b write idx s =
     (let i0 = idx ! 0; i1 = idx ! 1; i2 = idx ! 2;
          sector = ucast (b_blockno (bufs s b) * of_nat (BSIZE div 512)) :: uint64;
          s = s\<lparr>vd_ops := (vd_ops s)(i0 := \<lparr>vr_out = write, vr_sector = sector\<rparr>)\<rparr>;
          s = s\<lparr>vd_desc := (vd_desc s)(i0 := \<lparr>vq_addr = vd_ops_addr s i0, vq_len = 16,
                 vq_flags = VRING_DESC_F_NEXT, vq_next = of_nat i1\<rparr>)\<rparr>;
          s = s\<lparr>vd_desc := (vd_desc s)(i1 := \<lparr>vq_addr = b_data (bufs s b), vq_len = of_nat BSIZE,
                 vq_flags = (if write then 0 else VRING_DESC_F_WRITE) OR VRING_DESC_F_NEXT,
                 vq_next = of_nat i2\<rparr>)\<rparr>;
          s = s\<lparr>vd_status := (vd_status s)(i0 := 0xff)\<rparr>;
          s = s\<lparr>vd_desc := (vd_desc s)(i2 := \<lparr>vq_addr = vd_status_addr s i0, vq_len = 1,
                 vq_flags = VRING_DESC_F_WRITE, vq_next = 0\<rparr>)\<rparr>;
          s = updb b (\<lambda>q. q\<lparr>b_disk := True\<rparr>) s
      in s\<lparr>vd_info_b := (vd_info_b s)(i0 := Some b)\<rparr>)"

definition virtio_submit :: "nat \<Rightarrow> 'a vstate_scheme \<Rightarrow> 'a vstate_scheme" where
  "virtio_submit i0 s =
     (let s = s\<lparr>vd_avail := (vd_avail s)(unat (vd_avail_idx s) mod NUM := of_nat i0)\<rparr>;
          s = s\<lparr>vd_avail_idx := vd_avail_idx s + 1\<rparr>
      in mmio_write 0x050 0 s)"

primrec virtio_wait :: "nat \<Rightarrow> ('a vstate_scheme \<Rightarrow> 'a vstate_scheme result) \<Rightarrow> nat
    \<Rightarrow> 'a vstate_scheme \<Rightarrow> 'a vstate_scheme result" where
  "virtio_wait 0 others b s = (if b_disk (bufs s b) then Stop OutOfFuel else Ok s)"
| "virtio_wait (Suc fuel) others b s =
     (if b_disk (bufs s b)
      then rbind (sleep others (ChDiskBuf b) DiskLock s) (virtio_wait fuel others b)
      else Ok s)"

definition virtio_disk_rw :: "'a vstate_scheme env \<Rightarrow> nat \<Rightarrow> bool \<Rightarrow> 'a vstate_scheme \<Rightarrow> 'a vstate_scheme result" where
  "virtio_disk_rw E b write s =
     rbind (lk_acquire DiskLock s) (\<lambda>s.
     rbind (alloc3_wait (Suc (fst E)) (snd E) s) (\<lambda>(idx, s).
     let s = virtio_submit (idx ! 0) (virtio_format b write idx s)
     in rbind (virtio_wait (fst E) (snd E) b s) (\<lambda>s.
        rbind (free_chain (idx ! 0) (s\<lparr>vd_info_b := (vd_info_b s)(idx ! 0 := None)\<rparr>))
          (lk_release DiskLock))))"

text \<open>
  The interrupt handler: one round of its loop, and the loop. The entries between the driver's
  and the device's index are at most \<open>2 ^ 16\<close>, the fuel given to it.
\<close>

definition intr_one :: "'a vstate_scheme \<Rightarrow> 'a vstate_scheme result" where
  "intr_one s =
     (let idx = unat (vd_used s (unat (vd_used_idx s) mod NUM))
      in if idx \<ge> NUM then Stop (Fault ''disk.info index'')
         else if vd_status s idx \<noteq> 0 then Stop (Panic ''virtio_disk_intr status'')
         else (case vd_info_b s idx of
                 None \<Rightarrow> Stop (Fault ''null buf'')
               | Some b \<Rightarrow>
                 rbind (wakeup (ChDiskBuf b) (updb b (\<lambda>q. q\<lparr>b_disk := False\<rparr>) s)) (\<lambda>s.
                 Ok (s\<lparr>vd_used_idx := vd_used_idx s + 1\<rparr>))))"

primrec intr_loop :: "nat \<Rightarrow> 'a vstate_scheme \<Rightarrow> 'a vstate_scheme result" where
  "intr_loop 0 s = (if vd_used_idx s \<noteq> vd_used_hw s then Stop OutOfFuel else Ok s)"
| "intr_loop (Suc fuel) s =
     (if vd_used_idx s \<noteq> vd_used_hw s then rbind (intr_one s) (intr_loop fuel) else Ok s)"

definition virtio_disk_intr :: "(uint \<Rightarrow> uint) \<Rightarrow> 'a vstate_scheme \<Rightarrow> 'a vstate_scheme result" where
  "virtio_disk_intr R s =
     rbind (lk_acquire DiskLock s) (\<lambda>s.
     rbind (intr_loop (unat (vd_used_hw s - vd_used_idx s)) (mmio_write 0x064 (R 0x060 AND 3) s))
       (lk_release DiskLock))"

end
