(* ===== verification/Bio.thy ===== *)
theory Bio
  imports Virtio
begin

text \<open>
  The block cache \<^verbatim>\<open>kernel/bio.c\<close>: a fixed set of buffers on a doubly linked ring sorted by last
  use, with \<^verbatim>\<open>bcache.head\<close> as its anchor.
\<close>

section \<open>Operations\<close>

definition bhead :: nat where [simp]: "bhead = NBUF"

text \<open>Linking a buffer in behind the head: the same four assignments in \<^verbatim>\<open>binit\<close> and \<^verbatim>\<open>brelse\<close>.\<close>

definition link_front :: "nat \<Rightarrow> 'a vstate_scheme \<Rightarrow> 'a vstate_scheme" where
  "link_front b s =
     (let s = updb b (\<lambda>q. q\<lparr>b_next := b_next (bufs s bhead)\<rparr>) s;
          s = updb b (\<lambda>q. q\<lparr>b_prev := bhead\<rparr>) s;
          s = updb (b_next (bufs s bhead)) (\<lambda>q. q\<lparr>b_prev := b\<rparr>) s
      in updb bhead (\<lambda>q. q\<lparr>b_next := b\<rparr>) s)"

definition binit :: "'a vstate_scheme \<Rightarrow> 'a vstate_scheme" where
  "binit s =
     (let s = lk_init BcacheLock s;
          s = updb bhead (\<lambda>q. q\<lparr>b_prev := bhead\<rparr>) s;
          s = updb bhead (\<lambda>q. q\<lparr>b_next := bhead\<rparr>) s
      in foldl (\<lambda>s b. link_front b (initsleeplock (BufLock b) s)) s [0..<NBUF])"

text \<open>
  The two scans of \<^verbatim>\<open>bget\<close>. The ring has \<^verbatim>\<open>NBUF\<close> buffers, so \<open>Suc NBUF\<close> steps reach the head.
\<close>

primrec bget_cached :: "nat \<Rightarrow> uint \<Rightarrow> uint \<Rightarrow> nat \<Rightarrow> 'a vstate_scheme \<Rightarrow> nat option result" where
  "bget_cached 0 dev blockno b s = Stop OutOfFuel"
| "bget_cached (Suc fuel) dev blockno b s =
     (if b = bhead then Ok None
      else if b_dev (bufs s b) = dev \<and> b_blockno (bufs s b) = blockno then Ok (Some b)
      else bget_cached fuel dev blockno (b_next (bufs s b)) s)"

primrec bget_unused :: "nat \<Rightarrow> nat \<Rightarrow> 'a vstate_scheme \<Rightarrow> nat option result" where
  "bget_unused 0 b s = Stop OutOfFuel"
| "bget_unused (Suc fuel) b s =
     (if b = bhead then Ok None
      else if b_refcnt (bufs s b) = 0 then Ok (Some b)
      else bget_unused fuel (b_prev (bufs s b)) s)"

definition bget :: "'a vstate_scheme env \<Rightarrow> uint \<Rightarrow> uint \<Rightarrow> 'a vstate_scheme \<Rightarrow> (nat \<times> 'a vstate_scheme) result" where
  "bget E dev blockno s =
     rbind (lk_acquire BcacheLock s) (\<lambda>s.
     rbind (bget_cached (Suc NBUF) dev blockno (b_next (bufs s bhead)) s) (\<lambda>hit. case hit of
       Some b \<Rightarrow>
         rbind (lk_release BcacheLock (updb b (\<lambda>q. q\<lparr>b_refcnt := b_refcnt q + 1\<rparr>) s)) (\<lambda>s.
         rbind (acquiresleep E (BufLock b) s) (\<lambda>s. Ok (b, s)))
     | None \<Rightarrow>
         rbind (bget_unused (Suc NBUF) (b_prev (bufs s bhead)) s) (\<lambda>hit. case hit of
           Some b \<Rightarrow>
             rbind (lk_release BcacheLock (updb b (\<lambda>q. q\<lparr>b_dev := dev, b_blockno := blockno,
                      b_valid := False, b_refcnt := 1\<rparr>) s)) (\<lambda>s.
             rbind (acquiresleep E (BufLock b) s) (\<lambda>s. Ok (b, s)))
         | None \<Rightarrow> Stop (Panic ''bget: no buffers''))))"

definition bread :: "'a vstate_scheme env \<Rightarrow> uint \<Rightarrow> uint \<Rightarrow> 'a vstate_scheme \<Rightarrow> (nat \<times> 'a vstate_scheme) result" where
  "bread E dev blockno s =
     rbind (bget E dev blockno s) (\<lambda>(b, s).
     if \<not> b_valid (bufs s b)
     then rbind (virtio_disk_rw E b False s) (\<lambda>s. Ok (b, updb b (\<lambda>q. q\<lparr>b_valid := True\<rparr>) s))
     else Ok (b, s))"

definition bwrite :: "'a vstate_scheme env \<Rightarrow> nat \<Rightarrow> 'a vstate_scheme \<Rightarrow> 'a vstate_scheme result" where
  "bwrite E b s =
     rbind (holdingsleep (BufLock b) s) (\<lambda>(h, s).
     if \<not> h then Stop (Panic ''bwrite'') else virtio_disk_rw E b True s)"

definition brelse :: "nat \<Rightarrow> 'a vstate_scheme \<Rightarrow> 'a vstate_scheme result" where
  "brelse b s =
     rbind (holdingsleep (BufLock b) s) (\<lambda>(h, s).
     if \<not> h then Stop (Panic ''brelse'')
     else rbind (releasesleep (BufLock b) s) (\<lambda>s.
          rbind (lk_acquire BcacheLock s) (\<lambda>s.
          let s = updb b (\<lambda>q. q\<lparr>b_refcnt := b_refcnt q - 1\<rparr>) s;
              s = (if b_refcnt (bufs s b) = 0
                   then let s = updb (b_next (bufs s b)) (\<lambda>q. q\<lparr>b_prev := b_prev (bufs s b)\<rparr>) s;
                            s = updb (b_prev (bufs s b)) (\<lambda>q. q\<lparr>b_next := b_next (bufs s b)\<rparr>) s
                        in link_front b s
                   else s)
          in lk_release BcacheLock s)))"

definition bpin :: "nat \<Rightarrow> 'a vstate_scheme \<Rightarrow> 'a vstate_scheme result" where
  "bpin b s =
     rbind (lk_acquire BcacheLock s) (\<lambda>s.
     lk_release BcacheLock (updb b (\<lambda>q. q\<lparr>b_refcnt := b_refcnt q + 1\<rparr>) s))"

definition bunpin :: "nat \<Rightarrow> 'a vstate_scheme \<Rightarrow> 'a vstate_scheme result" where
  "bunpin b s =
     rbind (lk_acquire BcacheLock s) (\<lambda>s.
     lk_release BcacheLock (updb b (\<lambda>q. q\<lparr>b_refcnt := b_refcnt q - 1\<rparr>) s))"

end
