(* ===== verification/Log.thy ===== *)
theory Log
  imports Bio
begin

text \<open>
  The redo log \<^verbatim>\<open>kernel/log.c\<close>: system calls bracket their writes with \<^verbatim>\<open>begin_op\<close> and \<^verbatim>\<open>end_op\<close>,
  \<^verbatim>\<open>log_write\<close> records the blocks they change, and the last \<^verbatim>\<open>end_op\<close> commits them together.
\<close>

section \<open>State\<close>

record superblock =
  sb_magic :: uint
  sb_size :: uint
  sb_nblocks :: uint
  sb_ninodes :: uint
  sb_nlog :: uint
  sb_logstart :: uint
  sb_inodestart :: uint
  sb_bmapstart :: uint

record lstate = vstate +
  log_start :: cint
  log_size :: cint
  log_outstanding :: cint
  log_committing :: bool
  log_dev :: cint
  lh_n :: cint
  lh_block :: "nat \<Rightarrow> cint"

definition data_of :: "nat \<Rightarrow> 'a vstate_scheme \<Rightarrow> uint64" where
  "data_of b s = b_data (bufs s b)"

section \<open>Recovery\<close>

text \<open>
  The loop bodies run for \<^verbatim>\<open>tail < log.lh.n\<close>; \<^verbatim>\<open>log.lh.block\<close> has \<^verbatim>\<open>LOGSIZE\<close> elements, and an index beyond
  them is outside the array.
\<close>

definition install_one :: "'a lstate_scheme env \<Rightarrow> bool \<Rightarrow> nat \<Rightarrow> 'a lstate_scheme \<Rightarrow> 'a lstate_scheme result" where
  "install_one E recovering t s =
     rbind (bread E (log_dev s) (log_start s + of_nat t + 1) s) (\<lambda>(lbuf, s).
     rbind (bread E (log_dev s) (lh_block s t) s) (\<lambda>(dbuf, s).
     let s = s\<lparr>mem := memmove (mem s) (data_of dbuf s) (data_of lbuf s) (of_nat BSIZE)\<rparr>
     in rbind (bwrite E dbuf s) (\<lambda>s.
        rbind (if \<not> recovering then bunpin dbuf s else Ok s) (\<lambda>s.
        rbind (brelse lbuf s) (brelse dbuf)))))"

function install_loop :: "'a lstate_scheme env \<Rightarrow> bool \<Rightarrow> nat \<Rightarrow> 'a lstate_scheme \<Rightarrow> 'a lstate_scheme result" where
  "install_loop E recovering t s =
     (if int t < sint (lh_n s)
      then if t < LOGSIZE then rbind (install_one E recovering t s) (install_loop E recovering (Suc t))
           else Stop (Fault ''log.lh.block index'')
      else Ok s)"
  by pat_completeness auto
termination
  by (relation "measure (\<lambda>(E, r, t, s). LOGSIZE - t)") auto

definition install_trans :: "'a lstate_scheme env \<Rightarrow> bool \<Rightarrow> 'a lstate_scheme \<Rightarrow> 'a lstate_scheme result" where
  "install_trans E recovering s = install_loop E recovering 0 s"

text \<open>\<^verbatim>\<open>struct logheader\<close> in a buffer: \<^verbatim>\<open>n\<close> first, then \<^verbatim>\<open>block[i]\<close>.\<close>

definition lh_at :: "uint64 \<Rightarrow> nat \<Rightarrow> uint64" where
  "lh_at a i = a + 4 + 4 * of_nat i"

definition read_head :: "'a lstate_scheme env \<Rightarrow> 'a lstate_scheme \<Rightarrow> 'a lstate_scheme result" where
  "read_head E s =
     rbind (bread E (log_dev s) (log_start s) s) (\<lambda>(b, s).
     let lh = data_of b s;
         s = s\<lparr>lh_n := load32 (mem s) lh\<rparr>
     in rbind (for_each (\<lambda>i s. if i < LOGSIZE
                               then Ok (s\<lparr>lh_block := (lh_block s)(i := load32 (mem s) (lh_at lh i))\<rparr>)
                               else Stop (Fault ''log.lh.block index'')) [0..<nat (sint (lh_n s))] s)
          (brelse b))"

definition write_head :: "'a lstate_scheme env \<Rightarrow> 'a lstate_scheme \<Rightarrow> 'a lstate_scheme result" where
  "write_head E s =
     rbind (bread E (log_dev s) (log_start s) s) (\<lambda>(b, s).
     let hb = data_of b s;
         s = s\<lparr>mem := store32 (mem s) hb (lh_n s)\<rparr>
     in rbind (for_each (\<lambda>i s. if i < LOGSIZE
                               then Ok (s\<lparr>mem := store32 (mem s) (lh_at hb i) (lh_block s i)\<rparr>)
                               else Stop (Fault ''log.lh.block index'')) [0..<nat (sint (lh_n s))] s) (\<lambda>s.
        rbind (bwrite E b s) (brelse b)))"

definition recover_from_log :: "'a lstate_scheme env \<Rightarrow> 'a lstate_scheme \<Rightarrow> 'a lstate_scheme result" where
  "recover_from_log E s =
     rbind (read_head E s) (\<lambda>s.
     rbind (install_trans E True s) (\<lambda>s.
     write_head E (s\<lparr>lh_n := 0\<rparr>)))"

definition initlog :: "'a lstate_scheme env \<Rightarrow> cint \<Rightarrow> superblock \<Rightarrow> 'a lstate_scheme \<Rightarrow> 'a lstate_scheme result" where
  "initlog E dev sb s =
     (if 4 + 4 * LOGSIZE \<ge> BSIZE then Stop (Panic ''initlog: too big logheader'')
      else let s = lk_init LogLock s
           in recover_from_log E (s\<lparr>log_start := sb_logstart sb, log_size := sb_nlog sb, log_dev := dev\<rparr>))"

section \<open>Transactions\<close>

primrec begin_op_loop :: "nat \<Rightarrow> ('a lstate_scheme \<Rightarrow> 'a lstate_scheme result) \<Rightarrow> 'a lstate_scheme
    \<Rightarrow> 'a lstate_scheme result" where
  "begin_op_loop 0 others s = Stop OutOfFuel"
| "begin_op_loop (Suc fuel) others s =
     (if log_committing s \<or>
         sint (lh_n s + (log_outstanding s + 1) * of_nat MAXOPBLOCKS) > int LOGSIZE
      then rbind (sleep others ChLog LogLock s) (begin_op_loop fuel others)
      else lk_release LogLock (s\<lparr>log_outstanding := log_outstanding s + 1\<rparr>))"

definition begin_op :: "'a lstate_scheme env \<Rightarrow> 'a lstate_scheme \<Rightarrow> 'a lstate_scheme result" where
  "begin_op E s = rbind (lk_acquire LogLock s) (begin_op_loop (Suc (fst E)) (snd E))"

definition write_log_one :: "'a lstate_scheme env \<Rightarrow> nat \<Rightarrow> 'a lstate_scheme \<Rightarrow> 'a lstate_scheme result" where
  "write_log_one E t s =
     rbind (bread E (log_dev s) (log_start s + of_nat t + 1) s) (\<lambda>(dst, s).
     rbind (bread E (log_dev s) (lh_block s t) s) (\<lambda>(src, s).
     let s = s\<lparr>mem := memmove (mem s) (data_of dst s) (data_of src s) (of_nat BSIZE)\<rparr>
     in rbind (bwrite E dst s) (\<lambda>s.
        rbind (brelse src s) (brelse dst))))"

function write_log_loop :: "'a lstate_scheme env \<Rightarrow> nat \<Rightarrow> 'a lstate_scheme \<Rightarrow> 'a lstate_scheme result" where
  "write_log_loop E t s =
     (if int t < sint (lh_n s)
      then if t < LOGSIZE then rbind (write_log_one E t s) (write_log_loop E (Suc t))
           else Stop (Fault ''log.lh.block index'')
      else Ok s)"
  by pat_completeness auto
termination
  by (relation "measure (\<lambda>(E, t, s). LOGSIZE - t)") auto

definition write_log :: "'a lstate_scheme env \<Rightarrow> 'a lstate_scheme \<Rightarrow> 'a lstate_scheme result" where
  "write_log E s = write_log_loop E 0 s"

definition commit :: "'a lstate_scheme env \<Rightarrow> 'a lstate_scheme \<Rightarrow> 'a lstate_scheme result" where
  "commit E s =
     (if sint (lh_n s) > 0
      then rbind (write_log E s) (\<lambda>s.
           rbind (write_head E s) (\<lambda>s.
           rbind (install_trans E False s) (\<lambda>s.
           write_head E (s\<lparr>lh_n := 0\<rparr>))))
      else Ok s)"

definition end_op :: "'a lstate_scheme env \<Rightarrow> 'a lstate_scheme \<Rightarrow> 'a lstate_scheme result" where
  "end_op E s =
     rbind (lk_acquire LogLock s) (\<lambda>s.
     let s = s\<lparr>log_outstanding := log_outstanding s - 1\<rparr>
     in if log_committing s then Stop (Panic ''log.committing'')
        else rbind (if log_outstanding s = 0 then Ok (True, s\<lparr>log_committing := True\<rparr>)
                    else rbind (wakeup ChLog s) (\<lambda>s. Ok (False, s))) (\<lambda>(do_commit, s).
        rbind (lk_release LogLock s) (\<lambda>s.
        if do_commit
        then rbind (commit E s) (\<lambda>s.
             rbind (lk_acquire LogLock s) (\<lambda>s.
             rbind (wakeup ChLog (s\<lparr>log_committing := False\<rparr>)) (lk_release LogLock)))
        else Ok s)))"

text \<open>The index \<^verbatim>\<open>i\<close> at which the search for the block ends.\<close>

function log_index :: "nat \<Rightarrow> uint \<Rightarrow> 'a lstate_scheme \<Rightarrow> nat" where
  "log_index i blockno s =
     (if int i < sint (lh_n s) \<and> lh_block s i \<noteq> blockno then log_index (Suc i) blockno s else i)"
  by pat_completeness auto
termination
  by (relation "measure (\<lambda>(i, blockno, s). nat (sint (lh_n s)) - i)") auto

definition log_write :: "nat \<Rightarrow> 'a lstate_scheme \<Rightarrow> 'a lstate_scheme result" where
  "log_write b s =
     rbind (lk_acquire LogLock s) (\<lambda>s.
     if sint (lh_n s) \<ge> int LOGSIZE \<or> sint (lh_n s) \<ge> sint (log_size s - 1)
     then Stop (Panic ''too big a transaction'')
     else if sint (log_outstanding s) < 1 then Stop (Panic ''log_write outside of trans'')
     else let i = log_index 0 (b_blockno (bufs s b)) s;
              s = s\<lparr>lh_block := (lh_block s)(i := b_blockno (bufs s b))\<rparr>
          in rbind (if int i = sint (lh_n s)
                    then rbind (bpin b s) (\<lambda>s. Ok (s\<lparr>lh_n := lh_n s + 1\<rparr>)) else Ok s)
               (lk_release LogLock))"

end
