(* ===== verification/Fs.thy ===== *)
theory Fs
  imports Log
begin

text \<open>
  The file system \<^verbatim>\<open>kernel/fs.c\<close>: block allocation, inodes, their contents, directories and path
  names. On-disk structures are read and written in the bytes of the buffers; the in-memory
  inodes are records. Messages printed on the console are not part of the state.
\<close>

section \<open>Layout\<close>

definition FSMAGIC :: uint where "FSMAGIC = 0x10203040"
definition ROOTDEV :: uint where [simp]: "ROOTDEV = 1"
definition ROOTINO :: uint where [simp]: "ROOTINO = 1"
definition NDIRECT :: nat where [simp]: "NDIRECT = 12"
definition NINDIRECT :: nat where [simp]: "NINDIRECT = BSIZE div 4"
definition MAXFILE :: nat where [simp]: "MAXFILE = NDIRECT + NINDIRECT"
definition IPB :: nat where [simp]: "IPB = BSIZE div 64"
definition BPB :: nat where [simp]: "BPB = BSIZE * 8"
definition DIRSIZ :: nat where [simp]: "DIRSIZ = 14"
definition MAXPATH :: nat where [simp]: "MAXPATH = 128"
definition T_DIR :: ushort where [simp]: "T_DIR = 1"
definition T_FILE :: ushort where [simp]: "T_FILE = 2"
definition T_DEVICE :: ushort where [simp]: "T_DEVICE = 3"

definition IBLOCK :: "uint \<Rightarrow> superblock \<Rightarrow> uint" where
  "IBLOCK i sb = i div of_nat IPB + sb_inodestart sb"

definition BBLOCK :: "uint \<Rightarrow> superblock \<Rightarrow> uint" where
  "BBLOCK b sb = b div of_nat BPB + sb_bmapstart sb"

record inode =
  i_dev :: uint
  i_inum :: uint
  i_ref :: cint
  i_valid :: bool
  i_type :: ushort
  i_major :: ushort
  i_minor :: ushort
  i_nlink :: ushort
  i_size :: uint
  i_addrs :: "nat \<Rightarrow> uint"

record fstate = lstate +
  fs_sb :: superblock
  inodes :: "nat \<Rightarrow> inode"

definition updi :: "nat \<Rightarrow> (inode \<Rightarrow> inode) \<Rightarrow> 'a fstate_scheme \<Rightarrow> 'a fstate_scheme" where
  "updi i f s = s\<lparr>inodes := (inodes s)(i := f (inodes s i))\<rparr>"

section \<open>Super block and free map\<close>

definition load_sb :: "bytes \<Rightarrow> uint64 \<Rightarrow> superblock" where
  "load_sb m a = \<lparr>sb_magic = load32 m a, sb_size = load32 m (a + 4), sb_nblocks = load32 m (a + 8),
     sb_ninodes = load32 m (a + 12), sb_nlog = load32 m (a + 16), sb_logstart = load32 m (a + 20),
     sb_inodestart = load32 m (a + 24), sb_bmapstart = load32 m (a + 28)\<rparr>"

definition readsb :: "'a fstate_scheme env \<Rightarrow> cint \<Rightarrow> 'a fstate_scheme \<Rightarrow> 'a fstate_scheme result" where
  "readsb E dev s =
     rbind (bread E dev 1 s) (\<lambda>(bp, s). brelse bp (s\<lparr>fs_sb := load_sb (mem s) (data_of bp s)\<rparr>))"

definition fsinit :: "'a fstate_scheme env \<Rightarrow> cint \<Rightarrow> 'a fstate_scheme \<Rightarrow> 'a fstate_scheme result" where
  "fsinit E dev s =
     rbind (readsb E dev s) (\<lambda>s.
     if sb_magic (fs_sb s) \<noteq> FSMAGIC then Stop (Panic ''invalid file system'')
     else initlog E dev (fs_sb s) s)"

definition bzero :: "'a fstate_scheme env \<Rightarrow> cint \<Rightarrow> cint \<Rightarrow> 'a fstate_scheme \<Rightarrow> 'a fstate_scheme result" where
  "bzero E dev bno s =
     rbind (bread E dev bno s) (\<lambda>(bp, s).
     rbind (log_write bp (s\<lparr>mem := memset (mem s) (data_of bp s) 0 (of_nat BSIZE)\<rparr>)) (brelse bp))"

lemma below_uint:
  fixes x :: uint
  assumes "k < unat x"
  shows "k < 2 ^ 32"
proof -
  have "unat x < 2 ^ 32" by simp
  with assms show ?thesis by (rule less_trans)
qed

text \<open>\<^verbatim>\<open>1 << (bi % 8)\<close> as a byte, and the byte of the bit map that holds bit \<open>bi\<close>.\<close>

definition bit_mask :: "nat \<Rightarrow> uchar" where
  "bit_mask bi = push_bit (bi mod 8) 1"

function balloc_bit :: "nat \<Rightarrow> nat \<Rightarrow> uint64 \<Rightarrow> nat \<Rightarrow> bytes \<Rightarrow> nat option" where
  "balloc_bit b bi a lim m =
     (if bi < BPB \<and> b + bi < lim
      then if m (a + of_nat (bi div 8)) AND bit_mask bi = 0 then Some bi
           else balloc_bit b (Suc bi) a lim m
      else None)"
  by pat_completeness auto
termination
  by (relation "measure (\<lambda>(b, bi, a, lim, m). BPB - bi)") auto

function balloc_loop :: "'a fstate_scheme env \<Rightarrow> uint \<Rightarrow> nat \<Rightarrow> 'a fstate_scheme
    \<Rightarrow> (uint \<times> 'a fstate_scheme) result" where
  "balloc_loop E dev b s =
     (if b < unat (sb_size (fs_sb s))
      then rbind (bread E dev (BBLOCK (of_nat b) (fs_sb s)) s) (\<lambda>(bp, s).
           let a = data_of bp s
           in (case balloc_bit b 0 a (unat (sb_size (fs_sb s))) (mem s) of
                 Some bi \<Rightarrow>
                   let c = a + of_nat (bi div 8);
                       s = s\<lparr>mem := (mem s)(c := mem s c OR bit_mask bi)\<rparr>
                   in rbind (log_write bp s) (\<lambda>s.
                      rbind (brelse bp s) (\<lambda>s.
                      rbind (bzero E dev (of_nat (b + bi)) s) (\<lambda>s.
                      Ok (of_nat (b + bi), s))))
               | None \<Rightarrow> rbind (brelse bp s) (balloc_loop E dev (b + BPB))))
      else Ok (0, s))"
  by pat_completeness auto
termination
proof (relation "measure (\<lambda>(E, dev, b, s). 2 ^ 32 - b)", goal_cases)
  case (2 E dev b s)
  have "b < 2 ^ 32" using below_uint [OF 2(1)] by simp
  then show ?case by simp
qed simp

definition balloc :: "'a fstate_scheme env \<Rightarrow> uint \<Rightarrow> 'a fstate_scheme \<Rightarrow> (uint \<times> 'a fstate_scheme) result" where
  "balloc E dev s = balloc_loop E dev 0 s"

definition bfree :: "'a fstate_scheme env \<Rightarrow> uint \<Rightarrow> uint \<Rightarrow> 'a fstate_scheme \<Rightarrow> 'a fstate_scheme result" where
  "bfree E dev b s =
     rbind (bread E dev (BBLOCK b (fs_sb s)) s) (\<lambda>(bp, s).
     let bi = unat b mod BPB; c = data_of bp s + of_nat (bi div 8)
     in if mem s c AND bit_mask bi = 0 then Stop (Panic ''freeing free block'')
        else rbind (log_write bp (s\<lparr>mem := (mem s)(c := mem s c AND NOT (bit_mask bi))\<rparr>)) (brelse bp))"

section \<open>Inodes\<close>

definition iinit :: "'a fstate_scheme \<Rightarrow> 'a fstate_scheme" where
  "iinit s = foldl (\<lambda>s i. initsleeplock (InodeLock i) s) (lk_init ItableLock s) [0..<NINODE]"

function iget_scan :: "nat \<Rightarrow> nat option \<Rightarrow> uint \<Rightarrow> uint \<Rightarrow> 'a fstate_scheme \<Rightarrow> (nat + nat option)" where
  "iget_scan i slot dev inum s =
     (if i < NINODE
      then let ip = inodes s i
           in if sint (i_ref ip) > 0 \<and> i_dev ip = dev \<and> i_inum ip = inum then Inl i
              else iget_scan (Suc i) (if slot = None \<and> i_ref ip = 0 then Some i else slot) dev inum s
      else Inr slot)"
  by pat_completeness auto
termination
  by (relation "measure (\<lambda>(i, e, d, n, s). NINODE - i)") auto

definition iget :: "uint \<Rightarrow> uint \<Rightarrow> 'a fstate_scheme \<Rightarrow> (nat \<times> 'a fstate_scheme) result" where
  "iget dev inum s =
     rbind (lk_acquire ItableLock s) (\<lambda>s. case iget_scan 0 None dev inum s of
       Inl i \<Rightarrow> rbind (lk_release ItableLock (updi i (\<lambda>ip. ip\<lparr>i_ref := i_ref ip + 1\<rparr>) s)) (\<lambda>s. Ok (i, s))
     | Inr None \<Rightarrow> Stop (Panic ''iget: no inodes'')
     | Inr (Some i) \<Rightarrow>
         rbind (lk_release ItableLock (updi i (\<lambda>ip. ip\<lparr>i_dev := dev, i_inum := inum, i_ref := 1,
                  i_valid := False\<rparr>) s)) (\<lambda>s. Ok (i, s)))"

text \<open>The address of a \<^verbatim>\<open>struct dinode\<close> in the buffer of its block, and its fields.\<close>

definition dinode_at :: "uint64 \<Rightarrow> uint \<Rightarrow> uint64" where
  "dinode_at a inum = a + 64 * of_nat (unat inum mod IPB)"

definition store_dinode :: "bytes \<Rightarrow> uint64 \<Rightarrow> inode \<Rightarrow> bytes" where
  "store_dinode m d ip =
     (let m = store16 m d (i_type ip);
          m = store16 m (d + 2) (i_major ip);
          m = store16 m (d + 4) (i_minor ip);
          m = store16 m (d + 6) (i_nlink ip);
          m = store32 m (d + 8) (i_size ip)
      in foldl (\<lambda>m i. store32 m (d + 12 + 4 * of_nat i) (i_addrs ip i)) m [0..<Suc NDIRECT])"

definition load_dinode :: "bytes \<Rightarrow> uint64 \<Rightarrow> inode \<Rightarrow> inode" where
  "load_dinode m d ip =
     ip\<lparr>i_type := load16 m d, i_major := load16 m (d + 2), i_minor := load16 m (d + 4),
        i_nlink := load16 m (d + 6), i_size := load32 m (d + 8),
        i_addrs := (\<lambda>i. if i \<le> NDIRECT then load32 m (d + 12 + 4 * of_nat i) else i_addrs ip i)\<rparr>"

function ialloc_loop :: "'a fstate_scheme env \<Rightarrow> uint \<Rightarrow> ushort \<Rightarrow> nat \<Rightarrow> 'a fstate_scheme
    \<Rightarrow> (nat option \<times> 'a fstate_scheme) result" where
  "ialloc_loop E dev ty inum s =
     (if inum < unat (sb_ninodes (fs_sb s))
      then rbind (bread E dev (IBLOCK (of_nat inum) (fs_sb s)) s) (\<lambda>(bp, s).
           let dip = dinode_at (data_of bp s) (of_nat inum)
           in if load16 (mem s) dip = 0
              then let s = s\<lparr>mem := store16 (memset (mem s) dip 0 64) dip ty\<rparr>
                   in rbind (log_write bp s) (\<lambda>s.
                      rbind (brelse bp s) (\<lambda>s.
                      rbind (iget dev (of_nat inum) s) (\<lambda>(i, s). Ok (Some i, s))))
              else rbind (brelse bp s) (ialloc_loop E dev ty (Suc inum)))
      else Ok (None, s))"
  by pat_completeness auto
termination
proof (relation "measure (\<lambda>(E, dev, ty, n, s). 2 ^ 32 - n)", goal_cases)
  case (2 E dev ty n s)
  have "n < 2 ^ 32" using below_uint [OF 2(1)] by simp
  then show ?case by simp
qed simp

definition ialloc :: "'a fstate_scheme env \<Rightarrow> uint \<Rightarrow> ushort \<Rightarrow> 'a fstate_scheme
    \<Rightarrow> (nat option \<times> 'a fstate_scheme) result" where
  "ialloc E dev ty s = ialloc_loop E dev ty 1 s"

definition iupdate :: "'a fstate_scheme env \<Rightarrow> nat \<Rightarrow> 'a fstate_scheme \<Rightarrow> 'a fstate_scheme result" where
  "iupdate E ip s =
     rbind (bread E (i_dev (inodes s ip)) (IBLOCK (i_inum (inodes s ip)) (fs_sb s)) s) (\<lambda>(bp, s).
     let dip = dinode_at (data_of bp s) (i_inum (inodes s ip));
         s = s\<lparr>mem := store_dinode (mem s) dip (inodes s ip)\<rparr>
     in rbind (log_write bp s) (brelse bp))"

definition idup :: "nat \<Rightarrow> 'a fstate_scheme \<Rightarrow> (nat \<times> 'a fstate_scheme) result" where
  "idup ip s =
     rbind (lk_acquire ItableLock s) (\<lambda>s.
     rbind (lk_release ItableLock (updi ip (\<lambda>q. q\<lparr>i_ref := i_ref q + 1\<rparr>) s)) (\<lambda>s. Ok (ip, s)))"

definition ilock :: "'a fstate_scheme env \<Rightarrow> nat \<Rightarrow> 'a fstate_scheme \<Rightarrow> 'a fstate_scheme result" where
  "ilock E ip s =
     (if sint (i_ref (inodes s ip)) < 1 then Stop (Panic ''ilock'')
      else rbind (acquiresleep E (InodeLock ip) s) (\<lambda>s.
           if \<not> i_valid (inodes s ip)
           then rbind (bread E (i_dev (inodes s ip)) (IBLOCK (i_inum (inodes s ip)) (fs_sb s)) s) (\<lambda>(bp, s).
                let dip = dinode_at (data_of bp s) (i_inum (inodes s ip));
                    s = updi ip (load_dinode (mem s) dip) s
                in rbind (brelse bp s) (\<lambda>s.
                   let s = updi ip (\<lambda>q. q\<lparr>i_valid := True\<rparr>) s
                   in if i_type (inodes s ip) = 0 then Stop (Panic ''ilock: no type'') else Ok s))
           else Ok s))"

definition iunlock :: "nat \<Rightarrow> 'a fstate_scheme \<Rightarrow> 'a fstate_scheme result" where
  "iunlock ip s =
     rbind (holdingsleep (InodeLock ip) s) (\<lambda>(h, s).
     if \<not> h \<or> sint (i_ref (inodes s ip)) < 1 then Stop (Panic ''iunlock'')
     else releasesleep (InodeLock ip) s)"

section \<open>Contents of an inode\<close>

definition bmap :: "'a fstate_scheme env \<Rightarrow> nat \<Rightarrow> uint \<Rightarrow> 'a fstate_scheme \<Rightarrow> (uint \<times> 'a fstate_scheme) result" where
  "bmap E ip bn s =
     (let n = unat bn
      in if n < NDIRECT
         then if i_addrs (inodes s ip) n = 0
              then rbind (balloc E (i_dev (inodes s ip)) s) (\<lambda>(addr, s).
                   if addr = 0 then Ok (0, s)
                   else Ok (addr, updi ip (\<lambda>q. q\<lparr>i_addrs := (i_addrs q)(n := addr)\<rparr>) s))
              else Ok (i_addrs (inodes s ip) n, s)
         else if n - NDIRECT < NINDIRECT
         then rbind (if i_addrs (inodes s ip) NDIRECT = 0
                     then rbind (balloc E (i_dev (inodes s ip)) s) (\<lambda>(addr, s).
                          if addr = 0 then Ok (0, s)
                          else Ok (addr, updi ip (\<lambda>q. q\<lparr>i_addrs := (i_addrs q)(NDIRECT := addr)\<rparr>) s))
                     else Ok (i_addrs (inodes s ip) NDIRECT, s)) (\<lambda>(addr, s).
              if addr = 0 then Ok (0, s)
              else rbind (bread E (i_dev (inodes s ip)) addr s) (\<lambda>(bp, s).
                   let c = data_of bp s + 4 * of_nat (n - NDIRECT); addr = load32 (mem s) c
                   in rbind (if addr = 0
                             then rbind (balloc E (i_dev (inodes s ip)) s) (\<lambda>(addr, s).
                                  if addr \<noteq> 0
                                  then rbind (log_write bp (s\<lparr>mem := store32 (mem s) c addr\<rparr>)) (\<lambda>s. Ok (addr, s))
                                  else Ok (addr, s))
                             else Ok (addr, s)) (\<lambda>(addr, s).
                      rbind (brelse bp s) (\<lambda>s. Ok (addr, s)))))
         else Stop (Panic ''bmap: out of range''))"

definition itrunc_direct :: "'a fstate_scheme env \<Rightarrow> nat \<Rightarrow> nat \<Rightarrow> 'a fstate_scheme \<Rightarrow> 'a fstate_scheme result" where
  "itrunc_direct E ip i s =
     (if i_addrs (inodes s ip) i \<noteq> 0
      then rbind (bfree E (i_dev (inodes s ip)) (i_addrs (inodes s ip) i) s) (\<lambda>s.
           Ok (updi ip (\<lambda>q. q\<lparr>i_addrs := (i_addrs q)(i := 0)\<rparr>) s))
      else Ok s)"

definition itrunc :: "'a fstate_scheme env \<Rightarrow> nat \<Rightarrow> 'a fstate_scheme \<Rightarrow> 'a fstate_scheme result" where
  "itrunc E ip s =
     rbind (for_each (itrunc_direct E ip) [0..<NDIRECT] s) (\<lambda>s.
     rbind (if i_addrs (inodes s ip) NDIRECT \<noteq> 0
            then rbind (bread E (i_dev (inodes s ip)) (i_addrs (inodes s ip) NDIRECT) s) (\<lambda>(bp, s).
                 let a = data_of bp s
                 in rbind (for_each (\<lambda>j s. if load32 (mem s) (a + 4 * of_nat j) \<noteq> 0
                                           then bfree E (i_dev (inodes s ip)) (load32 (mem s) (a + 4 * of_nat j)) s
                                           else Ok s) [0..<NINDIRECT] s) (\<lambda>s.
                    rbind (brelse bp s) (\<lambda>s.
                    rbind (bfree E (i_dev (inodes s ip)) (i_addrs (inodes s ip) NDIRECT) s) (\<lambda>s.
                    Ok (updi ip (\<lambda>q. q\<lparr>i_addrs := (i_addrs q)(NDIRECT := 0)\<rparr>) s)))))
            else Ok s) (\<lambda>s.
     iupdate E ip (updi ip (\<lambda>q. q\<lparr>i_size := 0\<rparr>) s)))"

definition iput :: "'a fstate_scheme env \<Rightarrow> nat \<Rightarrow> 'a fstate_scheme \<Rightarrow> 'a fstate_scheme result" where
  "iput E ip s =
     rbind (lk_acquire ItableLock s) (\<lambda>s.
     rbind (if i_ref (inodes s ip) = 1 \<and> i_valid (inodes s ip) \<and> i_nlink (inodes s ip) = 0
            then rbind (acquiresleep E (InodeLock ip) s) (\<lambda>s.
                 rbind (lk_release ItableLock s) (\<lambda>s.
                 rbind (itrunc E ip s) (\<lambda>s.
                 rbind (iupdate E ip (updi ip (\<lambda>q. q\<lparr>i_type := 0\<rparr>) s)) (\<lambda>s.
                 rbind (releasesleep (InodeLock ip) (updi ip (\<lambda>q. q\<lparr>i_valid := False\<rparr>) s))
                   (lk_acquire ItableLock)))))
            else Ok s) (\<lambda>s.
     lk_release ItableLock (updi ip (\<lambda>q. q\<lparr>i_ref := i_ref q - 1\<rparr>) s)))"

definition iunlockput :: "'a fstate_scheme env \<Rightarrow> nat \<Rightarrow> 'a fstate_scheme \<Rightarrow> 'a fstate_scheme result" where
  "iunlockput E ip s = rbind (iunlock ip s) (iput E ip)"

text \<open>\<^verbatim>\<open>struct stat\<close> at its address: \<^verbatim>\<open>dev\<close>, \<^verbatim>\<open>ino\<close>, \<^verbatim>\<open>type\<close>, \<^verbatim>\<open>nlink\<close> and, aligned, \<^verbatim>\<open>size\<close>.\<close>

definition stati :: "nat \<Rightarrow> uint64 \<Rightarrow> 'a fstate_scheme \<Rightarrow> 'a fstate_scheme" where
  "stati ip st s =
     (let q = inodes s ip;
          m = store32 (mem s) st (i_dev q);
          m = store32 m (st + 4) (i_inum q);
          m = store16 m (st + 8) (i_type q);
          m = store16 m (st + 10) (i_nlink q)
      in s\<lparr>mem := store64 m (st + 16) (ucast (i_size q))\<rparr>)"

text \<open>\<^verbatim>\<open>min(n - tot, BSIZE - off%BSIZE)\<close>\<close>

definition blk_chunk :: "uint \<Rightarrow> uint \<Rightarrow> uint \<Rightarrow> uint" where
  "blk_chunk off tot n = min (n - tot) (of_nat BSIZE - off mod of_nat BSIZE)"

lemma blk_chunk_less:
  assumes "tot < n"
  shows "unat (n - (tot + blk_chunk off tot n)) < unat (n - tot)"
proof -
  have o: "unat (off mod 1024) < 1024" by (simp add: unat_mod)
  have "unat (1024 - off mod 1024 :: uint) = 1024 - unat (off mod 1024)"
    using o by (subst unat_sub) (simp_all add: word_le_nat_alt)
  with o have "0 < unat (1024 - off mod 1024 :: uint)" by simp
  moreover have "0 < unat (n - tot)"
    using assms by (metis eq_iff_diff_eq_0 less_irrefl unat_gt_0)
  ultimately have c: "0 < unat (blk_chunk off tot n)" "blk_chunk off tot n \<le> n - tot"
    by (auto simp: blk_chunk_def min_def)
  have e: "n - (tot + blk_chunk off tot n) = (n - tot) - blk_chunk off tot n" by simp
  show ?thesis unfolding e unat_sub [OF c(2)] using c by (simp add: word_le_nat_alt)
qed

function readi_loop :: "'a fstate_scheme env \<Rightarrow> nat \<Rightarrow> bool \<Rightarrow> uint64 \<Rightarrow> uint \<Rightarrow> uint \<Rightarrow> uint
    \<Rightarrow> 'a fstate_scheme \<Rightarrow> (cint \<times> 'a fstate_scheme) result" where
  "readi_loop E ip user_dst dst off tot n s =
     (if tot < n
      then rbind (bmap E ip (off div of_nat BSIZE) s) (\<lambda>(addr, s).
           if addr = 0 then Ok (tot, s)
           else rbind (bread E (i_dev (inodes s ip)) addr s) (\<lambda>(bp, s).
                let m = blk_chunk off tot n
                in rbind (either_copyout user_dst dst (data_of bp s + ucast (off mod of_nat BSIZE)) (ucast m) s)
                     (\<lambda>(r, s).
                   rbind (brelse bp s) (\<lambda>s.
                   if r = -1 then Ok (-1, s)
                   else readi_loop E ip user_dst (dst + ucast m) (off + m) (tot + m) n s))))
      else Ok (tot, s))"
  by pat_completeness auto
termination
  by (relation "measure (\<lambda>(E, ip, u, dst, off, tot, n, s). unat (n - tot))")
     (simp_all add: blk_chunk_less del: BSIZE_def)

definition readi :: "'a fstate_scheme env \<Rightarrow> nat \<Rightarrow> bool \<Rightarrow> uint64 \<Rightarrow> uint \<Rightarrow> uint
    \<Rightarrow> 'a fstate_scheme \<Rightarrow> (cint \<times> 'a fstate_scheme) result" where
  "readi E ip user_dst dst off n s =
     (let sz = i_size (inodes s ip)
      in if off > sz \<or> off + n < off then Ok (0, s)
         else readi_loop E ip user_dst dst off 0 (if off + n > sz then sz - off else n) s)"

function writei_loop :: "'a fstate_scheme env \<Rightarrow> nat \<Rightarrow> bool \<Rightarrow> uint64 \<Rightarrow> uint \<Rightarrow> uint \<Rightarrow> uint
    \<Rightarrow> 'a fstate_scheme \<Rightarrow> ((uint \<times> uint) \<times> 'a fstate_scheme) result" where
  "writei_loop E ip user_src src off tot n s =
     (if tot < n
      then rbind (bmap E ip (off div of_nat BSIZE) s) (\<lambda>(addr, s).
           if addr = 0 then Ok ((tot, off), s)
           else rbind (bread E (i_dev (inodes s ip)) addr s) (\<lambda>(bp, s).
                let m = blk_chunk off tot n
                in rbind (either_copyin (data_of bp s + ucast (off mod of_nat BSIZE)) user_src src (ucast m) s)
                     (\<lambda>(r, s).
                   if r = -1 then rbind (brelse bp s) (\<lambda>s. Ok ((tot, off), s))
                   else rbind (log_write bp s) (\<lambda>s.
                        rbind (brelse bp s) (\<lambda>s.
                        writei_loop E ip user_src (src + ucast m) (off + m) (tot + m) n s)))))
      else Ok ((tot, off), s))"
  by pat_completeness auto
termination
  by (relation "measure (\<lambda>(E, ip, u, dst, off, tot, n, s). unat (n - tot))")
     (simp_all add: blk_chunk_less del: BSIZE_def)

definition writei :: "'a fstate_scheme env \<Rightarrow> nat \<Rightarrow> bool \<Rightarrow> uint64 \<Rightarrow> uint \<Rightarrow> uint
    \<Rightarrow> 'a fstate_scheme \<Rightarrow> (cint \<times> 'a fstate_scheme) result" where
  "writei E ip user_src src off n s =
     (if off > i_size (inodes s ip) \<or> off + n < off then Ok (-1, s)
      else if off + n > of_nat (MAXFILE * BSIZE) then Ok (-1, s)
      else rbind (writei_loop E ip user_src src off 0 n s) (\<lambda>((tot, off), s).
           let s = (if off > i_size (inodes s ip) then updi ip (\<lambda>q. q\<lparr>i_size := off\<rparr>) s else s)
           in rbind (iupdate E ip s) (\<lambda>s. Ok (tot, s))))"

end
