(* ===== verification/Dir.thy ===== *)
theory Dir
  imports Fs
begin

text \<open>
  Directories and path names of \<^verbatim>\<open>kernel/fs.c\<close>. Strings are zero-terminated bytes of the kernel's
  memory. The local variables whose address is taken (a directory entry, a name, a path) live at
  fixed offsets from \<open>ktmp\<close>, the place of the kernel's temporaries.
\<close>

section \<open>Directories\<close>

definition loc_de :: "'a pstate_scheme \<Rightarrow> uint64" where [simp]: "loc_de s = ktmp s"
definition loc_name :: "'a pstate_scheme \<Rightarrow> uint64" where [simp]: "loc_name s = ktmp s + 32"
definition loc_stat :: "'a pstate_scheme \<Rightarrow> uint64" where [simp]: "loc_stat s = ktmp s + 64"
definition loc_path :: "'a pstate_scheme \<Rightarrow> uint64" where [simp]: "loc_path s = ktmp s + 128"
definition loc_new :: "'a pstate_scheme \<Rightarrow> uint64" where [simp]: "loc_new s = ktmp s + 256"

definition namecmp :: "bytes \<Rightarrow> uint64 \<Rightarrow> uint64 \<Rightarrow> cint" where
  "namecmp m s t = strncmp m s t (of_nat DIRSIZ)"

text \<open>
  Offsets run through the multiples of 16 below the size; at the last one below \<open>2 ^ 32\<close> \<^verbatim>\<open>readi\<close>
  rejects the wrap-around and the loop panics, so the offset never wraps.
\<close>

function dirlookup_loop :: "'a fstate_scheme env \<Rightarrow> nat \<Rightarrow> uint64 \<Rightarrow> nat \<Rightarrow> 'a fstate_scheme
    \<Rightarrow> ((nat \<times> uint) option \<times> 'a fstate_scheme) result" where
  "dirlookup_loop E dp name off s =
     (if off < unat (i_size (inodes s dp))
      then rbind (readi E dp False (loc_de s) (of_nat off) 16 s) (\<lambda>(r, s).
           if r \<noteq> 16 then Stop (Panic ''dirlookup read'')
           else let inum = load16 (mem s) (loc_de s)
                in if inum \<noteq> 0 \<and> namecmp (mem s) name (loc_de s + 2) = 0
                   then rbind (iget (i_dev (inodes s dp)) (ucast inum) s) (\<lambda>(ip, s).
                        Ok (Some (ip, of_nat off), s))
                   else dirlookup_loop E dp name (off + 16) s)
      else Ok (None, s))"
  by pat_completeness auto
termination
proof (relation "measure (\<lambda>(E, dp, name, off, s). 2 ^ 32 - off)", goal_cases)
  case (2 E dp name off s)
  have "off < 2 ^ 32" using below_uint [OF 2(1)] by simp
  then show ?case by simp
qed simp

definition dirlookup :: "'a fstate_scheme env \<Rightarrow> nat \<Rightarrow> uint64 \<Rightarrow> 'a fstate_scheme
    \<Rightarrow> ((nat \<times> uint) option \<times> 'a fstate_scheme) result" where
  "dirlookup E dp name s =
     (if i_type (inodes s dp) \<noteq> T_DIR then Stop (Panic ''dirlookup not DIR'')
      else dirlookup_loop E dp name 0 s)"

function dirlink_slot :: "'a fstate_scheme env \<Rightarrow> nat \<Rightarrow> nat \<Rightarrow> 'a fstate_scheme
    \<Rightarrow> (nat \<times> 'a fstate_scheme) result" where
  "dirlink_slot E dp off s =
     (if off < unat (i_size (inodes s dp))
      then rbind (readi E dp False (loc_de s) (of_nat off) 16 s) (\<lambda>(r, s).
           if r \<noteq> 16 then Stop (Panic ''dirlink read'')
           else if load16 (mem s) (loc_de s) = 0 then Ok (off, s)
           else dirlink_slot E dp (off + 16) s)
      else Ok (off, s))"
  by pat_completeness auto
termination
proof (relation "measure (\<lambda>(E, dp, off, s). 2 ^ 32 - off)", goal_cases)
  case (2 E dp off s)
  have "off < 2 ^ 32" using below_uint [OF 2(1)] by simp
  then show ?case by simp
qed simp

definition dirlink :: "'a fstate_scheme env \<Rightarrow> nat \<Rightarrow> uint64 \<Rightarrow> uint \<Rightarrow> 'a fstate_scheme
    \<Rightarrow> (cint \<times> 'a fstate_scheme) result" where
  "dirlink E dp name inum s =
     rbind (dirlookup E dp name s) (\<lambda>(hit, s). case hit of
       Some (ip, _) \<Rightarrow> rbind (iput E ip s) (\<lambda>s. Ok (-1, s))
     | None \<Rightarrow>
       rbind (dirlink_slot E dp 0 s) (\<lambda>(off, s).
       let m = strncpy (mem s) (loc_de s + 2) name (of_nat DIRSIZ);
           s = s\<lparr>mem := store16 m (loc_de s) (ucast inum)\<rparr>
       in rbind (writei E dp False (loc_de s) (of_nat off) 16 s) (\<lambda>(r, s).
          Ok (if r \<noteq> 16 then -1 else 0, s))))"

section \<open>Paths\<close>

text \<open>\<^verbatim>\<open>while(P(*path)) path++;\<close> it need not end.\<close>

partial_function (option) skip_while :: "(uchar \<Rightarrow> bool) \<Rightarrow> bytes \<Rightarrow> uint64 \<Rightarrow> uint64 option" where
  "skip_while P m p = (if P (m p) then skip_while P m (p + 1) else Some p)"

declare skip_while.simps [code]

text \<open>The outer option is that of the loops, the inner one is \<^verbatim>\<open>skipelem\<close>'s null result. 47 is '/'.\<close>

definition skipelem :: "bytes \<Rightarrow> uint64 \<Rightarrow> uint64 \<Rightarrow> (uint64 \<times> bytes) option option" where
  "skipelem m path name =
     (case skip_while (\<lambda>c. c = 47) m path of
        None \<Rightarrow> None
      | Some p \<Rightarrow>
        if m p = 0 then Some None
        else (case skip_while (\<lambda>c. c \<noteq> 47 \<and> c \<noteq> 0) m p of
                None \<Rightarrow> None
              | Some e \<Rightarrow>
                let len = ucast (e - p) :: cint;
                    m = (if sint len \<ge> int DIRSIZ then memmove m name p (of_nat DIRSIZ)
                         else (memmove m name p len)(name + scast len := 0))
                in (case skip_while (\<lambda>c. c = 47) m e of
                      None \<Rightarrow> None
                    | Some q \<Rightarrow> Some (Some (q, m)))))"

text \<open>
  The loop of \<^verbatim>\<open>namex\<close>, one unit of fuel per path element. A path has at most \<^verbatim>\<open>MAXPATH\<close> bytes, and
  each element takes at least one.
\<close>

primrec namex_loop :: "nat \<Rightarrow> 'a fstate_scheme env \<Rightarrow> uint64 \<Rightarrow> bool \<Rightarrow> uint64 \<Rightarrow> nat \<Rightarrow> 'a fstate_scheme
    \<Rightarrow> (nat option \<times> 'a fstate_scheme) result" where
  "namex_loop 0 E path parent name ip s = Stop OutOfFuel"
| "namex_loop (Suc fuel) E path parent name ip s =
     (case skipelem (mem s) path name of
        None \<Rightarrow> Stop OutOfFuel
      | Some None \<Rightarrow> if parent then rbind (iput E ip s) (\<lambda>s. Ok (None, s)) else Ok (Some ip, s)
      | Some (Some (path, m)) \<Rightarrow>
        rbind (ilock E ip (s\<lparr>mem := m\<rparr>)) (\<lambda>s.
        if i_type (inodes s ip) \<noteq> T_DIR then rbind (iunlockput E ip s) (\<lambda>s. Ok (None, s))
        else if parent \<and> mem s path = 0 then rbind (iunlock ip s) (\<lambda>s. Ok (Some ip, s))
        else rbind (dirlookup E ip name s) (\<lambda>(hit, s). case hit of
               None \<Rightarrow> rbind (iunlockput E ip s) (\<lambda>s. Ok (None, s))
             | Some (nxt, _) \<Rightarrow> rbind (iunlockput E ip s) (namex_loop fuel E path parent name nxt))))"

definition namex :: "'a fstate_scheme env \<Rightarrow> uint64 \<Rightarrow> bool \<Rightarrow> uint64 \<Rightarrow> 'a fstate_scheme
    \<Rightarrow> (nat option \<times> 'a fstate_scheme) result" where
  "namex E path parent name s =
     rbind (if mem s path = 47 then iget ROOTDEV ROOTINO s
            else rbind (myproc s) (\<lambda>p. case p_cwd (procs s p) of
                   None \<Rightarrow> Stop (Fault ''null inode'') | Some ip \<Rightarrow> idup ip s)) (\<lambda>(ip, s).
     namex_loop (Suc MAXPATH) E path parent name ip s)"

definition namei :: "'a fstate_scheme env \<Rightarrow> uint64 \<Rightarrow> 'a fstate_scheme \<Rightarrow> (nat option \<times> 'a fstate_scheme) result" where
  "namei E path s = namex E path False (loc_name s) s"

definition nameiparent :: "'a fstate_scheme env \<Rightarrow> uint64 \<Rightarrow> uint64 \<Rightarrow> 'a fstate_scheme
    \<Rightarrow> (nat option \<times> 'a fstate_scheme) result" where
  "nameiparent E path name s = namex E path True name s"

end
