(* ===== verification/Console.thy ===== *)
theory Console
  imports Dir
begin

text \<open>
  The serial line \<^verbatim>\<open>kernel/uart.c\<close>, the console \<^verbatim>\<open>kernel/console.c\<close> and the kernel's
  \<^verbatim>\<open>printf\<close> (\<^verbatim>\<open>kernel/printf.c\<close>). What the device reports is part of the state: the readings of
  \<^verbatim>\<open>LSR_TX_IDLE\<close> still to come and the characters still to arrive; what is written to \<^verbatim>\<open>THR\<close> is
  appended to \<open>uart_out\<close>. \<^verbatim>\<open>push_off\<close> and \<^verbatim>\<open>pop_off\<close> around a character change nothing here.
\<close>

section \<open>State\<close>

definition UART_TX_BUF_SIZE :: nat where [simp]: "UART_TX_BUF_SIZE = 32"
definition INPUT_BUF_SIZE :: nat where [simp]: "INPUT_BUF_SIZE = 128"
definition BACKSPACE :: cint where [simp]: "BACKSPACE = 0x100"
definition CONSOLE :: nat where [simp]: "CONSOLE = 1"

text \<open>\<open>devsw i\<close> says that \<^verbatim>\<open>devsw[i]\<close> holds \<^verbatim>\<open>consoleread\<close> and \<^verbatim>\<open>consolewrite\<close>, the only device functions.\<close>

record cstate = fstate +
  uart_tx_buf :: "nat \<Rightarrow> uchar"
  uart_tx_w :: uint64
  uart_tx_r :: uint64
  uart_idle :: "bool list"
  uart_in :: "uchar list"
  uart_out :: "uchar list"
  uart_regs :: "(nat \<times> uchar) list"
  panicked :: bool
  pr_locking :: bool
  cons_buf :: "nat \<Rightarrow> uchar"
  cons_r :: uint
  cons_w :: uint
  cons_e :: uint
  devsw :: "nat \<Rightarrow> bool"

section \<open>Serial line\<close>

definition uart_write :: "uchar \<Rightarrow> 'a cstate_scheme \<Rightarrow> 'a cstate_scheme" where
  "uart_write c s = s\<lparr>uart_out := uart_out s @ [c]\<rparr>"

text \<open>One reading of \<^verbatim>\<open>LSR_TX_IDLE\<close>; a device with no readings left stays busy.\<close>

definition read_idle :: "'a cstate_scheme \<Rightarrow> bool \<times> 'a cstate_scheme" where
  "read_idle s = (case uart_idle s of [] \<Rightarrow> (False, s) | b # l \<Rightarrow> (b, s\<lparr>uart_idle := l\<rparr>))"

text \<open>Each round of \<^verbatim>\<open>uartstart\<close> sends one of the buffered characters.\<close>

primrec uartstart_loop :: "nat \<Rightarrow> 'a cstate_scheme \<Rightarrow> 'a cstate_scheme result" where
  "uartstart_loop 0 s = (if uart_tx_w s = uart_tx_r s then Ok s else Stop OutOfFuel)"
| "uartstart_loop (Suc fuel) s =
     (if uart_tx_w s = uart_tx_r s then Ok s
      else let (idle, s) = read_idle s
           in if \<not> idle then Ok s
              else let c = uart_tx_buf s (unat (uart_tx_r s) mod UART_TX_BUF_SIZE);
                       s = s\<lparr>uart_tx_r := uart_tx_r s + 1\<rparr>
                   in rbind (wakeup ChUartTx s) (\<lambda>s. uartstart_loop fuel (uart_write c s)))"

definition uartstart :: "'a cstate_scheme \<Rightarrow> 'a cstate_scheme result" where
  "uartstart s = uartstart_loop (unat (uart_tx_w s - uart_tx_r s)) s"

primrec uartputc_wait :: "nat \<Rightarrow> ('a cstate_scheme \<Rightarrow> 'a cstate_scheme result) \<Rightarrow> 'a cstate_scheme
    \<Rightarrow> 'a cstate_scheme result" where
  "uartputc_wait 0 others s =
     (if uart_tx_w s = uart_tx_r s + of_nat UART_TX_BUF_SIZE then Stop OutOfFuel else Ok s)"
| "uartputc_wait (Suc fuel) others s =
     (if uart_tx_w s = uart_tx_r s + of_nat UART_TX_BUF_SIZE
      then rbind (sleep others ChUartTx UartTxLock s) (uartputc_wait fuel others)
      else Ok s)"

definition uartputc :: "'a cstate_scheme env \<Rightarrow> uchar \<Rightarrow> 'a cstate_scheme \<Rightarrow> 'a cstate_scheme result" where
  "uartputc E c s =
     rbind (lk_acquire UartTxLock s) (\<lambda>s.
     if panicked s then Stop Spinning
     else rbind (uartputc_wait (fst E) (snd E) s) (\<lambda>s.
          let s = s\<lparr>uart_tx_buf := (uart_tx_buf s)(unat (uart_tx_w s) mod UART_TX_BUF_SIZE := c)\<rparr>;
              s = s\<lparr>uart_tx_w := uart_tx_w s + 1\<rparr>
          in rbind (uartstart s) (lk_release UartTxLock)))"

text \<open>The readings left once \<^verbatim>\<open>LSR_TX_IDLE\<close> has been seen.\<close>

primrec wait_idle :: "bool list \<Rightarrow> bool list result" where
  "wait_idle [] = Stop Spinning"
| "wait_idle (b # l) = (if b then Ok l else wait_idle l)"

definition uartputc_sync :: "cint \<Rightarrow> 'a cstate_scheme \<Rightarrow> 'a cstate_scheme result" where
  "uartputc_sync c s =
     (if panicked s then Stop Spinning
      else rbind (wait_idle (uart_idle s)) (\<lambda>l. Ok (uart_write (ucast c) (s\<lparr>uart_idle := l\<rparr>))))"

definition uartgetc :: "'a cstate_scheme \<Rightarrow> cint \<times> 'a cstate_scheme" where
  "uartgetc s = (case uart_in s of [] \<Rightarrow> (-1, s) | c # l \<Rightarrow> (ucast c, s\<lparr>uart_in := l\<rparr>))"

section \<open>Formatted output\<close>

definition consputc :: "cint \<Rightarrow> 'a cstate_scheme \<Rightarrow> 'a cstate_scheme result" where
  "consputc c s =
     (if c = BACKSPACE then for_each uartputc_sync [8, 32, 8] s else uartputc_sync c s)"

definition digits :: "nat \<Rightarrow> uchar" where
  "digits i = (if i < 10 then 48 + of_nat i else 87 + of_nat i)"

text \<open>The digits of \<^verbatim>\<open>x\<close>, least significant first: the \<^verbatim>\<open>do ... while\<close> loop of \<^verbatim>\<open>printint\<close>.\<close>

function print_digits :: "nat \<Rightarrow> nat \<Rightarrow> uchar list" where
  "print_digits base x =
     digits (x mod base) # (if base < 2 \<or> x div base = 0 then [] else print_digits base (x div base))"
  by pat_completeness auto
termination
  by (relation "measure (\<lambda>(base, x). x)") (auto simp: div_greater_zero_iff)

definition printint_chars :: "cint \<Rightarrow> nat \<Rightarrow> bool \<Rightarrow> uchar list" where
  "printint_chars xx base sign =
     (let neg = sign \<and> sint xx < 0;
          buf = print_digits base (unat (if neg then - xx else xx))
      in rev (if neg then buf @ [45] else buf))"

definition printint :: "cint \<Rightarrow> nat \<Rightarrow> bool \<Rightarrow> 'a cstate_scheme \<Rightarrow> 'a cstate_scheme result" where
  "printint xx base sign s = for_each (\<lambda>c. consputc (ucast c)) (printint_chars xx base sign) s"

definition printptr :: "uint64 \<Rightarrow> 'a cstate_scheme \<Rightarrow> 'a cstate_scheme result" where
  "printptr x s =
     for_each (\<lambda>c. consputc (ucast c))
       ([48, 120] @ map (\<lambda>i. digits (unat (drop_bit 60 (push_bit (4 * i) x)))) [0..<16]) s"

text \<open>The arguments of \<^verbatim>\<open>printf\<close>; a null string is \<open>AStr None\<close>.\<close>

datatype arg = AInt cint | APtr uint64 | AStr "uchar list option"

definition put_chars :: "uchar list \<Rightarrow> 'a cstate_scheme \<Rightarrow> 'a cstate_scheme result" where
  "put_chars cs s = for_each (\<lambda>c. consputc (ucast c)) cs s"

text \<open>
  The loop over the format, a list of the bytes before its terminating zero. An argument of the
  wrong kind, or none left, is outside what \<^verbatim>\<open>va_arg\<close> defines.
\<close>

fun printf_loop :: "uchar list \<Rightarrow> arg list \<Rightarrow> 'a cstate_scheme \<Rightarrow> 'a cstate_scheme result" where
  "printf_loop [] ap s = Ok s"
| "printf_loop [c] ap s = (if c = 37 then Ok s else consputc (ucast c) s)"
| "printf_loop (c # d # fmt) ap s =
     (if c \<noteq> 37 then rbind (consputc (ucast c) s) (printf_loop (d # fmt) ap)
      else if d = 100 then (case ap of AInt v # ap \<Rightarrow> rbind (printint v 10 True s) (printf_loop fmt ap)
             | _ \<Rightarrow> Stop (Fault ''va_arg''))
      else if d = 120 then (case ap of AInt v # ap \<Rightarrow> rbind (printint v 16 True s) (printf_loop fmt ap)
             | _ \<Rightarrow> Stop (Fault ''va_arg''))
      else if d = 112 then (case ap of APtr v # ap \<Rightarrow> rbind (printptr v s) (printf_loop fmt ap)
             | _ \<Rightarrow> Stop (Fault ''va_arg''))
      else if d = 115 then (case ap of
               AStr (Some v) # ap \<Rightarrow> rbind (put_chars v s) (printf_loop fmt ap)
             | AStr None # ap \<Rightarrow> rbind (put_chars [40, 110, 117, 108, 108, 41] s) (printf_loop fmt ap)
             | _ \<Rightarrow> Stop (Fault ''va_arg''))
      else if d = 37 then rbind (consputc 37 s) (printf_loop fmt ap)
      else rbind (consputc 37 s) (\<lambda>s. rbind (consputc (ucast d) s) (printf_loop fmt ap)))"

definition printf :: "uchar list option \<Rightarrow> arg list \<Rightarrow> 'a cstate_scheme \<Rightarrow> 'a cstate_scheme result" where
  "printf fmt ap s =
     (let locking = pr_locking s
      in rbind (if locking then lk_acquire PrLock s else Ok s) (\<lambda>s. case fmt of
           None \<Rightarrow> Stop (Panic ''null fmt'')
         | Some f \<Rightarrow>
           rbind (printf_loop f ap s) (\<lambda>s.
           if locking then lk_release PrLock s else Ok s)))"

definition printfinit :: "'a cstate_scheme \<Rightarrow> 'a cstate_scheme" where
  "printfinit s = (lk_init PrLock s)\<lparr>pr_locking := True\<rparr>"

definition cstr :: "string \<Rightarrow> uchar list" where
  "cstr s = map of_char s"

primrec state_name :: "procstate \<Rightarrow> string" where
  "state_name UNUSED = ''unused''"
| "state_name USED = ''used''"
| "state_name SLEEPING = ''sleep ''"
| "state_name RUNNABLE = ''runble''"
| "state_name RUNNING = ''run   ''"
| "state_name ZOMBIE = ''zombie''"

definition procdump :: "'a cstate_scheme \<Rightarrow> 'a cstate_scheme result" where
  "procdump s =
     rbind (printf (Some [10]) [] s) (\<lambda>s.
     for_each (\<lambda>p s. if p_state (procs s p) = UNUSED then Ok s
        else rbind (printf (Some (cstr ''%d %s %s''))
                 [AInt (p_pid (procs s p)), AStr (Some (cstr (state_name (p_state (procs s p))))),
                  AStr (Some (p_name (procs s p)))] s) (printf (Some [10]) [])) [0..<NPROC] s)"

section \<open>Console\<close>

text \<open>The character \<^verbatim>\<open>char c\<close> whose address is passed to \<^verbatim>\<open>either_copyin\<close> is at \<open>ktmp\<close>.\<close>

function consolewrite_loop :: "'a cstate_scheme env \<Rightarrow> bool \<Rightarrow> uint64 \<Rightarrow> nat \<Rightarrow> cint \<Rightarrow> 'a cstate_scheme
    \<Rightarrow> (cint \<times> 'a cstate_scheme) result" where
  "consolewrite_loop E user_src src i n s =
     (if int i < sint n
      then rbind (either_copyin (ktmp s) user_src (src + of_nat i) 1 s) (\<lambda>(r, s).
           if r = -1 then Ok (of_nat i, s)
           else rbind (uartputc E (mem s (ktmp s)) s) (consolewrite_loop E user_src src (Suc i) n))
      else Ok (of_nat i, s))"
  by pat_completeness auto
termination
  by (relation "measure (\<lambda>(E, u, src, i, n, s). nat (sint n) - i)") auto

definition consolewrite :: "'a cstate_scheme env \<Rightarrow> bool \<Rightarrow> uint64 \<Rightarrow> cint \<Rightarrow> 'a cstate_scheme
    \<Rightarrow> (cint \<times> 'a cstate_scheme) result" where
  "consolewrite E user_src src n s = consolewrite_loop E user_src src 0 n s"

text \<open>The inner loop of \<^verbatim>\<open>consoleread\<close>: true when there is input, false when killed.\<close>

primrec consoleread_wait :: "nat \<Rightarrow> ('a cstate_scheme \<Rightarrow> 'a cstate_scheme result) \<Rightarrow> 'a cstate_scheme
    \<Rightarrow> (bool \<times> 'a cstate_scheme) result" where
  "consoleread_wait 0 others s = Stop OutOfFuel"
| "consoleread_wait (Suc fuel) others s =
     (if cons_r s = cons_w s
      then rbind (myproc s) (\<lambda>p. rbind (killed p s) (\<lambda>(k, s).
           if k \<noteq> 0 then rbind (lk_release ConsLock s) (\<lambda>s. Ok (False, s))
           else rbind (sleep others ChCons ConsLock s) (consoleread_wait fuel others)))
      else Ok (True, s))"

definition cons_done :: "uint \<Rightarrow> cint \<Rightarrow> 'a cstate_scheme \<Rightarrow> (cint \<times> 'a cstate_scheme) result" where
  "cons_done target n s = rbind (lk_release ConsLock s) (\<lambda>s. Ok (target - n, s))"

function consoleread_loop :: "'a cstate_scheme env \<Rightarrow> bool \<Rightarrow> uint64 \<Rightarrow> uint \<Rightarrow> cint \<Rightarrow> 'a cstate_scheme
    \<Rightarrow> (cint \<times> 'a cstate_scheme) result" where
  "consoleread_loop E user_dst dst target n s =
     (if sint n > 0
      then rbind (consoleread_wait (Suc (fst E)) (snd E) s) (\<lambda>(ok, s).
           if \<not> ok then Ok (-1, s)
           else let c = cons_buf s (unat (cons_r s) mod INPUT_BUF_SIZE);
                    s = s\<lparr>cons_r := cons_r s + 1\<rparr>
                in if c = 4
                   then cons_done target n (if n < target then s\<lparr>cons_r := cons_r s - 1\<rparr> else s)
                   else let s = s\<lparr>mem := (mem s)(ktmp s := c)\<rparr>
                        in rbind (either_copyout user_dst dst (ktmp s) 1 s) (\<lambda>(r, s).
                           if r = -1 then cons_done target n s
                           else if c = 10 then cons_done target (n - 1) s
                           else consoleread_loop E user_dst (dst + 1) target (n - 1) s))
      else cons_done target n s)"
  by pat_completeness auto
termination
proof (relation "measure (\<lambda>(E, u, dst, t, n, s). nat (sint n))", goal_cases)
  case (2 E u dst t n)
  have "sint (n - 1) = sint n - 1"
    using 2(1) sint_less [of n] by (simp add: sint_word_ariths signed_take_bit_int_eq_self)
  with 2(1) show ?case by simp
qed simp

definition consoleread :: "'a cstate_scheme env \<Rightarrow> bool \<Rightarrow> uint64 \<Rightarrow> cint \<Rightarrow> 'a cstate_scheme
    \<Rightarrow> (cint \<times> 'a cstate_scheme) result" where
  "consoleread E user_dst dst n s =
     rbind (lk_acquire ConsLock s) (consoleread_loop E user_dst dst n n)"

definition cons_erase :: "'a cstate_scheme \<Rightarrow> 'a cstate_scheme result" where
  "cons_erase s = consputc BACKSPACE (s\<lparr>cons_e := cons_e s - 1\<rparr>)"

text \<open>Control-U erases at most the \<^verbatim>\<open>cons.e - cons.w\<close> characters typed since the last line.\<close>

primrec cons_kill_line :: "nat \<Rightarrow> 'a cstate_scheme \<Rightarrow> 'a cstate_scheme result" where
  "cons_kill_line 0 s = Ok s"
| "cons_kill_line (Suc k) s =
     (if cons_e s \<noteq> cons_w s \<and> cons_buf s (unat (cons_e s - 1) mod INPUT_BUF_SIZE) \<noteq> 10
      then rbind (cons_erase s) (cons_kill_line k) else Ok s)"

definition cons_store :: "cint \<Rightarrow> 'a cstate_scheme \<Rightarrow> 'a cstate_scheme result" where
  "cons_store c s =
     (if c \<noteq> 0 \<and> cons_e s - cons_r s < of_nat INPUT_BUF_SIZE
      then let c = (if c = 13 then 10 else c)
           in rbind (consputc c s) (\<lambda>s.
              let s = s\<lparr>cons_buf := (cons_buf s)(unat (cons_e s) mod INPUT_BUF_SIZE := ucast c)\<rparr>;
                  s = s\<lparr>cons_e := cons_e s + 1\<rparr>
              in if c = 10 \<or> c = 4 \<or> cons_e s - cons_r s = of_nat INPUT_BUF_SIZE
                 then wakeup ChCons (s\<lparr>cons_w := cons_e s\<rparr>) else Ok s)
      else Ok s)"

definition consoleintr :: "cint \<Rightarrow> 'a cstate_scheme \<Rightarrow> 'a cstate_scheme result" where
  "consoleintr c s =
     rbind (lk_acquire ConsLock s) (\<lambda>s.
     rbind (if c = 16 then procdump s
            else if c = 21 then cons_kill_line (unat (cons_e s - cons_w s)) s
            else if c = 8 \<or> c = 127 then (if cons_e s \<noteq> cons_w s then cons_erase s else Ok s)
            else cons_store c s) (lk_release ConsLock))"

primrec uartintr_loop :: "nat \<Rightarrow> 'a cstate_scheme \<Rightarrow> 'a cstate_scheme result" where
  "uartintr_loop 0 s = Stop OutOfFuel"
| "uartintr_loop (Suc fuel) s =
     (let (c, s) = uartgetc s
      in if c = -1 then Ok s else rbind (consoleintr c s) (uartintr_loop fuel))"

definition uartintr :: "'a cstate_scheme \<Rightarrow> 'a cstate_scheme result" where
  "uartintr s =
     rbind (uartintr_loop (Suc (length (uart_in s))) s) (\<lambda>s.
     rbind (lk_acquire UartTxLock s) (\<lambda>s.
     rbind (uartstart s) (lk_release UartTxLock)))"

text \<open>The writes of \<^verbatim>\<open>uartinit\<close> to registers 0 to 3, in their order.\<close>

definition uartinit :: "'a cstate_scheme \<Rightarrow> 'a cstate_scheme" where
  "uartinit s =
     lk_init UartTxLock (s\<lparr>uart_regs := uart_regs s @
       [(1, 0x00), (3, 0x80), (0, 0x03), (1, 0x00), (3, 0x03), (2, 0x07), (1, 0x03)]\<rparr>)"

definition consoleinit :: "'a cstate_scheme \<Rightarrow> 'a cstate_scheme" where
  "consoleinit s =
     (let s = uartinit (lk_init ConsLock s) in s\<lparr>devsw := (devsw s)(CONSOLE := True)\<rparr>)"

end
