(* ===== verification/File.thy ===== *)
theory File
  imports Console
begin

text \<open>
  Pipes (\<^verbatim>\<open>kernel/pipe.c\<close>) and the table of open files (\<^verbatim>\<open>kernel/file.c\<close>). A pipe is named by the
  address of its page; its fields are a record at that address.
\<close>

section \<open>State\<close>

definition PIPESIZE :: nat where [simp]: "PIPESIZE = 512"

record pipe =
  pi_data :: "nat \<Rightarrow> uchar"
  pi_nread :: uint
  pi_nwrite :: uint
  pi_readopen :: bool
  pi_writeopen :: bool

datatype fdtype = FD_NONE | FD_PIPE | FD_INODE | FD_DEVICE

record kfile =
  f_type :: fdtype
  f_ref :: cint
  f_readable :: bool
  f_writable :: bool
  f_pipe :: uint64
  f_ip :: nat
  f_off :: uint
  f_major :: ushort

record kstate = cstate +
  pipes :: "uint64 \<Rightarrow> pipe"
  files :: "nat \<Rightarrow> kfile"

definition updpi :: "uint64 \<Rightarrow> (pipe \<Rightarrow> pipe) \<Rightarrow> 'a kstate_scheme \<Rightarrow> 'a kstate_scheme" where
  "updpi a f s = s\<lparr>pipes := (pipes s)(a := f (pipes s a))\<rparr>"

definition updf :: "nat \<Rightarrow> (kfile \<Rightarrow> kfile) \<Rightarrow> 'a kstate_scheme \<Rightarrow> 'a kstate_scheme" where
  "updf i f s = s\<lparr>files := (files s)(i := f (files s i))\<rparr>"

section \<open>Pipes\<close>

definition pipeclose :: "uint64 \<Rightarrow> bool \<Rightarrow> 'a kstate_scheme \<Rightarrow> 'a kstate_scheme result" where
  "pipeclose pi writable s =
     rbind (lk_acquire (PipeLock pi) s) (\<lambda>s.
     rbind (if writable
            then wakeup (ChPipeRead pi) (updpi pi (\<lambda>q. q\<lparr>pi_writeopen := False\<rparr>) s)
            else wakeup (ChPipeWrite pi) (updpi pi (\<lambda>q. q\<lparr>pi_readopen := False\<rparr>) s)) (\<lambda>s.
     if \<not> pi_readopen (pipes s pi) \<and> \<not> pi_writeopen (pipes s pi)
     then rbind (lk_release (PipeLock pi) s) (kfree pi)
     else lk_release (PipeLock pi) s))"

text \<open>
  The loop of \<^verbatim>\<open>pipewrite\<close>; a round either sleeps, at the cost of fuel, or moves one byte. The
  result is \<^verbatim>\<open>None\<close> when the reader is gone or the writer was killed. The byte \<^verbatim>\<open>ch\<close> is at \<open>ktmp\<close>.
\<close>

function pipewrite_loop :: "nat \<Rightarrow> ('a kstate_scheme \<Rightarrow> 'a kstate_scheme result) \<Rightarrow> nat \<Rightarrow> uint64 \<Rightarrow> uint64
    \<Rightarrow> nat \<Rightarrow> cint \<Rightarrow> 'a kstate_scheme \<Rightarrow> (nat option \<times> 'a kstate_scheme) result" where
  "pipewrite_loop fuel others pr pi addr i n s =
     (if int i < sint n
      then rbind (if pi_readopen (pipes s pi) then killed pr s else Ok (1, s)) (\<lambda>(k, s).
           if k \<noteq> 0 then rbind (lk_release (PipeLock pi) s) (\<lambda>s. Ok (None, s))
           else if pi_nwrite (pipes s pi) = pi_nread (pipes s pi) + of_nat PIPESIZE
           then (case fuel of
                   0 \<Rightarrow> Stop OutOfFuel
                 | Suc fuel \<Rightarrow>
                   rbind (wakeup (ChPipeRead pi) s) (\<lambda>s.
                   rbind (sleep others (ChPipeWrite pi) (PipeLock pi) s)
                     (pipewrite_loop fuel others pr pi addr i n)))
           else rbind (copyin (p_pagetable (procs s pr)) (ktmp s) (addr + of_nat i) 1 s) (\<lambda>(r, s).
                if r = -1 then Ok (Some i, s)
                else let w = pi_nwrite (pipes s pi);
                         s = updpi pi (\<lambda>q. q\<lparr>pi_data := (pi_data q)(unat w mod PIPESIZE := mem s (ktmp s)),
                                             pi_nwrite := w + 1\<rparr>) s
                     in pipewrite_loop fuel others pr pi addr (Suc i) n s))
      else Ok (Some i, s))"
  by pat_completeness auto
termination
  by (relation "measures [\<lambda>(fuel, others, pr, pi, addr, i, n, s). fuel,
                          \<lambda>(fuel, others, pr, pi, addr, i, n, s). nat (sint n) - i]") auto

definition pipewrite :: "'a kstate_scheme env \<Rightarrow> uint64 \<Rightarrow> uint64 \<Rightarrow> cint \<Rightarrow> 'a kstate_scheme
    \<Rightarrow> (cint \<times> 'a kstate_scheme) result" where
  "pipewrite E pi addr n s =
     rbind (myproc s) (\<lambda>pr.
     rbind (lk_acquire (PipeLock pi) s) (\<lambda>s.
     rbind (pipewrite_loop (fst E) (snd E) pr pi addr 0 n s) (\<lambda>(r, s). case r of
       None \<Rightarrow> Ok (-1, s)
     | Some i \<Rightarrow>
       rbind (wakeup (ChPipeRead pi) s) (\<lambda>s.
       rbind (lk_release (PipeLock pi) s) (\<lambda>s. Ok (of_nat i, s))))))"

text \<open>Waiting for data: true when the loop ends, false when the reader was killed.\<close>

primrec piperead_wait :: "nat \<Rightarrow> ('a kstate_scheme \<Rightarrow> 'a kstate_scheme result) \<Rightarrow> nat \<Rightarrow> uint64
    \<Rightarrow> 'a kstate_scheme \<Rightarrow> (bool \<times> 'a kstate_scheme) result" where
  "piperead_wait 0 others pr pi s = Stop OutOfFuel"
| "piperead_wait (Suc fuel) others pr pi s =
     (if pi_nread (pipes s pi) = pi_nwrite (pipes s pi) \<and> pi_writeopen (pipes s pi)
      then rbind (killed pr s) (\<lambda>(k, s).
           if k \<noteq> 0 then rbind (lk_release (PipeLock pi) s) (\<lambda>s. Ok (False, s))
           else rbind (sleep others (ChPipeRead pi) (PipeLock pi) s) (piperead_wait fuel others pr pi))
      else Ok (True, s))"

function piperead_loop :: "nat \<Rightarrow> uint64 \<Rightarrow> uint64 \<Rightarrow> nat \<Rightarrow> cint \<Rightarrow> 'a kstate_scheme
    \<Rightarrow> (nat \<times> 'a kstate_scheme) result" where
  "piperead_loop pr pi addr i n s =
     (if int i < sint n \<and> pi_nread (pipes s pi) \<noteq> pi_nwrite (pipes s pi)
      then let r = pi_nread (pipes s pi); ch = pi_data (pipes s pi) (unat r mod PIPESIZE);
               s = updpi pi (\<lambda>q. q\<lparr>pi_nread := r + 1\<rparr>) s;
               s = s\<lparr>mem := (mem s)(ktmp s := ch)\<rparr>
           in rbind (copyout (p_pagetable (procs s pr)) (addr + of_nat i) (ktmp s) 1 s) (\<lambda>(r, s).
              if r = -1 then Ok (i, s) else piperead_loop pr pi addr (Suc i) n s)
      else Ok (i, s))"
  by pat_completeness auto
termination
  by (relation "measure (\<lambda>(pr, pi, addr, i, n, s). nat (sint n) - i)") auto

definition piperead :: "'a kstate_scheme env \<Rightarrow> uint64 \<Rightarrow> uint64 \<Rightarrow> cint \<Rightarrow> 'a kstate_scheme
    \<Rightarrow> (cint \<times> 'a kstate_scheme) result" where
  "piperead E pi addr n s =
     rbind (myproc s) (\<lambda>pr.
     rbind (lk_acquire (PipeLock pi) s) (\<lambda>s.
     rbind (piperead_wait (Suc (fst E)) (snd E) pr pi s) (\<lambda>(ok, s).
     if \<not> ok then Ok (-1, s)
     else rbind (piperead_loop pr pi addr 0 n s) (\<lambda>(i, s).
          rbind (wakeup (ChPipeWrite pi) s) (\<lambda>s.
          rbind (lk_release (PipeLock pi) s) (\<lambda>s. Ok (of_nat i, s)))))))"

section \<open>Open files\<close>

definition fileinit :: "'a kstate_scheme \<Rightarrow> 'a kstate_scheme" where
  "fileinit s = lk_init FtableLock s"

function filealloc_from :: "nat \<Rightarrow> 'a kstate_scheme \<Rightarrow> (nat option \<times> 'a kstate_scheme) result" where
  "filealloc_from f s =
     (if f < NFILE
      then if f_ref (files s f) = 0
           then rbind (lk_release FtableLock (updf f (\<lambda>q. q\<lparr>f_ref := 1\<rparr>) s)) (\<lambda>s. Ok (Some f, s))
           else filealloc_from (Suc f) s
      else rbind (lk_release FtableLock s) (\<lambda>s. Ok (None, s)))"
  by pat_completeness auto
termination
  by (relation "measure (\<lambda>(f, s). NFILE - f)") auto

definition filealloc :: "'a kstate_scheme \<Rightarrow> (nat option \<times> 'a kstate_scheme) result" where
  "filealloc s = rbind (lk_acquire FtableLock s) (filealloc_from 0)"

definition filedup :: "nat \<Rightarrow> 'a kstate_scheme \<Rightarrow> (nat \<times> 'a kstate_scheme) result" where
  "filedup f s =
     rbind (lk_acquire FtableLock s) (\<lambda>s.
     if sint (f_ref (files s f)) < 1 then Stop (Panic ''filedup'')
     else rbind (lk_release FtableLock (updf f (\<lambda>q. q\<lparr>f_ref := f_ref q + 1\<rparr>) s)) (\<lambda>s. Ok (f, s)))"

definition fileclose :: "'a kstate_scheme env \<Rightarrow> nat \<Rightarrow> 'a kstate_scheme \<Rightarrow> 'a kstate_scheme result" where
  "fileclose E f s =
     rbind (lk_acquire FtableLock s) (\<lambda>s.
     if sint (f_ref (files s f)) < 1 then Stop (Panic ''fileclose'')
     else let s = updf f (\<lambda>q. q\<lparr>f_ref := f_ref q - 1\<rparr>) s
          in if sint (f_ref (files s f)) > 0 then lk_release FtableLock s
             else let ff = files s f;
                      s = updf f (\<lambda>q. q\<lparr>f_ref := 0, f_type := FD_NONE\<rparr>) s
                  in rbind (lk_release FtableLock s) (\<lambda>s.
                     if f_type ff = FD_PIPE then pipeclose (f_pipe ff) (f_writable ff) s
                     else if f_type ff = FD_INODE \<or> f_type ff = FD_DEVICE
                     then rbind (begin_op E s) (\<lambda>s. rbind (iput E (f_ip ff) s) (end_op E))
                     else Ok s))"

definition close_opt :: "'a kstate_scheme env \<Rightarrow> nat option \<Rightarrow> 'a kstate_scheme \<Rightarrow> 'a kstate_scheme result" where
  "close_opt E f s = (case f of None \<Rightarrow> Ok s | Some f \<Rightarrow> fileclose E f s)"

definition pipealloc :: "'a kstate_scheme env \<Rightarrow> 'a kstate_scheme \<Rightarrow> ((nat \<times> nat) option \<times> 'a kstate_scheme) result" where
  "pipealloc E s =
     rbind (filealloc s) (\<lambda>(f0, s). case f0 of
       None \<Rightarrow> Ok (None, s)
     | Some r \<Rightarrow>
       rbind (filealloc s) (\<lambda>(f1, s). case f1 of
         None \<Rightarrow> rbind (fileclose E r s) (\<lambda>s. Ok (None, s))
       | Some w \<Rightarrow>
         rbind (kalloc s) (\<lambda>(pi, s).
         if pi = 0
         then rbind (fileclose E r s) (\<lambda>s. rbind (fileclose E w s) (\<lambda>s. Ok (None, s)))
         else let s = updpi pi (\<lambda>q. q\<lparr>pi_readopen := True, pi_writeopen := True, pi_nwrite := 0, pi_nread := 0\<rparr>) s;
                  s = lk_init (PipeLock pi) s;
                  s = updf r (\<lambda>q. q\<lparr>f_type := FD_PIPE, f_readable := True, f_writable := False, f_pipe := pi\<rparr>) s;
                  s = updf w (\<lambda>q. q\<lparr>f_type := FD_PIPE, f_readable := False, f_writable := True, f_pipe := pi\<rparr>) s
              in Ok (Some (r, w), s))))"

definition filestat :: "'a kstate_scheme env \<Rightarrow> nat \<Rightarrow> uint64 \<Rightarrow> 'a kstate_scheme \<Rightarrow> (cint \<times> 'a kstate_scheme) result" where
  "filestat E f addr s =
     rbind (myproc s) (\<lambda>p.
     if f_type (files s f) = FD_INODE \<or> f_type (files s f) = FD_DEVICE
     then rbind (ilock E (f_ip (files s f)) s) (\<lambda>s.
          let s = stati (f_ip (files s f)) (loc_stat s) s
          in rbind (iunlock (f_ip (files s f)) s) (\<lambda>s.
             rbind (copyout (p_pagetable (procs s p)) addr (loc_stat s) 24 s) (\<lambda>(r, s).
             Ok (if sint r < 0 then -1 else 0, s))))
     else Ok (-1, s))"

definition dev_bad :: "kfile \<Rightarrow> 'a kstate_scheme \<Rightarrow> bool" where
  "dev_bad f s \<longleftrightarrow> sint (f_major f) < 0 \<or> sint (f_major f) \<ge> int NDEV \<or> \<not> devsw s (unat (f_major f))"

definition fileread :: "'a kstate_scheme env \<Rightarrow> nat \<Rightarrow> uint64 \<Rightarrow> cint \<Rightarrow> 'a kstate_scheme
    \<Rightarrow> (cint \<times> 'a kstate_scheme) result" where
  "fileread E f addr n s =
     (if \<not> f_readable (files s f) then Ok (-1, s)
      else (case f_type (files s f) of
        FD_PIPE \<Rightarrow> piperead E (f_pipe (files s f)) addr n s
      | FD_DEVICE \<Rightarrow> if dev_bad (files s f) s then Ok (-1, s) else consoleread E True addr n s
      | FD_INODE \<Rightarrow>
          rbind (ilock E (f_ip (files s f)) s) (\<lambda>s.
          rbind (readi E (f_ip (files s f)) True addr (f_off (files s f)) n s) (\<lambda>(r, s).
          let s = (if sint r > 0 then updf f (\<lambda>q. q\<lparr>f_off := f_off q + r\<rparr>) s else s)
          in rbind (iunlock (f_ip (files s f)) s) (\<lambda>s. Ok (r, s))))
      | FD_NONE \<Rightarrow> Stop (Panic ''fileread'')))"

text \<open>\<^verbatim>\<open>((MAXOPBLOCKS-1-1-2) / 2) * BSIZE\<close>\<close>

definition write_max :: nat where [simp]: "write_max = ((MAXOPBLOCKS - 1 - 1 - 2) div 2) * BSIZE"

text \<open>One transaction of \<^verbatim>\<open>filewrite\<close>.\<close>

definition write_chunk :: "'a kstate_scheme env \<Rightarrow> nat \<Rightarrow> uint64 \<Rightarrow> cint \<Rightarrow> 'a kstate_scheme
    \<Rightarrow> (cint \<times> 'a kstate_scheme) result" where
  "write_chunk E f addr n1 s =
     rbind (begin_op E s) (\<lambda>s.
     rbind (ilock E (f_ip (files s f)) s) (\<lambda>s.
     rbind (writei E (f_ip (files s f)) True addr (f_off (files s f)) n1 s) (\<lambda>(r, s).
     let s = (if sint r > 0 then updf f (\<lambda>q. q\<lparr>f_off := f_off q + r\<rparr>) s else s)
     in rbind (iunlock (f_ip (files s f)) s) (\<lambda>s.
        rbind (end_op E s) (\<lambda>s. Ok (r, s))))))"

text \<open>\<^verbatim>\<open>i\<close> and \<^verbatim>\<open>n\<close> are non-negative in the loop; a chunk that is written whole has positive length.\<close>

function filewrite_loop :: "'a kstate_scheme env \<Rightarrow> nat \<Rightarrow> uint64 \<Rightarrow> nat \<Rightarrow> nat \<Rightarrow> 'a kstate_scheme
    \<Rightarrow> (nat \<times> 'a kstate_scheme) result" where
  "filewrite_loop E f addr i n s =
     (if i < n
      then let n1 = (if n - i > write_max then write_max else n - i)
           in rbind (write_chunk E f (addr + of_nat i) (of_nat n1) s) (\<lambda>(r, s).
              if r \<noteq> of_nat n1 then Ok (i, s) else filewrite_loop E f addr (i + n1) n s)
      else Ok (i, s))"
  by pat_completeness auto
termination
  by (relation "measure (\<lambda>(E, f, addr, i, n, s). n - i)") (auto simp: Let_def)

definition filewrite :: "'a kstate_scheme env \<Rightarrow> nat \<Rightarrow> uint64 \<Rightarrow> cint \<Rightarrow> 'a kstate_scheme
    \<Rightarrow> (cint \<times> 'a kstate_scheme) result" where
  "filewrite E f addr n s =
     (if \<not> f_writable (files s f) then Ok (-1, s)
      else (case f_type (files s f) of
        FD_PIPE \<Rightarrow> pipewrite E (f_pipe (files s f)) addr n s
      | FD_DEVICE \<Rightarrow> if dev_bad (files s f) s then Ok (-1, s) else consolewrite E True addr n s
      | FD_INODE \<Rightarrow>
          rbind (filewrite_loop E f addr 0 (nat (sint n)) s) (\<lambda>(i, s).
          Ok (if int i = sint n then n else -1, s))
      | FD_NONE \<Rightarrow> Stop (Panic ''filewrite'')))"

end
