(* ===== verification/Fork.thy ===== *)
theory Fork
  imports File
begin

text \<open>
  Creation and end of processes (\<^verbatim>\<open>userinit\<close>, \<^verbatim>\<open>fork\<close> and \<^verbatim>\<open>exit\<close> of \<^verbatim>\<open>kernel/proc.c\<close>), which also use the
  open files and the file system, and the arguments of system calls (\<^verbatim>\<open>kernel/syscall.c\<close>).
\<close>

section \<open>Trap frames\<close>

text \<open>\<^verbatim>\<open>struct trapframe\<close>, by byte offset; it has 288 bytes.\<close>

definition tf_kernel_satp :: uint64 where [simp]: "tf_kernel_satp = 0"
definition tf_kernel_sp :: uint64 where [simp]: "tf_kernel_sp = 8"
definition tf_kernel_trap :: uint64 where [simp]: "tf_kernel_trap = 16"
definition tf_epc :: uint64 where [simp]: "tf_epc = 24"
definition tf_kernel_hartid :: uint64 where [simp]: "tf_kernel_hartid = 32"
definition tf_sp :: uint64 where [simp]: "tf_sp = 48"
definition tf_a0 :: uint64 where [simp]: "tf_a0 = 112"
definition tf_a1 :: uint64 where [simp]: "tf_a1 = 120"
definition tf_a7 :: uint64 where [simp]: "tf_a7 = 168"
definition tf_size :: nat where [simp]: "tf_size = 288"

definition tf_get :: "nat \<Rightarrow> uint64 \<Rightarrow> 'a pstate_scheme \<Rightarrow> uint64" where
  "tf_get p off s = load64 (mem s) (p_trapframe (procs s p) + off)"

definition tf_set :: "nat \<Rightarrow> uint64 \<Rightarrow> uint64 \<Rightarrow> 'a pstate_scheme \<Rightarrow> 'a pstate_scheme" where
  "tf_set p off v s = s\<lparr>mem := store64 (mem s) (p_trapframe (procs s p) + off) v\<rparr>"

text \<open>Assignment of a whole \<^verbatim>\<open>struct trapframe\<close>.\<close>

definition tf_copy :: "uint64 \<Rightarrow> uint64 \<Rightarrow> 'a pstate_scheme \<Rightarrow> 'a pstate_scheme" where
  "tf_copy dst src s = s\<lparr>mem := blit (mem s) dst (mem s) src tf_size\<rparr>"

section \<open>Creation\<close>

text \<open>\<open>initcode\<close> and \<open>root\<close> are the addresses of the array of that name and of the string "/".\<close>

definition userinit :: "'a kstate_scheme env \<Rightarrow> uint64 \<Rightarrow> uint64 \<Rightarrow> 'a kstate_scheme \<Rightarrow> 'a kstate_scheme result" where
  "userinit E initcode root s =
     rbind (allocproc s) (\<lambda>(p, s).
     let s = s\<lparr>initproc := p\<rparr>
     in (case p of
           None \<Rightarrow> Stop (Fault ''null proc'')
         | Some p \<Rightarrow>
           rbind (uvmfirst (p_pagetable (procs s p)) initcode 52 s) (\<lambda>s.
           let s = updp p (\<lambda>q. q\<lparr>p_sz := PGSIZE\<rparr>) s;
               s = tf_set p tf_epc 0 s;
               s = tf_set p tf_sp PGSIZE s;
               s = updp p (\<lambda>q. q\<lparr>p_name := [105, 110, 105, 116, 99, 111, 100, 101]\<rparr>) s
           in rbind (namei E root s) (\<lambda>(ip, s).
              let s = updp p (\<lambda>q. q\<lparr>p_cwd := ip, p_state := RUNNABLE\<rparr>) s
              in lk_release (ProcLock p) s))))"

definition fork_ofile :: "nat \<Rightarrow> nat \<Rightarrow> nat \<Rightarrow> 'a kstate_scheme \<Rightarrow> 'a kstate_scheme result" where
  "fork_ofile p np i s =
     (case p_ofile (procs s p) i of
        None \<Rightarrow> Ok s
      | Some f \<Rightarrow> rbind (filedup f s) (\<lambda>(f, s).
          Ok (updp np (\<lambda>q. q\<lparr>p_ofile := (p_ofile q)(i := Some f)\<rparr>) s)))"

definition fork :: "'a kstate_scheme \<Rightarrow> (cint \<times> 'a kstate_scheme) result" where
  "fork s =
     rbind (myproc s) (\<lambda>p.
     rbind (allocproc s) (\<lambda>(np, s). case np of
       None \<Rightarrow> Ok (-1, s)
     | Some np \<Rightarrow>
       let s = updp np (\<lambda>q. q\<lparr>p_mask := p_mask (procs s p)\<rparr>) s
       in rbind (uvmcopy (p_pagetable (procs s p)) (p_pagetable (procs s np)) (p_sz (procs s p)) s) (\<lambda>(r, s).
          if sint r < 0
          then rbind (freeproc np s) (\<lambda>s.
               rbind (lk_release (ProcLock np) s) (\<lambda>s. Ok (-1, s)))
          else let s = updp np (\<lambda>q. q\<lparr>p_sz := p_sz (procs s p)\<rparr>) s;
                   s = tf_copy (p_trapframe (procs s np)) (p_trapframe (procs s p)) s;
                   s = tf_set np tf_a0 0 s
               in rbind (for_each (fork_ofile p np) [0..<NOFILE] s) (\<lambda>s.
                  rbind (case p_cwd (procs s p) of
                           None \<Rightarrow> Stop (Fault ''null inode'') | Some ip \<Rightarrow> idup ip s) (\<lambda>(ip, s).
                  let s = updp np (\<lambda>q. q\<lparr>p_cwd := Some ip, p_name := p_name (procs s p)\<rparr>) s;
                      pid = p_pid (procs s np)
                  in rbind (lk_release (ProcLock np) s) (\<lambda>s.
                     rbind (lk_acquire WaitLock s) (\<lambda>s.
                     rbind (lk_release WaitLock (updp np (\<lambda>q. q\<lparr>p_parent := Some p\<rparr>) s)) (\<lambda>s.
                     rbind (lk_acquire (ProcLock np) s) (\<lambda>s.
                     rbind (lk_release (ProcLock np) (updp np (\<lambda>q. q\<lparr>p_state := RUNNABLE\<rparr>) s)) (\<lambda>s.
                     Ok (pid, s)))))))))))"

section \<open>End\<close>

definition exit_close :: "'a kstate_scheme env \<Rightarrow> nat \<Rightarrow> nat \<Rightarrow> 'a kstate_scheme \<Rightarrow> 'a kstate_scheme result" where
  "exit_close E p fd s =
     (case p_ofile (procs s p) fd of
        None \<Rightarrow> Ok s
      | Some f \<Rightarrow> rbind (fileclose E f s) (\<lambda>s.
          Ok (updp p (\<lambda>q. q\<lparr>p_ofile := (p_ofile q)(fd := None)\<rparr>) s)))"

text \<open>\<^verbatim>\<open>exit\<close> up to its call of \<^verbatim>\<open>sched\<close>.\<close>

definition exit_zombie :: "'a kstate_scheme env \<Rightarrow> cint \<Rightarrow> 'a kstate_scheme \<Rightarrow> 'a kstate_scheme result" where
  "exit_zombie E status s =
     rbind (myproc s) (\<lambda>p.
     if initproc s = Some p then Stop (Panic ''init exiting'')
     else rbind (for_each (exit_close E p) [0..<NOFILE] s) (\<lambda>s.
          rbind (begin_op E s) (\<lambda>s.
          rbind (case p_cwd (procs s p) of
                   None \<Rightarrow> Stop (Fault ''null inode'') | Some ip \<Rightarrow> iput E ip s) (\<lambda>s.
          rbind (end_op E s) (\<lambda>s.
          let s = updp p (\<lambda>q. q\<lparr>p_cwd := None\<rparr>) s
          in rbind (lk_acquire WaitLock s) (\<lambda>s.
             rbind (reparent p s) (\<lambda>s.
             rbind (wakeup (case p_parent (procs s p) of Some q \<Rightarrow> ChProc q | None \<Rightarrow> ChNone) s) (\<lambda>s.
             rbind (lk_acquire (ProcLock p) s) (\<lambda>s.
             let s = updp p (\<lambda>q. q\<lparr>p_xstate := status, p_state := ZOMBIE\<rparr>) s
             in lk_release WaitLock s)))))))))"

definition exit :: "'a kstate_scheme env \<Rightarrow> cint \<Rightarrow> 'a kstate_scheme \<Rightarrow> 'b result" where
  "exit E status s =
     rbind (exit_zombie E status s) (\<lambda>s.
     rbind (sched (snd E) s) (\<lambda>_. Stop (Panic ''zombie exit'')))"

section \<open>Arguments of system calls\<close>

text \<open>\<^verbatim>\<open>fetchaddr\<close> stores through \<^verbatim>\<open>ip\<close>, a kernel address.\<close>

definition fetchaddr :: "uint64 \<Rightarrow> uint64 \<Rightarrow> 'a kstate_scheme \<Rightarrow> (cint \<times> 'a kstate_scheme) result" where
  "fetchaddr addr ip s =
     rbind (myproc s) (\<lambda>p.
     if addr \<ge> p_sz (procs s p) \<or> addr + 8 > p_sz (procs s p) then Ok (-1, s)
     else rbind (copyin (p_pagetable (procs s p)) ip addr 8 s) (\<lambda>(r, s).
          Ok (if r \<noteq> 0 then -1 else 0, s)))"

definition fetchstr :: "uint64 \<Rightarrow> uint64 \<Rightarrow> cint \<Rightarrow> 'a kstate_scheme \<Rightarrow> (cint \<times> 'a kstate_scheme) result" where
  "fetchstr addr b mx s =
     rbind (myproc s) (\<lambda>p.
     rbind (copyinstr (p_pagetable (procs s p)) b addr (scast mx) s) (\<lambda>(r, s).
     if sint r < 0 then Ok (-1, s)
     else (case strlen (mem s) b of None \<Rightarrow> Stop OutOfFuel | Some n \<Rightarrow> Ok (of_nat n, s))))"

definition argraw :: "nat \<Rightarrow> 'a kstate_scheme \<Rightarrow> uint64 result" where
  "argraw n s =
     rbind (myproc s) (\<lambda>p.
     if n \<le> 5 then Ok (tf_get p (tf_a0 + 8 * of_nat n) s) else Stop (Panic ''argraw''))"

definition argint :: "nat \<Rightarrow> 'a kstate_scheme \<Rightarrow> cint result" where
  "argint n s = rbind (argraw n s) (\<lambda>v. Ok (ucast v))"

definition argaddr :: "nat \<Rightarrow> 'a kstate_scheme \<Rightarrow> uint64 result" where
  "argaddr n s = argraw n s"

definition argstr :: "nat \<Rightarrow> uint64 \<Rightarrow> cint \<Rightarrow> 'a kstate_scheme \<Rightarrow> (cint \<times> 'a kstate_scheme) result" where
  "argstr n b mx s = rbind (argaddr n s) (\<lambda>addr. fetchstr addr b mx s)"

end
