(* ===== verification/Exec.thy ===== *)
theory Exec
  imports Fork
begin

text \<open>
  Program loading, \<^verbatim>\<open>kernel/exec.c\<close>. The ELF structures and the argument array of the new stack are
  temporaries of the kernel at fixed offsets from \<open>ktmp\<close>. \<^verbatim>\<open>argv\<close> is the list of its non-null entries.
\<close>

definition ELF_MAGIC :: uint where "ELF_MAGIC = 0x464C457F"
definition ELF_PROG_LOAD :: uint where [simp]: "ELF_PROG_LOAD = 1"
definition MAXARG :: nat where [simp]: "MAXARG = 32"

definition loc_ustack :: "'a pstate_scheme \<Rightarrow> uint64" where [simp]: "loc_ustack s = ktmp s + 512"
definition loc_elf :: "'a pstate_scheme \<Rightarrow> uint64" where [simp]: "loc_elf s = ktmp s + 1024"
definition loc_ph :: "'a pstate_scheme \<Rightarrow> uint64" where [simp]: "loc_ph s = ktmp s + 1088"

text \<open>The fields of \<^verbatim>\<open>struct elfhdr\<close> and \<^verbatim>\<open>struct proghdr\<close> that are used.\<close>

record elfhdr =
  e_magic :: uint
  e_entry :: uint64
  e_phoff :: uint64
  e_phnum :: ushort

definition load_elf :: "bytes \<Rightarrow> uint64 \<Rightarrow> elfhdr" where
  "load_elf m a = \<lparr>e_magic = load32 m a, e_entry = load64 m (a + 24), e_phoff = load64 m (a + 32),
     e_phnum = load16 m (a + 56)\<rparr>"

record proghdr =
  ph_type :: uint
  ph_flags :: uint
  ph_off :: uint64
  ph_vaddr :: uint64
  ph_filesz :: uint64
  ph_memsz :: uint64

definition load_ph :: "bytes \<Rightarrow> uint64 \<Rightarrow> proghdr" where
  "load_ph m a = \<lparr>ph_type = load32 m a, ph_flags = load32 m (a + 4), ph_off = load64 m (a + 8),
     ph_vaddr = load64 m (a + 16), ph_filesz = load64 m (a + 32), ph_memsz = load64 m (a + 40)\<rparr>"

definition flags2perm :: "cint \<Rightarrow> cint" where
  "flags2perm flags =
     (let perm = (if flags AND 1 \<noteq> 0 then ucast PTE_X else 0)
      in if flags AND 2 \<noteq> 0 then perm OR ucast PTE_W else perm)"

text \<open>
  \<^verbatim>\<open>i\<close> runs through the multiples of \<^verbatim>\<open>PGSIZE\<close> below \<^verbatim>\<open>sz\<close>. Reading stops at the end of the file, long
  before \<^verbatim>\<open>i\<close> could wrap around.
\<close>

function loadseg_loop :: "'a fstate_scheme env \<Rightarrow> uint64 \<Rightarrow> uint64 \<Rightarrow> nat \<Rightarrow> uint \<Rightarrow> uint \<Rightarrow> nat
    \<Rightarrow> 'a fstate_scheme \<Rightarrow> (cint \<times> 'a fstate_scheme) result" where
  "loadseg_loop E pagetable va ip offset sz i s =
     (if i < unat sz
      then rbind (walkaddr pagetable (va + of_nat i) s) (\<lambda>pa.
           if pa = 0 then Stop (Panic ''loadseg: address should exist'')
           else let n = (if sz - of_nat i < ucast PGSIZE then sz - of_nat i else ucast PGSIZE)
                in rbind (readi E ip False pa (offset + of_nat i) n s) (\<lambda>(r, s).
                   if r \<noteq> n then Ok (-1, s)
                   else loadseg_loop E pagetable va ip offset sz (i + 4096) s))
      else Ok (0, s))"
  by pat_completeness auto
termination
  by (relation "measure (\<lambda>(E, pt, va, ip, off, sz, i, s). unat sz - i)") auto

definition loadseg :: "'a fstate_scheme env \<Rightarrow> uint64 \<Rightarrow> uint64 \<Rightarrow> nat \<Rightarrow> uint \<Rightarrow> uint
    \<Rightarrow> 'a fstate_scheme \<Rightarrow> (cint \<times> 'a fstate_scheme) result" where
  "loadseg E pagetable va ip offset sz s = loadseg_loop E pagetable va ip offset sz 0 s"

text \<open>
  The loop over the program headers; the result is whether it succeeded and the size reached,
  which \<^verbatim>\<open>bad\<close> needs. \<^verbatim>\<open>off\<close> is an \<^verbatim>\<open>int\<close>.
\<close>

definition exec_segment :: "'a fstate_scheme env \<Rightarrow> nat \<Rightarrow> uint64 \<Rightarrow> proghdr \<Rightarrow> uint64 \<Rightarrow> 'a fstate_scheme
    \<Rightarrow> ((bool \<times> uint64) \<times> 'a fstate_scheme) result" where
  "exec_segment E ip pagetable ph sz s =
     (if ph_type ph \<noteq> ELF_PROG_LOAD then Ok ((True, sz), s)
      else if ph_memsz ph < ph_filesz ph then Ok ((False, sz), s)
      else if ph_vaddr ph + ph_memsz ph < ph_vaddr ph then Ok ((False, sz), s)
      else if ph_vaddr ph mod PGSIZE \<noteq> 0 then Ok ((False, sz), s)
      else rbind (uvmalloc pagetable sz (ph_vaddr ph + ph_memsz ph) (flags2perm (ph_flags ph)) s) (\<lambda>(sz1, s).
           if sz1 = 0 then Ok ((False, sz), s)
           else rbind (loadseg E pagetable (ph_vaddr ph) ip (ucast (ph_off ph)) (ucast (ph_filesz ph)) s) (\<lambda>(r, s).
                Ok ((sint r \<ge> 0, sz1), s))))"

primrec exec_segments :: "nat \<Rightarrow> 'a fstate_scheme env \<Rightarrow> nat \<Rightarrow> uint64 \<Rightarrow> cint \<Rightarrow> uint64 \<Rightarrow> 'a fstate_scheme
    \<Rightarrow> ((bool \<times> uint64) \<times> 'a fstate_scheme) result" where
  "exec_segments 0 E ip pagetable off sz s = Ok ((True, sz), s)"
| "exec_segments (Suc n) E ip pagetable off sz s =
     rbind (readi E ip False (loc_ph s) off 56 s) (\<lambda>(r, s).
     if r \<noteq> 56 then Ok ((False, sz), s)
     else rbind (exec_segment E ip pagetable (load_ph (mem s) (loc_ph s)) sz s) (\<lambda>((ok, sz), s).
          if ok then exec_segments n E ip pagetable (off + 56) sz s else Ok ((False, sz), s)))"

text \<open>
  Pushing the argument strings: the new stack pointer and \<^verbatim>\<open>ustack\<close>, or none when \<^verbatim>\<open>bad\<close> is reached.
\<close>

primrec exec_args :: "uint64 list \<Rightarrow> uint64 \<Rightarrow> uint64 \<Rightarrow> uint64 \<Rightarrow> uint64 list \<Rightarrow> 'a kmem_scheme
    \<Rightarrow> ((uint64 \<times> uint64 list) option \<times> 'a kmem_scheme) result" where
  "exec_args [] pagetable stackbase sp ustack s = Ok (Some (sp, ustack), s)"
| "exec_args (a # argv) pagetable stackbase sp ustack s =
     (if length ustack \<ge> MAXARG then Ok (None, s)
      else (case strlen (mem s) a of
              None \<Rightarrow> Stop OutOfFuel
            | Some n \<Rightarrow>
              let sp = sp - of_nat (n + 1); sp = sp - sp mod 16
              in if sp < stackbase then Ok (None, s)
                 else rbind (copyout pagetable sp a (of_nat (n + 1)) s) (\<lambda>(r, s).
                      if sint r < 0 then Ok (None, s)
                      else exec_args argv pagetable stackbase sp (ustack @ [sp]) s)))"

text \<open>The array of pointers, with its final null.\<close>

definition exec_push_ustack :: "uint64 \<Rightarrow> uint64 \<Rightarrow> uint64 \<Rightarrow> uint64 list \<Rightarrow> 'a pstate_scheme
    \<Rightarrow> (uint64 option \<times> 'a pstate_scheme) result" where
  "exec_push_ustack pagetable stackbase sp ustack s =
     (if length ustack \<ge> MAXARG then Stop (Fault ''ustack index'')
      else let words = ustack @ [0];
               s = s\<lparr>mem := foldl (\<lambda>m i. store64 m (loc_ustack s + 8 * of_nat i) (words ! i)) (mem s)
                              [0..<length words]\<rparr>;
               sp = sp - of_nat (length words) * 8; sp = sp - sp mod 16
           in if sp < stackbase then Ok (None, s)
              else rbind (copyout pagetable sp (loc_ustack s) (of_nat (length words) * 8) s) (\<lambda>(r, s).
                   Ok (if sint r < 0 then None else Some sp, s)))"

text \<open>The last element of a path, as \<^verbatim>\<open>exec\<close> finds it, and the name \<^verbatim>\<open>safestrcpy\<close> makes of it.\<close>

definition last_elem :: "bytes \<Rightarrow> uint64 \<Rightarrow> nat \<Rightarrow> uint64" where
  "last_elem m path n =
     foldl (\<lambda>l i. if m (path + of_nat i) = 47 then path + of_nat i + 1 else l) path [0..<n]"

definition short_name :: "bytes \<Rightarrow> uint64 \<Rightarrow> uchar list" where
  "short_name m a = takeWhile (\<lambda>c. c \<noteq> 0) (map (\<lambda>i. m (a + of_nat i)) [0..<15])"

definition exec_bad :: "'a lstate_scheme env \<Rightarrow> ('a lstate_scheme \<Rightarrow> 'a lstate_scheme result) \<Rightarrow> uint64 \<Rightarrow> uint64
    \<Rightarrow> bool \<Rightarrow> 'a lstate_scheme \<Rightarrow> (cint \<times> 'a lstate_scheme) result" where
  "exec_bad E unlock pagetable sz ip s =
     rbind (if pagetable \<noteq> 0 then proc_freepagetable pagetable sz s else Ok s) (\<lambda>s.
     rbind (if ip then rbind (unlock s) (end_op E) else Ok s) (\<lambda>s. Ok (-1, s)))"

text \<open>The second half: the user stack, the arguments, and the switch to the new image.\<close>

definition exec_commit :: "uint64 \<Rightarrow> uint64 \<Rightarrow> uint64 \<Rightarrow> uint64 \<Rightarrow> uint64 \<Rightarrow> nat \<Rightarrow> 'a kstate_scheme
    \<Rightarrow> (cint \<times> 'a kstate_scheme) result" where
  "exec_commit path pagetable sz sp pc0 argc s =
     rbind (myproc s) (\<lambda>p.
     let s = tf_set p tf_a1 sp s
     in (case strlen (mem s) path of
           None \<Rightarrow> Stop OutOfFuel
         | Some n \<Rightarrow>
           let oldsz = p_sz (procs s p); oldpagetable = p_pagetable (procs s p);
               s = updp p (\<lambda>q. q\<lparr>p_name := short_name (mem s) (last_elem (mem s) path n)\<rparr>) s;
               s = updp p (\<lambda>q. q\<lparr>p_pagetable := pagetable, p_sz := sz\<rparr>) s;
               s = tf_set p tf_epc pc0 s;
               s = tf_set p tf_sp sp s
           in rbind (proc_freepagetable oldpagetable oldsz s) (\<lambda>s. Ok (of_nat argc, s))))"

definition exec_stack :: "'a kstate_scheme env \<Rightarrow> uint64 \<Rightarrow> uint64 list \<Rightarrow> uint64 \<Rightarrow> uint64 \<Rightarrow> uint64
    \<Rightarrow> 'a kstate_scheme \<Rightarrow> (cint \<times> 'a kstate_scheme) result" where
  "exec_stack E path argv pagetable sz pc0 s =
     (let sz = PGROUNDUP sz; bad = (\<lambda>sz s. exec_bad E Ok pagetable sz False s)
      in rbind (uvmalloc pagetable sz (sz + 2 * PGSIZE) (ucast PTE_W) s) (\<lambda>(sz1, s).
         if sz1 = 0 then bad sz s
         else rbind (uvmclear pagetable (sz1 - 2 * PGSIZE) s) (\<lambda>s.
              let stackbase = sz1 - PGSIZE
              in rbind (exec_args argv pagetable stackbase sz1 [] s) (\<lambda>(r, s). case r of
                   None \<Rightarrow> bad sz1 s
                 | Some (sp, ustack) \<Rightarrow>
                   rbind (exec_push_ustack pagetable stackbase sp ustack s) (\<lambda>(r, s). case r of
                     None \<Rightarrow> bad sz1 s
                   | Some sp \<Rightarrow> exec_commit path pagetable sz1 sp pc0 (length ustack) s)))))"

definition exec :: "'a kstate_scheme env \<Rightarrow> uint64 \<Rightarrow> uint64 list \<Rightarrow> 'a kstate_scheme
    \<Rightarrow> (cint \<times> 'a kstate_scheme) result" where
  "exec E path argv s =
     rbind (myproc s) (\<lambda>p.
     rbind (begin_op E s) (\<lambda>s.
     rbind (namei E path s) (\<lambda>(ip, s). case ip of
       None \<Rightarrow> rbind (end_op E s) (\<lambda>s. Ok (-1, s))
     | Some ip \<Rightarrow>
       let bad = (\<lambda>pagetable sz s. exec_bad E (iunlockput E ip) pagetable sz True s)
       in rbind (ilock E ip s) (\<lambda>s.
          rbind (readi E ip False (loc_elf s) 0 64 s) (\<lambda>(r, s).
          let elf = load_elf (mem s) (loc_elf s)
          in if r \<noteq> 64 then bad 0 0 s
             else if e_magic elf \<noteq> ELF_MAGIC then bad 0 0 s
             else rbind (proc_pagetable p s) (\<lambda>(pagetable, s).
                  if pagetable = 0 then bad 0 0 s
                  else rbind (exec_segments (unat (e_phnum elf)) E ip pagetable (ucast (e_phoff elf)) 0 s)
                         (\<lambda>((ok, sz), s).
                       if \<not> ok then bad pagetable sz s
                       else rbind (iunlockput E ip s) (\<lambda>s.
                            rbind (end_op E s) (\<lambda>s.
                            exec_stack E path argv pagetable sz (e_entry elf) s)))))))))"

end
