(* ===== verification/Sysfile.thy ===== *)
theory Sysfile
  imports Exec
begin

text \<open>
  The system calls on files, \<^verbatim>\<open>kernel/sysfile.c\<close>. Results are \<^verbatim>\<open>uint64\<close>; an \<^verbatim>\<open>int\<close> is sign-extended.
\<close>

section \<open>Descriptors\<close>

definition O_WRONLY :: cint where [simp]: "O_WRONLY = 0x001"
definition O_RDWR :: cint where [simp]: "O_RDWR = 0x002"
definition O_CREATE :: cint where [simp]: "O_CREATE = 0x200"
definition O_TRUNC :: cint where [simp]: "O_TRUNC = 0x400"

text \<open>The addresses of the string literals "." and "..".\<close>

record sstate = kstate +
  str_dot :: uint64
  str_dotdot :: uint64

definition argfd :: "nat \<Rightarrow> 'a sstate_scheme \<Rightarrow> (nat \<times> nat) option result" where
  "argfd n s =
     rbind (argint n s) (\<lambda>fd.
     if sint fd < 0 \<or> sint fd \<ge> int NOFILE then Ok None
     else rbind (myproc s) (\<lambda>p.
          Ok (map_option (\<lambda>f. (unat fd, f)) (p_ofile (procs s p) (unat fd)))))"

function fdalloc_from :: "nat \<Rightarrow> nat \<Rightarrow> nat \<Rightarrow> 'a sstate_scheme \<Rightarrow> nat option \<times> 'a sstate_scheme" where
  "fdalloc_from fd p f s =
     (if fd < NOFILE
      then if p_ofile (procs s p) fd = None
           then (Some fd, updp p (\<lambda>q. q\<lparr>p_ofile := (p_ofile q)(fd := Some f)\<rparr>) s)
           else fdalloc_from (Suc fd) p f s
      else (None, s))"
  by pat_completeness auto
termination
  by (relation "measure (\<lambda>(fd, p, f, s). NOFILE - fd)") auto

definition fdalloc :: "nat \<Rightarrow> 'a sstate_scheme \<Rightarrow> (nat option \<times> 'a sstate_scheme) result" where
  "fdalloc f s = rbind (myproc s) (\<lambda>p. Ok (fdalloc_from 0 p f s))"

definition sys_dup :: "'a sstate_scheme \<Rightarrow> (uint64 \<times> 'a sstate_scheme) result" where
  "sys_dup s =
     rbind (argfd 0 s) (\<lambda>a. case a of
       None \<Rightarrow> Ok (-1, s)
     | Some (_, f) \<Rightarrow>
       rbind (fdalloc f s) (\<lambda>(fd, s). case fd of
         None \<Rightarrow> Ok (-1, s)
       | Some fd \<Rightarrow> rbind (filedup f s) (\<lambda>(_, s). Ok (of_nat fd, s))))"

definition sys_read :: "'a sstate_scheme env \<Rightarrow> 'a sstate_scheme \<Rightarrow> (uint64 \<times> 'a sstate_scheme) result" where
  "sys_read E s =
     rbind (argaddr 1 s) (\<lambda>p. rbind (argint 2 s) (\<lambda>n. rbind (argfd 0 s) (\<lambda>a. case a of
       None \<Rightarrow> Ok (-1, s)
     | Some (_, f) \<Rightarrow> rbind (fileread E f p n s) (\<lambda>(r, s). Ok (scast r, s)))))"

definition sys_write :: "'a sstate_scheme env \<Rightarrow> 'a sstate_scheme \<Rightarrow> (uint64 \<times> 'a sstate_scheme) result" where
  "sys_write E s =
     rbind (argaddr 1 s) (\<lambda>p. rbind (argint 2 s) (\<lambda>n. rbind (argfd 0 s) (\<lambda>a. case a of
       None \<Rightarrow> Ok (-1, s)
     | Some (_, f) \<Rightarrow> rbind (filewrite E f p n s) (\<lambda>(r, s). Ok (scast r, s)))))"

definition clear_fd :: "nat \<Rightarrow> nat \<Rightarrow> 'a sstate_scheme \<Rightarrow> 'a sstate_scheme" where
  "clear_fd p fd s = updp p (\<lambda>q. q\<lparr>p_ofile := (p_ofile q)(fd := None)\<rparr>) s"

definition sys_close :: "'a sstate_scheme env \<Rightarrow> 'a sstate_scheme \<Rightarrow> (uint64 \<times> 'a sstate_scheme) result" where
  "sys_close E s =
     rbind (argfd 0 s) (\<lambda>a. case a of
       None \<Rightarrow> Ok (-1, s)
     | Some (fd, f) \<Rightarrow>
       rbind (myproc s) (\<lambda>p.
       rbind (fileclose E f (clear_fd p fd s)) (\<lambda>s. Ok (0, s))))"

definition sys_fstat :: "'a sstate_scheme env \<Rightarrow> 'a sstate_scheme \<Rightarrow> (uint64 \<times> 'a sstate_scheme) result" where
  "sys_fstat E s =
     rbind (argaddr 1 s) (\<lambda>st. rbind (argfd 0 s) (\<lambda>a. case a of
       None \<Rightarrow> Ok (-1, s)
     | Some (_, f) \<Rightarrow> rbind (filestat E f st s) (\<lambda>(r, s). Ok (scast r, s))))"

section \<open>Links\<close>

definition fail_op :: "'a sstate_scheme env \<Rightarrow> 'a sstate_scheme \<Rightarrow> (uint64 \<times> 'a sstate_scheme) result" where
  "fail_op E s = rbind (end_op E s) (\<lambda>s. Ok (-1, s))"

definition add_nlink :: "'a sstate_scheme env \<Rightarrow> nat \<Rightarrow> ushort \<Rightarrow> 'a sstate_scheme \<Rightarrow> 'a sstate_scheme result" where
  "add_nlink E ip d s = iupdate E ip (updi ip (\<lambda>q. q\<lparr>i_nlink := i_nlink q + d\<rparr>) s)"

text \<open>\<^verbatim>\<open>bad:\<close> of \<^verbatim>\<open>sys_link\<close>\<close>

definition link_bad :: "'a sstate_scheme env \<Rightarrow> nat \<Rightarrow> 'a sstate_scheme \<Rightarrow> (uint64 \<times> 'a sstate_scheme) result" where
  "link_bad E ip s =
     rbind (ilock E ip s) (\<lambda>s.
     rbind (add_nlink E ip (-1) s) (\<lambda>s.
     rbind (iunlockput E ip s) (fail_op E)))"

definition sys_link :: "'a sstate_scheme env \<Rightarrow> 'a sstate_scheme \<Rightarrow> (uint64 \<times> 'a sstate_scheme) result" where
  "sys_link E s =
     rbind (argstr 0 (loc_path s) (of_nat MAXPATH) s) (\<lambda>(r0, s).
     if sint r0 < 0 then Ok (-1, s)
     else rbind (argstr 1 (loc_new s) (of_nat MAXPATH) s) (\<lambda>(r1, s).
     if sint r1 < 0 then Ok (-1, s)
     else rbind (begin_op E s) (\<lambda>s.
     rbind (namei E (loc_path s) s) (\<lambda>(ip, s). case ip of
       None \<Rightarrow> fail_op E s
     | Some ip \<Rightarrow>
       rbind (ilock E ip s) (\<lambda>s.
       if i_type (inodes s ip) = T_DIR then rbind (iunlockput E ip s) (fail_op E)
       else rbind (add_nlink E ip 1 s) (\<lambda>s.
       rbind (iunlock ip s) (\<lambda>s.
       rbind (nameiparent E (loc_new s) (loc_name s) s) (\<lambda>(dp, s). case dp of
         None \<Rightarrow> link_bad E ip s
       | Some dp \<Rightarrow>
         rbind (ilock E dp s) (\<lambda>s.
         rbind (if i_dev (inodes s dp) \<noteq> i_dev (inodes s ip) then Ok (-1, s)
                else dirlink E dp (loc_name s) (i_inum (inodes s ip)) s) (\<lambda>(r, s).
         rbind (iunlockput E dp s) (\<lambda>s.
         if sint r < 0 then link_bad E ip s
         else rbind (iput E ip s) (\<lambda>s.
              rbind (end_op E s) (\<lambda>s. Ok (0, s))))))))))))))"

function isdirempty_loop :: "'a sstate_scheme env \<Rightarrow> nat \<Rightarrow> nat \<Rightarrow> 'a sstate_scheme
    \<Rightarrow> (bool \<times> 'a sstate_scheme) result" where
  "isdirempty_loop E dp off s =
     (if off < unat (i_size (inodes s dp))
      then rbind (readi E dp False (loc_de s) (of_nat off) 16 s) (\<lambda>(r, s).
           if r \<noteq> 16 then Stop (Panic ''isdirempty: readi'')
           else if load16 (mem s) (loc_de s) \<noteq> 0 then Ok (False, s)
           else isdirempty_loop E dp (off + 16) s)
      else Ok (True, s))"
  by pat_completeness auto
termination
proof (relation "measure (\<lambda>(E, dp, off, s). 2 ^ 32 - off)", goal_cases)
  case (2 E dp off s)
  have "off < 2 ^ 32" using below_uint [OF 2(1)] by simp
  then show ?case by simp
qed simp

definition isdirempty :: "'a sstate_scheme env \<Rightarrow> nat \<Rightarrow> 'a sstate_scheme \<Rightarrow> (bool \<times> 'a sstate_scheme) result" where
  "isdirempty E dp s = isdirempty_loop E dp 32 s"

text \<open>\<^verbatim>\<open>bad:\<close> of \<^verbatim>\<open>sys_unlink\<close>, and the part after its checks.\<close>

definition unlink_bad :: "'a sstate_scheme env \<Rightarrow> nat \<Rightarrow> 'a sstate_scheme \<Rightarrow> (uint64 \<times> 'a sstate_scheme) result" where
  "unlink_bad E dp s = rbind (iunlockput E dp s) (fail_op E)"

definition unlink_entry :: "'a sstate_scheme env \<Rightarrow> nat \<Rightarrow> nat \<Rightarrow> uint \<Rightarrow> 'a sstate_scheme
    \<Rightarrow> (uint64 \<times> 'a sstate_scheme) result" where
  "unlink_entry E dp ip off s =
     (let s = s\<lparr>mem := memset (mem s) (loc_de s) 0 16\<rparr>
      in rbind (writei E dp False (loc_de s) off 16 s) (\<lambda>(r, s).
         if r \<noteq> 16 then Stop (Panic ''unlink: writei'')
         else rbind (if i_type (inodes s ip) = T_DIR then add_nlink E dp (-1) s else Ok s) (\<lambda>s.
              rbind (iunlockput E dp s) (\<lambda>s.
              rbind (add_nlink E ip (-1) s) (\<lambda>s.
              rbind (iunlockput E ip s) (\<lambda>s.
              rbind (end_op E s) (\<lambda>s. Ok (0, s))))))))"

definition sys_unlink :: "'a sstate_scheme env \<Rightarrow> 'a sstate_scheme \<Rightarrow> (uint64 \<times> 'a sstate_scheme) result" where
  "sys_unlink E s =
     rbind (argstr 0 (loc_path s) (of_nat MAXPATH) s) (\<lambda>(r, s).
     if sint r < 0 then Ok (-1, s)
     else rbind (begin_op E s) (\<lambda>s.
     rbind (nameiparent E (loc_path s) (loc_name s) s) (\<lambda>(dp, s). case dp of
       None \<Rightarrow> fail_op E s
     | Some dp \<Rightarrow>
       rbind (ilock E dp s) (\<lambda>s.
       if namecmp (mem s) (loc_name s) (str_dot s) = 0 \<or> namecmp (mem s) (loc_name s) (str_dotdot s) = 0
       then unlink_bad E dp s
       else rbind (dirlookup E dp (loc_name s) s) (\<lambda>(hit, s). case hit of
         None \<Rightarrow> unlink_bad E dp s
       | Some (ip, off) \<Rightarrow>
         rbind (ilock E ip s) (\<lambda>s.
         if sint (i_nlink (inodes s ip)) < 1 then Stop (Panic ''unlink: nlink < 1'')
         else rbind (if i_type (inodes s ip) = T_DIR then isdirempty E ip s else Ok (True, s)) (\<lambda>(e, s).
              if \<not> e then rbind (iunlockput E ip s) (unlink_bad E dp)
              else unlink_entry E dp ip off s)))))))"

section \<open>Creation and opening\<close>

definition create_fail :: "'a sstate_scheme env \<Rightarrow> nat \<Rightarrow> nat \<Rightarrow> 'a sstate_scheme
    \<Rightarrow> (nat option \<times> 'a sstate_scheme) result" where
  "create_fail E dp ip s =
     rbind (iupdate E ip (updi ip (\<lambda>q. q\<lparr>i_nlink := 0\<rparr>) s)) (\<lambda>s.
     rbind (iunlockput E ip s) (\<lambda>s.
     rbind (iunlockput E dp s) (\<lambda>s. Ok (None, s))))"

text \<open>A new inode \<open>ip\<close> is entered in \<open>dp\<close>.\<close>

definition create_enter :: "'a sstate_scheme env \<Rightarrow> ushort \<Rightarrow> nat \<Rightarrow> nat \<Rightarrow> 'a sstate_scheme
    \<Rightarrow> (nat option \<times> 'a sstate_scheme) result" where
  "create_enter E ty dp ip s =
     rbind (if ty = T_DIR
            then rbind (dirlink E ip (str_dot s) (i_inum (inodes s ip)) s) (\<lambda>(r, s).
                 if sint r < 0 then Ok (r, s)
                 else dirlink E ip (str_dotdot s) (i_inum (inodes s dp)) s)
            else Ok (0, s)) (\<lambda>(r, s).
     if sint r < 0 then create_fail E dp ip s
     else rbind (dirlink E dp (loc_name s) (i_inum (inodes s ip)) s) (\<lambda>(r, s).
          if sint r < 0 then create_fail E dp ip s
          else rbind (if ty = T_DIR then add_nlink E dp 1 s else Ok s) (\<lambda>s.
               rbind (iunlockput E dp s) (\<lambda>s. Ok (Some ip, s)))))"

definition create :: "'a sstate_scheme env \<Rightarrow> uint64 \<Rightarrow> ushort \<Rightarrow> ushort \<Rightarrow> ushort \<Rightarrow> 'a sstate_scheme
    \<Rightarrow> (nat option \<times> 'a sstate_scheme) result" where
  "create E path ty major minor s =
     rbind (nameiparent E path (loc_name s) s) (\<lambda>(dp, s). case dp of
       None \<Rightarrow> Ok (None, s)
     | Some dp \<Rightarrow>
       rbind (ilock E dp s) (\<lambda>s.
       rbind (dirlookup E dp (loc_name s) s) (\<lambda>(hit, s). case hit of
         Some (ip, _) \<Rightarrow>
           rbind (iunlockput E dp s) (\<lambda>s.
           rbind (ilock E ip s) (\<lambda>s.
           if ty = T_FILE \<and> (i_type (inodes s ip) = T_FILE \<or> i_type (inodes s ip) = T_DEVICE)
           then Ok (Some ip, s)
           else rbind (iunlockput E ip s) (\<lambda>s. Ok (None, s))))
       | None \<Rightarrow>
           rbind (ialloc E (i_dev (inodes s dp)) ty s) (\<lambda>(ip, s). case ip of
             None \<Rightarrow> rbind (iunlockput E dp s) (\<lambda>s. Ok (None, s))
           | Some ip \<Rightarrow>
             rbind (ilock E ip s) (\<lambda>s.
             rbind (iupdate E ip (updi ip (\<lambda>q. q\<lparr>i_major := major, i_minor := minor, i_nlink := 1\<rparr>) s))
               (create_enter E ty dp ip))))))"

text \<open>The first half of \<^verbatim>\<open>sys_open\<close> returns the locked inode.\<close>

definition open_inode :: "'a sstate_scheme env \<Rightarrow> cint \<Rightarrow> 'a sstate_scheme
    \<Rightarrow> (nat option \<times> 'a sstate_scheme) result" where
  "open_inode E omode s =
     rbind (if omode AND O_CREATE \<noteq> 0 then create E (loc_path s) T_FILE 0 0 s
            else rbind (namei E (loc_path s) s) (\<lambda>(ip, s). case ip of
                   None \<Rightarrow> Ok (None, s)
                 | Some ip \<Rightarrow>
                   rbind (ilock E ip s) (\<lambda>s.
                   if i_type (inodes s ip) = T_DIR \<and> omode \<noteq> 0
                   then rbind (iunlockput E ip s) (\<lambda>s. Ok (None, s)) else Ok (Some ip, s)))) (\<lambda>(ip, s).
     case ip of
       None \<Rightarrow> Ok (None, s)
     | Some ip \<Rightarrow>
       if i_type (inodes s ip) = T_DEVICE \<and>
          (sint (i_major (inodes s ip)) < 0 \<or> sint (i_major (inodes s ip)) \<ge> int NDEV)
       then rbind (iunlockput E ip s) (\<lambda>s. Ok (None, s)) else Ok (Some ip, s))"

definition open_file :: "nat \<Rightarrow> nat \<Rightarrow> cint \<Rightarrow> 'a sstate_scheme \<Rightarrow> 'a sstate_scheme" where
  "open_file f ip omode s =
     (let s = (if i_type (inodes s ip) = T_DEVICE
               then updf f (\<lambda>q. q\<lparr>f_type := FD_DEVICE, f_major := i_major (inodes s ip)\<rparr>) s
               else updf f (\<lambda>q. q\<lparr>f_type := FD_INODE, f_off := 0\<rparr>) s)
      in updf f (\<lambda>q. q\<lparr>f_ip := ip, f_readable := (omode AND O_WRONLY = 0),
                       f_writable := (omode AND O_WRONLY \<noteq> 0 \<or> omode AND O_RDWR \<noteq> 0)\<rparr>) s)"

definition sys_open :: "'a sstate_scheme env \<Rightarrow> 'a sstate_scheme \<Rightarrow> (uint64 \<times> 'a sstate_scheme) result" where
  "sys_open E s =
     rbind (argint 1 s) (\<lambda>omode.
     rbind (argstr 0 (loc_path s) (of_nat MAXPATH) s) (\<lambda>(n, s).
     if sint n < 0 then Ok (-1, s)
     else rbind (begin_op E s) (\<lambda>s.
     rbind (open_inode E omode s) (\<lambda>(ip, s). case ip of
       None \<Rightarrow> fail_op E s
     | Some ip \<Rightarrow>
       rbind (filealloc s) (\<lambda>(f, s). case f of
         None \<Rightarrow> rbind (iunlockput E ip s) (fail_op E)
       | Some f \<Rightarrow>
         rbind (fdalloc f s) (\<lambda>(fd, s). case fd of
           None \<Rightarrow> rbind (fileclose E f s) (\<lambda>s. rbind (iunlockput E ip s) (fail_op E))
         | Some fd \<Rightarrow>
           let s = open_file f ip omode s
           in rbind (if omode AND O_TRUNC \<noteq> 0 \<and> i_type (inodes s ip) = T_FILE then itrunc E ip s else Ok s) (\<lambda>s.
              rbind (iunlock ip s) (\<lambda>s.
              rbind (end_op E s) (\<lambda>s. Ok (of_nat fd, s))))))))))"

definition sys_mkdir :: "'a sstate_scheme env \<Rightarrow> 'a sstate_scheme \<Rightarrow> (uint64 \<times> 'a sstate_scheme) result" where
  "sys_mkdir E s =
     rbind (begin_op E s) (\<lambda>s.
     rbind (argstr 0 (loc_path s) (of_nat MAXPATH) s) (\<lambda>(r, s).
     if sint r < 0 then fail_op E s
     else rbind (create E (loc_path s) T_DIR 0 0 s) (\<lambda>(ip, s). case ip of
            None \<Rightarrow> fail_op E s
          | Some ip \<Rightarrow> rbind (iunlockput E ip s) (\<lambda>s. rbind (end_op E s) (\<lambda>s. Ok (0, s))))))"

definition sys_mknod :: "'a sstate_scheme env \<Rightarrow> 'a sstate_scheme \<Rightarrow> (uint64 \<times> 'a sstate_scheme) result" where
  "sys_mknod E s =
     rbind (begin_op E s) (\<lambda>s.
     rbind (argint 1 s) (\<lambda>major. rbind (argint 2 s) (\<lambda>minor.
     rbind (argstr 0 (loc_path s) (of_nat MAXPATH) s) (\<lambda>(r, s).
     if sint r < 0 then fail_op E s
     else rbind (create E (loc_path s) T_DEVICE (ucast major) (ucast minor) s) (\<lambda>(ip, s). case ip of
            None \<Rightarrow> fail_op E s
          | Some ip \<Rightarrow> rbind (iunlockput E ip s) (\<lambda>s. rbind (end_op E s) (\<lambda>s. Ok (0, s))))))))"

definition sys_chdir :: "'a sstate_scheme env \<Rightarrow> 'a sstate_scheme \<Rightarrow> (uint64 \<times> 'a sstate_scheme) result" where
  "sys_chdir E s =
     rbind (myproc s) (\<lambda>p.
     rbind (begin_op E s) (\<lambda>s.
     rbind (argstr 0 (loc_path s) (of_nat MAXPATH) s) (\<lambda>(r, s).
     if sint r < 0 then fail_op E s
     else rbind (namei E (loc_path s) s) (\<lambda>(ip, s). case ip of
       None \<Rightarrow> fail_op E s
     | Some ip \<Rightarrow>
       rbind (ilock E ip s) (\<lambda>s.
       if i_type (inodes s ip) \<noteq> T_DIR then rbind (iunlockput E ip s) (fail_op E)
       else rbind (iunlock ip s) (\<lambda>s.
            rbind (case p_cwd (procs s p) of
                     None \<Rightarrow> Stop (Fault ''null inode'') | Some cwd \<Rightarrow> iput E cwd s) (\<lambda>s.
            rbind (end_op E s) (\<lambda>s.
            Ok (0, updp p (\<lambda>q. q\<lparr>p_cwd := Some ip\<rparr>) s)))))))))"

section \<open>Programs and pipes\<close>

definition free_args :: "uint64 list \<Rightarrow> 'a sstate_scheme \<Rightarrow> 'a sstate_scheme result" where
  "free_args argv s = for_each kfree argv s"

text \<open>
  The loop of \<^verbatim>\<open>sys_exec\<close>, \<^verbatim>\<open>MAXARG\<close> rounds at most: whether the null pointer was found, and the pages
  allocated so far. \<^verbatim>\<open>uarg\<close> is at \<open>ktmp\<close>.
\<close>

primrec fetch_args :: "nat \<Rightarrow> uint64 \<Rightarrow> uint64 list \<Rightarrow> 'a sstate_scheme
    \<Rightarrow> ((bool \<times> uint64 list) \<times> 'a sstate_scheme) result" where
  "fetch_args 0 uargv argv s = Ok ((False, argv), s)"
| "fetch_args (Suc k) uargv argv s =
     rbind (fetchaddr (uargv + 8 * of_nat (length argv)) (ktmp s) s) (\<lambda>(r, s).
     if sint r < 0 then Ok ((False, argv), s)
     else let uarg = load64 (mem s) (ktmp s)
          in if uarg = 0 then Ok ((True, argv), s)
             else rbind (kalloc s) (\<lambda>(pg, s).
                  if pg = 0 then Ok ((False, argv), s)
                  else rbind (fetchstr uarg pg (ucast PGSIZE) s) (\<lambda>(r, s).
                       if sint r < 0 then Ok ((False, argv @ [pg]), s)
                       else fetch_args k uargv (argv @ [pg]) s)))"

definition sys_exec :: "'a sstate_scheme env \<Rightarrow> 'a sstate_scheme \<Rightarrow> (uint64 \<times> 'a sstate_scheme) result" where
  "sys_exec E s =
     rbind (argaddr 1 s) (\<lambda>uargv.
     rbind (argstr 0 (loc_path s) (of_nat MAXPATH) s) (\<lambda>(r, s).
     if sint r < 0 then Ok (-1, s)
     else rbind (fetch_args MAXARG uargv [] s) (\<lambda>((ok, argv), s).
          if ok
          then rbind (exec E (loc_path s) argv s) (\<lambda>(ret, s).
               rbind (free_args argv s) (\<lambda>s. Ok (scast ret, s)))
          else rbind (free_args argv s) (\<lambda>s. Ok (-1, s)))))"

definition pipe_undo :: "'a sstate_scheme env \<Rightarrow> nat \<Rightarrow> nat \<Rightarrow> 'a sstate_scheme \<Rightarrow> (uint64 \<times> 'a sstate_scheme) result" where
  "pipe_undo E rfd wfd s =
     rbind (fileclose E rfd s) (\<lambda>s. rbind (fileclose E wfd s) (\<lambda>s. Ok (-1, s)))"

definition sys_pipe :: "'a sstate_scheme env \<Rightarrow> 'a sstate_scheme \<Rightarrow> (uint64 \<times> 'a sstate_scheme) result" where
  "sys_pipe E s =
     rbind (myproc s) (\<lambda>p.
     rbind (argaddr 0 s) (\<lambda>fdarray.
     rbind (pipealloc E s) (\<lambda>(r, s). case r of
       None \<Rightarrow> Ok (-1, s)
     | Some (rfd, wfd) \<Rightarrow>
       rbind (fdalloc rfd s) (\<lambda>(fd0, s). case fd0 of
         None \<Rightarrow> pipe_undo E rfd wfd s
       | Some fd0 \<Rightarrow>
         rbind (fdalloc wfd s) (\<lambda>(fd1, s). case fd1 of
           None \<Rightarrow> pipe_undo E rfd wfd (clear_fd p fd0 s)
         | Some fd1 \<Rightarrow>
           rbind (copyout_int (p_pagetable (procs s p)) fdarray (of_nat fd0) s) (\<lambda>(r, s).
           rbind (if sint r < 0 then Ok (r, s)
                  else copyout_int (p_pagetable (procs s p)) (fdarray + 4) (of_nat fd1) s) (\<lambda>(r, s).
           if sint r < 0 then pipe_undo E rfd wfd (clear_fd p fd1 (clear_fd p fd0 s))
           else Ok (0, s))))))))"

end
