(* ===== verification/Sched.thy ===== *)
theory Sched
  imports Procspec "HOL-Library.Signed_Division"
begin

text \<open>
  One round of \<^verbatim>\<open>scheduler()\<close> of \<^verbatim>\<open>kernel/proc.c\<close> under each of the five policies a build can
  select (\<^verbatim>\<open>RR\<close>, \<^verbatim>\<open>FCFS\<close>, \<^verbatim>\<open>PBS\<close>, \<^verbatim>\<open>LBS\<close>, \<^verbatim>\<open>MLFQ\<close>), with \<^verbatim>\<open>getrand\<close> and \<^verbatim>\<open>remove_from_queue\<close>. What a
  process does between \<^verbatim>\<open>swtch\<close> to it and its return to the scheduler is the parameter \<open>run\<close>.
\<close>

type_synonym 's runner = "nat \<Rightarrow> 's \<Rightarrow> 's result"

text \<open>\<^verbatim>\<open>c->proc = p; swtch(...); c->proc = 0\<close>\<close>

definition dispatch :: "'a pstate_scheme runner \<Rightarrow> nat \<Rightarrow> 'a pstate_scheme \<Rightarrow> 'a pstate_scheme result" where
  "dispatch run p s =
     rbind (run p (s\<lparr>curproc := Some p\<rparr>)) (\<lambda>s. Ok (s\<lparr>curproc := None\<rparr>))"

section \<open>Round robin\<close>

definition rr_one :: "'a pstate_scheme runner \<Rightarrow> nat \<Rightarrow> 'a pstate_scheme \<Rightarrow> 'a pstate_scheme result" where
  "rr_one run i s =
     rbind (lk_acquire (ProcLock i) s) (\<lambda>s.
     rbind (if p_state (procs s i) = RUNNABLE
            then dispatch run i (updp i (\<lambda>q. q\<lparr>p_state := RUNNING\<rparr>) s)
            else Ok s) (lk_release (ProcLock i)))"

definition scheduler_RR :: "'a pstate_scheme runner \<Rightarrow> 'a pstate_scheme \<Rightarrow> 'a pstate_scheme result" where
  "scheduler_RR run s = for_each (rr_one run) [0..<NPROC] s"

section \<open>First come, first served\<close>

definition release_opt :: "nat option \<Rightarrow> 'a pstate_scheme \<Rightarrow> 'a pstate_scheme result" where
  "release_opt p s = (case p of None \<Rightarrow> Ok s | Some i \<Rightarrow> lk_release (ProcLock i) s)"

function fcfs_scan :: "nat \<Rightarrow> nat option \<Rightarrow> 'a pstate_scheme \<Rightarrow> (nat option \<times> 'a pstate_scheme) result" where
  "fcfs_scan i start s =
     (if i < NPROC
      then rbind (lk_acquire (ProcLock i) s) (\<lambda>s.
           if p_state (procs s i) = RUNNABLE \<and>
              (case start of None \<Rightarrow> True
               | Some j \<Rightarrow> sint (p_creationTime (procs s i)) < sint (p_creationTime (procs s j)))
           then rbind (release_opt start s) (fcfs_scan (Suc i) (Some i))
           else rbind (lk_release (ProcLock i) s) (fcfs_scan (Suc i) start))
      else Ok (start, s))"
  by pat_completeness auto
termination
  by (relation "measure (\<lambda>(i, start, s). NPROC - i)") auto

text \<open>A write through a pointer to slot \<open>i\<close> of the process table.\<close>

definition proc_update :: "nat \<Rightarrow> (proc \<Rightarrow> proc) \<Rightarrow> 'a pstate_scheme \<Rightarrow> 'a pstate_scheme result" where
  "proc_update i f s = (if i < NPROC then Ok (updp i f s) else Stop (Fault ''proc index''))"

text \<open>
  After the loop \<^verbatim>\<open>newProcess\<close> is \<^verbatim>\<open>&proc[NPROC]\<close>, so \<^verbatim>\<open>newProcess->numOfScheduled++\<close> is a write behind the table.
\<close>

definition scheduler_FCFS :: "'a pstate_scheme runner \<Rightarrow> 'a pstate_scheme \<Rightarrow> 'a pstate_scheme result" where
  "scheduler_FCFS run s =
     rbind (fcfs_scan 0 None s) (\<lambda>(start, s). case start of
       None \<Rightarrow> Ok s
     | Some p \<Rightarrow>
       let s = updp p (\<lambda>q. q\<lparr>p_state := RUNNING\<rparr>) s
       in rbind (proc_update NPROC (\<lambda>q. q\<lparr>p_numOfScheduled := p_numOfScheduled q + 1\<rparr>) s) (\<lambda>s.
          rbind (dispatch run p s) (lk_release (ProcLock p))))"

section \<open>Priorities\<close>

text \<open>C's \<^verbatim>\<open>/\<close> on \<^verbatim>\<open>int\<close> truncates towards zero.\<close>

definition cdiv :: "cint \<Rightarrow> cint \<Rightarrow> cint" where
  "cdiv a b = word_of_int (sint a sdiv sint b)"

definition pbs_dp :: "proc \<Rightarrow> cint" where
  "pbs_dp p =
     (let niceness = (if sint (p_numOfScheduled p) > 0 \<and> p_sleep_time p + p_run_time p \<noteq> 0
                      then cdiv (p_sleep_time p) (p_sleep_time p + p_run_time p) * 10 else 5);
          val = p_stat_pr p - niceness + 5;
          tmp = (if sint val < 100 then val else 100)
      in if 0 > sint tmp then 0 else tmp)"

text \<open>
  The two conditions that compare with the process chosen so far; \<^verbatim>\<open>process\<close> is dereferenced
  only when the first comparison holds.
\<close>

definition pbs_cond :: "cint \<Rightarrow> nat option \<Rightarrow> nat \<Rightarrow> 'a pstate_scheme \<Rightarrow> (bool \<times> bool) result" where
  "pbs_cond dynamic_pr process p s =
     (let dp = pbs_dp (procs s p)
      in rbind (if dynamic_pr = dp
                then (case process of None \<Rightarrow> Stop (Fault ''null process'')
                      | Some j \<Rightarrow> Ok (sint (p_numOfScheduled (procs s p)) < sint (p_numOfScheduled (procs s j))))
                else Ok False) (\<lambda>c1.
         rbind (if c1
                then (case process of None \<Rightarrow> Stop (Fault ''null process'')
                      | Some j \<Rightarrow> Ok (sint (p_creationTime (procs s p)) < sint (p_creationTime (procs s j))))
                else Ok False) (\<lambda>c2. Ok (c1, c2))))"

function pbs_scan :: "nat \<Rightarrow> cint \<Rightarrow> nat option \<Rightarrow> 'a pstate_scheme \<Rightarrow> (nat option \<times> 'a pstate_scheme) result" where
  "pbs_scan p dynamic_pr process s =
     (if p < NPROC
      then rbind (lk_acquire (ProcLock p) s) (\<lambda>s.
           rbind (pbs_cond dynamic_pr process p s) (\<lambda>(c1, c2).
           let dp = pbs_dp (procs s p)
           in if p_state (procs s p) = RUNNABLE \<and> (process = None \<or> sint dynamic_pr > sint dp \<or> c1 \<or> c2)
              then rbind (release_opt process s) (pbs_scan (Suc p) dp (Some p))
              else rbind (lk_release (ProcLock p) s) (pbs_scan (Suc p) dynamic_pr process)))
      else Ok (process, s))"
  by pat_completeness auto
termination
  by (relation "measure (\<lambda>(i, d, start, s). NPROC - i)") auto

definition scheduler_PBS :: "'a pstate_scheme runner \<Rightarrow> 'a pstate_scheme \<Rightarrow> 'a pstate_scheme result" where
  "scheduler_PBS run s =
     rbind (pbs_scan 0 999 None s) (\<lambda>(process, s). case process of
       None \<Rightarrow> Ok s
     | Some p \<Rightarrow>
       let s = updp p (\<lambda>q. q\<lparr>p_run_time := 0, p_sleep_time := 0, p_numOfScheduled := p_numOfScheduled q + 1,
                 p_state := RUNNING, p_st_time := ticks s\<rparr>) s
       in rbind (dispatch run p s) (lk_release (ProcLock p)))"

section \<open>Lottery\<close>

text \<open>
  \<^verbatim>\<open>(int)((nxt_seed*1.0)/99)*tot_tickets\<close>: the cast applies to the quotient, before the
  multiplication. For \<^verbatim>\<open>nxt_seed\<close> between -99 and 99 the double quotient truncates to the
  truncated integer quotient.
\<close>

definition getrand :: "cint \<Rightarrow> 'a pstate_scheme \<Rightarrow> cint \<times> 'a pstate_scheme" where
  "getrand tot_tickets s =
     (let sq = seed s * seed s;
          nxt_seed = word_of_int (sint sq smod 100) :: cint
      in (cdiv nxt_seed 99 * tot_tickets, s\<lparr>seed := nxt_seed\<rparr>))"

definition lbs_total :: "'a pstate_scheme \<Rightarrow> cint" where
  "lbs_total s =
     foldl (\<lambda>t i. if p_state (procs s i) = RUNNABLE then t + p_tickets (procs s i) else t) 0 [0..<NPROC]"

function lbs_scan :: "nat \<Rightarrow> cint \<Rightarrow> cint \<Rightarrow> 'a pstate_scheme \<Rightarrow> (nat option \<times> 'a pstate_scheme) result" where
  "lbs_scan p passed ans s =
     (if p < NPROC
      then rbind (lk_acquire (ProcLock p) s) (\<lambda>s.
           if p_state (procs s p) = RUNNABLE
           then let passed = passed + p_tickets (procs s p)
                in if sint passed > sint ans then Ok (Some p, s)
                   else rbind (lk_release (ProcLock p) s) (lbs_scan (Suc p) passed ans)
           else rbind (lk_release (ProcLock p) s) (lbs_scan (Suc p) passed ans))
      else Ok (None, s))"
  by pat_completeness auto
termination
  by (relation "measure (\<lambda>(i, d, a, s). NPROC - i)") auto

definition scheduler_LBS :: "'a pstate_scheme runner \<Rightarrow> 'a pstate_scheme \<Rightarrow> 'a pstate_scheme result" where
  "scheduler_LBS run s =
     (let (ans, s) = getrand (lbs_total s) s
      in rbind (lbs_scan 0 0 ans s) (\<lambda>(process, s). case process of
           None \<Rightarrow> Ok s
         | Some p \<Rightarrow>
           rbind (dispatch run p (updp p (\<lambda>q. q\<lparr>p_state := RUNNING\<rparr>) s)) (lk_release (ProcLock p))))"

section \<open>Multi-level feedback queues\<close>

definition ticks_allowed :: "nat \<Rightarrow> cint" where
  "ticks_allowed k = [1, 2, 4, 8, 16] ! k"

text \<open>\<^verbatim>\<open>queueK[i]\<close> where the entry is then dereferenced.\<close>

definition queue_at :: "nat \<Rightarrow> nat \<Rightarrow> 'a pstate_scheme \<Rightarrow> nat result" where
  "queue_at k i s =
     (if i < NPROC
      then (case queue s k i of Some p \<Rightarrow> Ok p | None \<Rightarrow> Stop (Fault ''null queue entry''))
      else Stop (Fault ''queue index''))"

text \<open>\<^verbatim>\<open>for(int j=i; j<=hi; j++) queueK[j] = queueK[j+1];\<close>\<close>

definition queue_shift :: "nat \<Rightarrow> nat \<Rightarrow> int \<Rightarrow> 'a pstate_scheme \<Rightarrow> 'a pstate_scheme result" where
  "queue_shift k i hi s =
     for_each (\<lambda>j s. if Suc j < NPROC
                     then Ok (s\<lparr>queue := (queue s)(k := (queue s k)(j := queue s k (Suc j)))\<rparr>)
                     else Stop (Fault ''queue index'')) [i..<nat (hi + 1)] s"

definition queue_pop :: "nat \<Rightarrow> 'a pstate_scheme \<Rightarrow> 'a pstate_scheme" where
  "queue_pop k s = s\<lparr>queue_ptr := (queue_ptr s)(k := queue_ptr s k - 1)\<rparr>"

function remove_loop :: "nat \<Rightarrow> cint \<Rightarrow> nat \<Rightarrow> 'a pstate_scheme \<Rightarrow> 'a pstate_scheme result" where
  "remove_loop i pid k s =
     (if int i \<le> sint (queue_ptr s k)
      then if i < NPROC
           then rbind (queue_at k i s) (\<lambda>p.
                if p_pid (procs s p) = pid
                then rbind (queue_shift k i (sint (queue_ptr s k) - 1) s) (\<lambda>s. Ok (queue_pop k s))
                else remove_loop (Suc i) pid k s)
           else Stop (Fault ''queue index'')
      else Ok s)"
  by pat_completeness auto
termination
  by (relation "measure (\<lambda>(i, pid, k, s). NPROC - i)") auto

definition remove_from_queue :: "cint \<Rightarrow> cint \<Rightarrow> 'a pstate_scheme \<Rightarrow> 'a pstate_scheme result" where
  "remove_from_queue pid curr_queue s =
     remove_loop 0 pid (if curr_queue = 0 then 0 else if curr_queue = 1 then 1
                        else if curr_queue = 2 then 2 else if curr_queue = 3 then 3 else 4) s"

text \<open>
  Promotion of the process at index \<open>i\<close> of queue \<open>k\<close>. \<^verbatim>\<open>ticks\<close> is unsigned, so the difference and
  the comparison are unsigned too.
\<close>

definition mlfq_promote :: "nat \<Rightarrow> nat \<Rightarrow> 'a pstate_scheme \<Rightarrow> 'a pstate_scheme result" where
  "mlfq_promote k i s =
     rbind (queue_at k i s) (\<lambda>p.
     if p_state (procs s p) = RUNNABLE \<and> ticks s - p_st_time (procs s p) > p_wait_time (procs s p)
     then let s = updp p (\<lambda>q. q\<lparr>p_curr_queue := p_curr_queue q - 1\<rparr>) s;
              cqueue = sint (p_curr_queue (procs s p))
          in if 0 \<le> cqueue \<and> cqueue < 5
             then let s = updp p (\<lambda>q. q\<lparr>p_num_of_ticks := (p_num_of_ticks q)(nat cqueue := 0),
                                        p_st_time := ticks s\<rparr>) s
                  in rbind (enqueue (k - 1) p s) (\<lambda>s.
                     remove_from_queue (p_pid (procs s p)) (of_nat k) (queue_pop k s))
             else Stop (Fault ''num_of_ticks index'')
     else Ok s)"

function mlfq_age :: "nat \<Rightarrow> nat \<Rightarrow> 'a pstate_scheme \<Rightarrow> 'a pstate_scheme result" where
  "mlfq_age k i s =
     (if int i \<le> sint (queue_ptr s k)
      then if i < NPROC then rbind (mlfq_promote k i s) (mlfq_age k (Suc i))
           else Stop (Fault ''queue index'')
      else Ok s)"
  by pat_completeness auto
termination
  by (relation "measure (\<lambda>(k, i, s). NPROC - i)") auto

text \<open>The part of a queue visit that precedes the bookkeeping after the process ran.\<close>

definition mlfq_run :: "'a pstate_scheme runner \<Rightarrow> nat \<Rightarrow> 'a pstate_scheme \<Rightarrow> 'a pstate_scheme result" where
  "mlfq_run run p s =
     dispatch run p (updp p (\<lambda>q. q\<lparr>p_st_time := ticks s, p_state := RUNNING,
                                   p_numOfScheduled := p_numOfScheduled q + 1\<rparr>) s)"

text \<open>
  Index \<open>i\<close> of queue \<open>k < 4\<close>. Queue 3 demotes without testing \<^verbatim>\<open>killed\<close>. The final release names the
  entry that is at index \<open>i\<close> after the shift.
\<close>

definition mlfq_visit :: "'a pstate_scheme runner \<Rightarrow> nat \<Rightarrow> nat \<Rightarrow> 'a pstate_scheme \<Rightarrow> 'a pstate_scheme result" where
  "mlfq_visit run k i s =
     rbind (queue_at k i s) (\<lambda>p.
     rbind (lk_acquire (ProcLock p) s) (\<lambda>s.
     rbind (if p_state (procs s p) = RUNNABLE
            then rbind (mlfq_run run p s) (\<lambda>s.
                 rbind (if sint (p_num_of_ticks (procs s p) k) \<ge> sint (ticks_allowed k) \<and>
                           (k = 3 \<or> p_killed (procs s p) = 0)
                        then enqueue (Suc k) p (updp p (\<lambda>q. q\<lparr>p_curr_queue := p_curr_queue q + 1\<rparr>) s)
                        else Ok s) (\<lambda>s.
                 rbind (queue_shift k i (sint (queue_ptr s k)) s) (\<lambda>s.
                 Ok (updp p (\<lambda>q. q\<lparr>p_num_of_ticks := (p_num_of_ticks q)(k := 0)\<rparr>) (queue_pop k s)))))
            else Ok s) (\<lambda>s.
     rbind (queue_at k i s) (\<lambda>p. lk_release (ProcLock p) s))))"

function mlfq_level :: "'a pstate_scheme runner \<Rightarrow> nat \<Rightarrow> nat \<Rightarrow> 'a pstate_scheme \<Rightarrow> 'a pstate_scheme result" where
  "mlfq_level run k i s =
     (if int i \<le> sint (queue_ptr s k)
      then if i < NPROC then rbind (mlfq_visit run k i s) (mlfq_level run k (Suc i))
           else Stop (Fault ''queue index'')
      else Ok s)"
  by pat_completeness auto
termination
  by (relation "measure (\<lambda>(run, k, i, s). NPROC - i)") auto

definition queue_set :: "nat \<Rightarrow> int \<Rightarrow> nat \<Rightarrow> 'a pstate_scheme \<Rightarrow> 'a pstate_scheme result" where
  "queue_set k i p s =
     (if 0 \<le> i \<and> i < int NPROC
      then Ok (s\<lparr>queue := (queue s)(k := (queue s k)(nat i := Some p))\<rparr>)
      else Stop (Fault ''queue index''))"

definition mlfq_visit_last :: "'a pstate_scheme runner \<Rightarrow> nat \<Rightarrow> 'a pstate_scheme \<Rightarrow> 'a pstate_scheme result" where
  "mlfq_visit_last run i s =
     rbind (queue_at 4 i s) (\<lambda>p.
     rbind (lk_acquire (ProcLock p) s) (\<lambda>s.
     rbind (if p_state (procs s p) = RUNNABLE
            then rbind (mlfq_run run p s) (\<lambda>s.
                 if p_killed (procs s p) = 0
                 then rbind (queue_shift 4 i (sint (queue_ptr s 4) - 1) s) (\<lambda>s.
                      queue_set 4 (sint (queue_ptr s 4)) p s)
                 else queue_shift 4 i (sint (queue_ptr s 4) - 1) s)
            else Ok s) (\<lambda>s.
     rbind (queue_at 4 i s) (\<lambda>p. lk_release (ProcLock p) s))))"

function mlfq_last :: "'a pstate_scheme runner \<Rightarrow> nat \<Rightarrow> 'a pstate_scheme \<Rightarrow> 'a pstate_scheme result" where
  "mlfq_last run i s =
     (if int i \<le> sint (queue_ptr s 4)
      then if i < NPROC then rbind (mlfq_visit_last run i s) (mlfq_last run (Suc i))
           else Stop (Fault ''queue index'')
      else Ok s)"
  by pat_completeness auto
termination
  by (relation "measure (\<lambda>(run, i, s). NPROC - i)") auto

definition scheduler_MLFQ :: "'a pstate_scheme runner \<Rightarrow> 'a pstate_scheme \<Rightarrow> 'a pstate_scheme result" where
  "scheduler_MLFQ run s =
     rbind (for_each (\<lambda>k. mlfq_age k 0) [1, 2, 3, 4] s) (\<lambda>s.
     rbind (for_each (\<lambda>k. mlfq_level run k 0) [0, 1, 2, 3] s) (mlfq_last run 0))"

end
