(* ===== verification/Trap.thy ===== *)
theory Trap
  imports Sysfile Sched
begin

text \<open>
  The system calls on processes (\<^verbatim>\<open>kernel/sysproc.c\<close>), the dispatcher with its tracing
  (\<^verbatim>\<open>kernel/syscall.c\<close>) and the trap handlers (\<^verbatim>\<open>kernel/trap.c\<close>). The control registers of the hart
  and the interrupt controller are part of the state.
\<close>

section \<open>State\<close>

datatype policy = RR | FCFS | PBS | LBS | MLFQ

text \<open>
  Control registers, the interrupt that \<^verbatim>\<open>plic_claim\<close> will report, those completed, the readings of
  the disk's registers, and the addresses of the handlers. \<open>policy\<close> is the scheduler selected at
  compile time; \<open>first\<close> is the static variable of \<^verbatim>\<open>forkret\<close>.
\<close>

record tstate = sstate +
  csr_sstatus :: uint64
  csr_scause :: uint64
  csr_sepc :: uint64
  csr_stval :: uint64
  csr_stvec :: uint64
  csr_satp :: uint64
  csr_tp :: uint64
  csr_sip :: uint64
  plic_regs :: "uint64 \<Rightarrow> uint"
  plic_irq :: cint
  plic_done :: "cint list"
  disk_regs :: "uint \<Rightarrow> uint"
  kernelvec_pc :: uint64
  usertrap_pc :: uint64
  uservec_off :: uint64
  userret_off :: uint64
  sched_policy :: policy
  kernel_pagetable :: uint64
  started :: bool
  first :: bool

section \<open>System calls on processes\<close>

definition sys_exit :: "'a tstate_scheme env \<Rightarrow> 'a tstate_scheme \<Rightarrow> (uint64 \<times> 'a tstate_scheme) result" where
  "sys_exit E s = rbind (argint 0 s) (\<lambda>n. exit E n s)"

definition sys_getpid :: "'a tstate_scheme \<Rightarrow> (uint64 \<times> 'a tstate_scheme) result" where
  "sys_getpid s = rbind (myproc s) (\<lambda>p. Ok (scast (p_pid (procs s p)), s))"

definition sys_fork :: "'a tstate_scheme \<Rightarrow> (uint64 \<times> 'a tstate_scheme) result" where
  "sys_fork s = rbind (fork s) (\<lambda>(r, s). Ok (scast r, s))"

definition sys_wait :: "'a tstate_scheme env \<Rightarrow> 'a tstate_scheme \<Rightarrow> (uint64 \<times> 'a tstate_scheme) result" where
  "sys_wait E s =
     rbind (argaddr 0 s) (\<lambda>p.
     rbind (wait (Suc (fst E)) (snd E) p s) (\<lambda>(r, s). Ok (scast r, s)))"

definition sys_sbrk :: "'a tstate_scheme \<Rightarrow> (uint64 \<times> 'a tstate_scheme) result" where
  "sys_sbrk s =
     rbind (argint 0 s) (\<lambda>n.
     rbind (myproc s) (\<lambda>p.
     let addr = p_sz (procs s p)
     in rbind (growproc n s) (\<lambda>(r, s). Ok (if sint r < 0 then -1 else addr, s))))"

text \<open>\<^verbatim>\<open>ticks - ticks0 < n\<close> compares unsigned values.\<close>

primrec sys_sleep_loop :: "nat \<Rightarrow> ('a tstate_scheme \<Rightarrow> 'a tstate_scheme result) \<Rightarrow> uint \<Rightarrow> cint
    \<Rightarrow> 'a tstate_scheme \<Rightarrow> (uint64 \<times> 'a tstate_scheme) result" where
  "sys_sleep_loop 0 others ticks0 n s = Stop OutOfFuel"
| "sys_sleep_loop (Suc fuel) others ticks0 n s =
     (if ticks s - ticks0 < n
      then rbind (myproc s) (\<lambda>p. rbind (killed p s) (\<lambda>(k, s).
           if k \<noteq> 0 then rbind (lk_release TicksLock s) (\<lambda>s. Ok (-1, s))
           else rbind (sleep others ChTicks TicksLock s) (sys_sleep_loop fuel others ticks0 n)))
      else rbind (lk_release TicksLock s) (\<lambda>s. Ok (0, s)))"

definition sys_sleep :: "'a tstate_scheme env \<Rightarrow> 'a tstate_scheme \<Rightarrow> (uint64 \<times> 'a tstate_scheme) result" where
  "sys_sleep E s =
     rbind (argint 0 s) (\<lambda>n.
     rbind (lk_acquire TicksLock s) (\<lambda>s. sys_sleep_loop (Suc (fst E)) (snd E) (ticks s) n s))"

definition sys_kill :: "'a tstate_scheme \<Rightarrow> (uint64 \<times> 'a tstate_scheme) result" where
  "sys_kill s = rbind (argint 0 s) (\<lambda>pid. rbind (kill pid s) (\<lambda>(r, s). Ok (scast r, s)))"

definition sys_uptime :: "'a tstate_scheme \<Rightarrow> (uint64 \<times> 'a tstate_scheme) result" where
  "sys_uptime s =
     rbind (lk_acquire TicksLock s) (\<lambda>s.
     let xticks = ticks s
     in rbind (lk_release TicksLock s) (\<lambda>s. Ok (ucast xticks, s)))"

definition sys_trace :: "'a tstate_scheme \<Rightarrow> (uint64 \<times> 'a tstate_scheme) result" where
  "sys_trace s =
     rbind (argint 0 s) (\<lambda>m. rbind (myproc s) (\<lambda>p. Ok (0, updp p (\<lambda>q. q\<lparr>p_mask := m\<rparr>) s)))"

definition sys_setPriority :: "'a tstate_scheme env \<Rightarrow> 'a tstate_scheme \<Rightarrow> (uint64 \<times> 'a tstate_scheme) result" where
  "sys_setPriority E s =
     rbind (argint 0 s) (\<lambda>priority. rbind (argint 1 s) (\<lambda>pid.
     rbind (setPriority (snd E) priority pid s) (\<lambda>(r, s). Ok (scast r, s))))"

definition sys_settickets :: "'a tstate_scheme \<Rightarrow> (uint64 \<times> 'a tstate_scheme) result" where
  "sys_settickets s =
     rbind (myproc s) (\<lambda>p. rbind (argint 0 s) (\<lambda>t.
     Ok (scast t, updp p (\<lambda>q. q\<lparr>p_tickets := t\<rparr>) s)))"

text \<open>
  \<^verbatim>\<open>sys_waitx\<close> calls \<^verbatim>\<open>waitx(addr, &wtime, &rtime)\<close>, whose parameters are named \<^verbatim>\<open>rtime\<close> and \<^verbatim>\<open>wtime\<close> in
  that order. \<open>junk\<close> are the values of the uninitialised variables.
\<close>

definition sys_waitx :: "'a tstate_scheme env \<Rightarrow> uint \<times> uint \<Rightarrow> 'a tstate_scheme
    \<Rightarrow> (uint64 \<times> 'a tstate_scheme) result" where
  "sys_waitx E junk s =
     rbind (argaddr 0 s) (\<lambda>addr. rbind (argaddr 1 s) (\<lambda>addr1. rbind (argaddr 2 s) (\<lambda>addr2.
     rbind (waitx (Suc (fst E)) (snd E) addr junk s) (\<lambda>((ret, wtime, rtime), s).
     rbind (myproc s) (\<lambda>p.
     rbind (copyout_int (p_pagetable (procs s p)) addr1 wtime s) (\<lambda>(r, s).
     if sint r < 0 then Ok (-1, s)
     else rbind (copyout_int (p_pagetable (procs s p)) addr2 rtime s) (\<lambda>(r, s).
          if sint r < 0 then Ok (-1, s) else Ok (scast ret, s))))))))"

definition sys_sigalarm :: "'a tstate_scheme \<Rightarrow> (uint64 \<times> 'a tstate_scheme) result" where
  "sys_sigalarm s =
     rbind (argint 0 s) (\<lambda>t. rbind (argaddr 1 s) (\<lambda>h. rbind (myproc s) (\<lambda>p.
     Ok (0, updp p (\<lambda>q. q\<lparr>p_is_sigalarm := 0, p_tickss := t, p_now_ticks := 0, p_handler := h\<rparr>) s))))"

text \<open>\<^verbatim>\<open>restore\<close>: the four kernel fields are taken from the current frame, the rest from the copy.\<close>

definition restore :: "'a tstate_scheme \<Rightarrow> 'a tstate_scheme result" where
  "restore s =
     rbind (myproc s) (\<lambda>p.
     let cp = p_trapframe_copy (procs s p);
         put = (\<lambda>off s. s\<lparr>mem := store64 (mem s) (cp + off) (tf_get p off s)\<rparr>);
         s = put tf_kernel_satp s; s = put tf_kernel_sp s; s = put tf_kernel_trap s;
         s = put tf_kernel_hartid s
     in Ok (tf_copy (p_trapframe (procs s p)) cp s))"

definition sys_sigreturn :: "'a tstate_scheme \<Rightarrow> (uint64 \<times> 'a tstate_scheme) result" where
  "sys_sigreturn s =
     rbind (restore s) (\<lambda>s. rbind (myproc s) (\<lambda>p.
     Ok (0, updp p (\<lambda>q. q\<lparr>p_is_sigalarm := 0\<rparr>) s)))"

section \<open>Dispatch\<close>

text \<open>The table \<^verbatim>\<open>syscalls\<close>; numbers are those of \<^verbatim>\<open>syscall.h\<close>.\<close>

definition syscalls :: "'a tstate_scheme env \<Rightarrow> uint \<times> uint \<Rightarrow> nat \<Rightarrow> 'a tstate_scheme
    \<Rightarrow> (uint64 \<times> 'a tstate_scheme) result" where
  "syscalls E junk num s =
     (if num = 1 then sys_fork s else if num = 2 then sys_exit E s else if num = 3 then sys_wait E s
      else if num = 4 then sys_pipe E s else if num = 5 then sys_read E s else if num = 6 then sys_kill s
      else if num = 7 then sys_exec E s else if num = 8 then sys_fstat E s else if num = 9 then sys_chdir E s
      else if num = 10 then sys_dup s else if num = 11 then sys_getpid s else if num = 12 then sys_sbrk s
      else if num = 13 then sys_sleep E s else if num = 14 then sys_uptime s else if num = 15 then sys_open E s
      else if num = 16 then sys_write E s else if num = 17 then sys_mknod E s else if num = 18 then sys_unlink E s
      else if num = 19 then sys_link E s else if num = 20 then sys_mkdir E s else if num = 21 then sys_close E s
      else if num = 22 then sys_trace s else if num = 23 then sys_setPriority E s
      else if num = 24 then sys_settickets s else if num = 25 then sys_waitx E junk s
      else if num = 26 then sys_sigalarm s else if num = 27 then sys_sigreturn s
      else Stop (Fault ''null syscall''))"

definition NSYSCALLS :: nat where [simp]: "NSYSCALLS = 28"

definition syscall_names :: "string list" where
  "syscall_names = ['''', ''fork'', ''exit'', ''wait'', ''pipe'', ''read'', ''kill'', ''exec'', ''fstat'',
     ''chdir'', ''dup'', ''getpid'', ''sbrk'', ''sleep'', ''uptime'', ''open'', ''write'', ''mknod'',
     ''unlink'', ''link'', ''mkdir'', ''close'', ''trace'', ''setPriority'', ''settickets'', ''waitx'']"

definition syscallnum :: "nat list" where
  "syscallnum = [0, 0, 1, 1, 0, 3, 2, 2, 1, 1, 1, 0, 1, 1, 0, 2, 3, 3, 1, 2, 1, 1, 1, 2, 2, 3, 2, 0]"

text \<open>The line \<^verbatim>\<open>strace\<close> prints. Entry 0 of the table of names is a null pointer.\<close>

definition trace_line :: "nat \<Rightarrow> nat \<Rightarrow> cint list \<Rightarrow> 'a tstate_scheme \<Rightarrow> 'a tstate_scheme result" where
  "trace_line p num args s =
     (if num \<ge> length syscall_names then Stop (Fault ''syscall_names index'')
      else rbind (printf (Some (cstr ''%d: syscall %s (''))
               [AInt (p_pid (procs s p)), AStr (Some (cstr (syscall_names ! num)))] s) (\<lambda>s.
           rbind (for_each (\<lambda>v. printf (Some (cstr ''%d '')) [AInt v]) args s) (\<lambda>s.
           rbind (argraw 0 s) (\<lambda>v.
           printf (Some (8 # cstr '') -> %d'' @ [10])) [AInt (ucast v)] s))))"

text \<open>\<^verbatim>\<open>syscallnum[num]\<close> is read before \<^verbatim>\<open>num\<close> is compared with the bounds.\<close>

definition syscall :: "'a tstate_scheme env \<Rightarrow> uint \<times> uint \<Rightarrow> 'a tstate_scheme \<Rightarrow> 'a tstate_scheme result" where
  "syscall E junk s =
     rbind (myproc s) (\<lambda>p.
     let num = ucast (tf_get p tf_a7 s) :: cint
     in if sint num < 0 \<or> sint num \<ge> int (length syscallnum) then Stop (Fault ''syscallnum index'')
        else let length = syscallnum ! unat num;
                 args = map (\<lambda>i. ucast (tf_get p (tf_a0 + 8 * of_nat i) s)) [0..<length]
             in if sint num > 0 \<and> sint num < int NSYSCALLS
                then rbind (syscalls E junk (unat num) s) (\<lambda>(v, s).
                     let s = tf_set p tf_a0 v s
                     in if p_mask (procs s p) AND push_bit (unat num) 1 \<noteq> 0
                        then trace_line p (unat num) args s else Ok s)
                else rbind (printf (Some (cstr ''%d %s: unknown sys call %d'' @ [10]))
                         [AInt (p_pid (procs s p)), AStr (Some (p_name (procs s p))), AInt num] s) (\<lambda>s.
                     Ok (tf_set p tf_a0 (-1) s)))"

section \<open>Traps\<close>

definition SSTATUS_SPP :: uint64 where [simp]: "SSTATUS_SPP = 0x100"
definition SSTATUS_SPIE :: uint64 where [simp]: "SSTATUS_SPIE = 0x20"
definition UART0_IRQ :: cint where [simp]: "UART0_IRQ = 10"
definition VIRTIO0_IRQ :: cint where [simp]: "VIRTIO0_IRQ = 1"

text \<open>The interrupt controller \<^verbatim>\<open>kernel/plic.c\<close>.\<close>

definition plicinit :: "'a tstate_scheme \<Rightarrow> 'a tstate_scheme" where
  "plicinit s =
     s\<lparr>plic_regs := (plic_regs s)(PLIC + scast UART0_IRQ * 4 := 1, PLIC + scast VIRTIO0_IRQ * 4 := 1)\<rparr>"

definition plicinithart :: "'a tstate_scheme \<Rightarrow> 'a tstate_scheme" where
  "plicinithart s =
     s\<lparr>plic_regs := (plic_regs s)(PLIC + 0x2080 + csr_tp s * 0x100 := 0x402,
                                 PLIC + 0x201000 + csr_tp s * 0x2000 := 0)\<rparr>"

definition plic_claim :: "'a tstate_scheme \<Rightarrow> cint" where
  "plic_claim s = plic_irq s"

definition plic_complete :: "cint \<Rightarrow> 'a tstate_scheme \<Rightarrow> 'a tstate_scheme" where
  "plic_complete irq s = s\<lparr>plic_done := plic_done s @ [irq]\<rparr>"

definition clockintr :: "'a tstate_scheme \<Rightarrow> 'a tstate_scheme result" where
  "clockintr s =
     rbind (lk_acquire TicksLock s) (\<lambda>s.
     rbind (updateTime (s\<lparr>ticks := ticks s + 1\<rparr>)) (\<lambda>s.
     rbind (wakeup ChTicks s) (lk_release TicksLock)))"

definition devintr :: "'a tstate_scheme \<Rightarrow> (cint \<times> 'a tstate_scheme) result" where
  "devintr s =
     (let scause = csr_scause s
      in if scause AND 0x8000000000000000 \<noteq> 0 \<and> scause AND 0xff = 9
         then let irq = plic_claim s
              in rbind (if irq = UART0_IRQ then uartintr s
                        else if irq = VIRTIO0_IRQ then virtio_disk_intr (disk_regs s) s
                        else if irq \<noteq> 0
                        then printf (Some (cstr ''unexpected interrupt irq=%d'' @ [10])) [AInt irq] s
                        else Ok s) (\<lambda>s.
                 Ok (1, if irq \<noteq> 0 then plic_complete irq s else s))
         else if scause = 0x8000000000000001
         then rbind (if csr_tp s = 0 then clockintr s else Ok s) (\<lambda>s.
              Ok (2, s\<lparr>csr_sip := csr_sip s AND NOT 2\<rparr>))
         else Ok (0, s))"

text \<open>The policies under which a timer interrupt gives up the CPU.\<close>

definition preemptive :: "policy \<Rightarrow> bool" where
  "preemptive pol \<longleftrightarrow> pol = RR \<or> pol = LBS \<or> pol = MLFQ"

definition alarm_tick :: "nat \<Rightarrow> 'a tstate_scheme \<Rightarrow> 'a tstate_scheme" where
  "alarm_tick p s =
     (let s = updp p (\<lambda>q. q\<lparr>p_now_ticks := p_now_ticks q + 1\<rparr>) s; q = procs s p
      in if sint (p_tickss q) > 0 \<and> sint (p_now_ticks q) \<ge> sint (p_tickss q) \<and> p_is_sigalarm q = 0
         then let s = updp p (\<lambda>q. q\<lparr>p_now_ticks := 0, p_is_sigalarm := 1\<rparr>) s;
                  s = tf_copy (p_trapframe_copy q) (p_trapframe q) s
              in tf_set p tf_epc (p_handler q) s
         else s)"

text \<open>
  The result of \<^verbatim>\<open>usertrapret\<close> is the state, the address it jumps to and the page table it passes
  to \<^verbatim>\<open>userret\<close>.
\<close>

definition usertrapret :: "'a tstate_scheme \<Rightarrow> ((uint64 \<times> uint64) \<times> 'a tstate_scheme) result" where
  "usertrapret s =
     rbind (myproc s) (\<lambda>p.
     let s = s\<lparr>csr_stvec := TRAMPOLINE + uservec_off s\<rparr>;
         s = tf_set p tf_kernel_satp (csr_satp s) s;
         s = tf_set p tf_kernel_sp (p_kstack (procs s p) + PGSIZE) s;
         s = tf_set p tf_kernel_trap (usertrap_pc s) s;
         s = tf_set p tf_kernel_hartid (csr_tp s) s;
         s = s\<lparr>csr_sstatus := (csr_sstatus s AND NOT SSTATUS_SPP) OR SSTATUS_SPIE\<rparr>;
         s = s\<lparr>csr_sepc := tf_get p tf_epc s\<rparr>
     in Ok ((TRAMPOLINE + userret_off s, MAKE_SATP (p_pagetable (procs s p))), s))"

definition usertrap_cause :: "'a tstate_scheme env \<Rightarrow> uint \<times> uint \<Rightarrow> nat \<Rightarrow> 'a tstate_scheme
    \<Rightarrow> (cint \<times> 'a tstate_scheme) result" where
  "usertrap_cause E junk p s =
     (if csr_scause s = 8
      then rbind (killed p s) (\<lambda>(k, s).
           if k \<noteq> 0 then exit E (-1) s
           else rbind (syscall E junk (tf_set p tf_epc (tf_get p tf_epc s + 4) s)) (\<lambda>s. Ok (0, s)))
      else rbind (devintr s) (\<lambda>(which_dev, s).
           if which_dev \<noteq> 0 then Ok (which_dev, s)
           else rbind (printf (Some (cstr ''usertrap(): unexpected scause %p pid=%d'' @ [10]))
                    [APtr (csr_scause s), AInt (p_pid (procs s p))] s) (\<lambda>s.
                rbind (printf (Some (cstr ''            sepc=%p stval=%p'' @ [10]))
                    [APtr (csr_sepc s), APtr (csr_stval s)] s) (\<lambda>s.
                rbind (setkilled p s) (\<lambda>s. Ok (0, s))))))"

definition usertrap :: "'a tstate_scheme env \<Rightarrow> uint \<times> uint \<Rightarrow> 'a tstate_scheme
    \<Rightarrow> ((uint64 \<times> uint64) \<times> 'a tstate_scheme) result" where
  "usertrap E junk s =
     (if csr_sstatus s AND SSTATUS_SPP \<noteq> 0 then Stop (Panic ''usertrap: not from user mode'')
      else let s = s\<lparr>csr_stvec := kernelvec_pc s\<rparr>
           in rbind (myproc s) (\<lambda>p.
              rbind (usertrap_cause E junk p (tf_set p tf_epc (csr_sepc s) s)) (\<lambda>(which_dev, s).
              rbind (killed p s) (\<lambda>(k, s).
              if k \<noteq> 0 then exit E (-1) s
              else rbind (if preemptive (sched_policy s) \<and> which_dev = 2
                          then yield (snd E) (alarm_tick p s) else Ok s) usertrapret))))"

text \<open>\<^verbatim>\<open>intr_get() != 0\<close> is the \<^verbatim>\<open>SIE\<close> bit of \<^verbatim>\<open>sstatus\<close>.\<close>

text \<open>The registers printed before the last panic are not part of the outcome.\<close>

definition kerneltrap :: "('a tstate_scheme \<Rightarrow> 'a tstate_scheme result) \<Rightarrow> 'a tstate_scheme
    \<Rightarrow> 'a tstate_scheme result" where
  "kerneltrap others s =
     (let sepc = csr_sepc s; sstatus = csr_sstatus s
      in if sstatus AND SSTATUS_SPP = 0 then Stop (Panic ''kerneltrap: not from supervisor mode'')
         else if sstatus AND 2 \<noteq> 0 then Stop (Panic ''kerneltrap: interrupts enabled'')
         else rbind (devintr s) (\<lambda>(which_dev, s).
              if which_dev = 0 then Stop (Panic ''kerneltrap'')
              else rbind (if preemptive (sched_policy s) \<and> which_dev = 2 \<and>
                             (case curproc s of None \<Rightarrow> False | Some p \<Rightarrow> p_state (procs s p) = RUNNING)
                          then yield others s else Ok s) (\<lambda>s.
                   Ok (s\<lparr>csr_sepc := sepc, csr_sstatus := sstatus\<rparr>))))"

definition forkret :: "'a tstate_scheme env \<Rightarrow> 'a tstate_scheme \<Rightarrow> ((uint64 \<times> uint64) \<times> 'a tstate_scheme) result" where
  "forkret E s =
     rbind (myproc s) (\<lambda>p.
     rbind (lk_release (ProcLock p) s) (\<lambda>s.
     rbind (if first s then fsinit E ROOTDEV (s\<lparr>first := False\<rparr>) else Ok s) usertrapret))"

section \<open>Boot\<close>

definition trapinit :: "'a tstate_scheme \<Rightarrow> 'a tstate_scheme" where
  "trapinit s = lk_init TicksLock s"

definition trapinithart :: "'a tstate_scheme \<Rightarrow> 'a tstate_scheme" where
  "trapinithart s = s\<lparr>csr_stvec := kernelvec_pc s\<rparr>"

text \<open>\<open>etext\<close> is the end of the kernel's code.\<close>

definition kvminit :: "uint64 \<Rightarrow> 'a tstate_scheme \<Rightarrow> 'a tstate_scheme result" where
  "kvminit etext s =
     rbind (kvmmake etext (trampoline s) s) (\<lambda>(pt, s). Ok (s\<lparr>kernel_pagetable := pt\<rparr>))"

definition kvminithart :: "'a tstate_scheme \<Rightarrow> 'a tstate_scheme" where
  "kvminithart s = s\<lparr>csr_satp := MAKE_SATP (kernel_pagetable s)\<rparr>"

text \<open>\<^verbatim>\<open>main\<close> on hart 0, up to its call of the scheduler.\<close>

definition boot :: "'a tstate_scheme env \<Rightarrow> uint64 \<Rightarrow> uint64 \<Rightarrow> uint64 \<Rightarrow> 'a tstate_scheme \<Rightarrow> 'a tstate_scheme result" where
  "boot E etext initcode root s =
     (let s = printfinit (consoleinit s)
      in rbind (printf (Some [10]) [] s) (\<lambda>s.
         rbind (printf (Some (cstr ''xv6 kernel is booting'' @ [10])) [] s) (\<lambda>s.
         rbind (printf (Some [10]) [] s) (\<lambda>s.
         rbind (kinit s) (\<lambda>s.
         rbind (kvminit etext s) (\<lambda>s.
         let s = procinit (kvminithart s);
             s = plicinithart (plicinit (trapinithart (trapinit s)));
             s = fileinit (iinit (binit s))
         in rbind (virtio_disk_init (disk_regs s) s) (\<lambda>s.
            rbind (userinit E initcode root s) (\<lambda>s.
            Ok (s\<lparr>started := True\<rparr>)))))))))"

end
