(* ===== verification/Ucopy.thy ===== *)
theory Ucopy
  imports Uspace
begin

text \<open>
  Transfers between kernel and user memory, \<^verbatim>\<open>copyin\<close> and \<^verbatim>\<open>copyout\<close> of \<^verbatim>\<open>kernel/vm.c\<close>. They never
  panic, whatever the user passes; they return 0 exactly when every byte of the user's range is
  mapped for the user, and then the bytes have arrived, across page boundaries as well.
\<close>

declare copyin.simps [simp del] copyout.simps [simp del] copyinstr.simps [simp del]

section \<open>User addresses\<close>

definition umap :: "bytes \<Rightarrow> uint64 \<Rightarrow> nat \<Rightarrow> bool" where
  "umap m a i \<longleftrightarrow> i < mpages \<and> leafn m a i AND PTE_V \<noteq> 0 \<and> leafn m a i AND PTE_U \<noteq> 0"

definition vpage :: "uint64 \<Rightarrow> nat" where
  "vpage va = unat va div 4096"

text \<open>The physical address of a mapped virtual address.\<close>

definition uaddr :: "bytes \<Rightarrow> uint64 \<Rightarrow> uint64 \<Rightarrow> uint64" where
  "uaddr m a va = frame m a (vpage va) + (va - PGROUNDDOWN va)"

definition uaccess :: "'a kmem_scheme \<Rightarrow> uint64 \<Rightarrow> bool" where
  "uaccess s a \<longleftrightarrow> vm_inv s a
     \<and> (\<forall>i. umap (mem s) a i \<longrightarrow> frame (mem s) a i \<in> kpages s - free_pages s - tables (mem s) a)
     \<and> inj_on (frame (mem s) a) {i. umap (mem s) a i}"

text \<open>A range of the kernel's own data: it does not wrap and lies outside the pages of the allocator.\<close>

definition kdata :: "'a kmem_scheme \<Rightarrow> uint64 \<Rightarrow> nat \<Rightarrow> bool" where
  "kdata s d n \<longleftrightarrow> unat d + n \<le> 2 ^ 64 \<and> (\<forall>x. in_range x d n \<longrightarrow> (\<forall>p \<in> kpages s. \<not> in_range x p 4096))"

lemma uspace_uaccess:
  assumes "uspace s a n" and "\<forall>i \<in> trap_pages. leafn (mem s) a i AND PTE_U = 0"
  shows "uaccess s a"
proof -
  have "i < n" if "umap (mem s) a i" for i
  proof (rule ccontr)
    assume "\<not> i < n"
    moreover have "i < vpages" using that by (simp add: umap_def)
    ultimately show False using that assms by (cases "i \<in> trap_pages") (auto simp: umap_def uspace_def)
  qed
  with assms(1) show ?thesis by (auto simp: uaccess_def uspace_def inj_on_def)
qed

lemma uaccess_mem:
  assumes "uaccess s a" and "\<And>p. p \<in> tables (mem s) a \<union> free_pages s \<Longrightarrow> same_page (mem s) m p"
  shows "uaccess (s\<lparr>mem := m\<rparr>) a" "leafn m a i = leafn (mem s) a i" "tables m a = tables (mem s) a"
    "free_pages (s\<lparr>mem := m\<rparr>) = free_pages s"
proof -
  have v: "vm_inv s a" "kmem_inv s" using assms(1) by (simp_all add: uaccess_def vm_inv_def)
  have K: "kmem_inv (s\<lparr>mem := m\<rparr>)" "free_pages (s\<lparr>mem := m\<rparr>) = free_pages s"
    by (rule kmem_frame [OF v(2)], use assms(2) in blast)+
  have d: "free_pages (s\<lparr>mem := m\<rparr>) \<inter> tables (mem s) a = {}" using v(1) K(2) by (auto simp: vm_inv_def)
  have sp: "p \<in> tables (mem s) a \<Longrightarrow> same_page (mem s) (mem (s\<lparr>mem := m\<rparr>)) p" for p using assms(2) by simp
  note F = vm_inv_frame [OF v(1) K(1) _ d sp, simplified]
  show "leafn m a i = leafn (mem s) a i" "tables m a = tables (mem s) a" "free_pages (s\<lparr>mem := m\<rparr>) = free_pages s"
    by (simp_all add: F K)
  have u: "umap m a = umap (mem s) a" "frame m a = frame (mem s) a"
    by (simp_all add: fun_eq_iff umap_def frame_def F)
  show "uaccess (s\<lparr>mem := m\<rparr>) a"
    using assms(1) K(2) by (simp add: uaccess_def u F)
qed

lemma same_page_outside: "(\<And>x. in_range x p 4096 \<Longrightarrow> m' x = m x) \<Longrightarrow> same_page m m' p"
  by (simp add: same_page_def)

lemma uaccess_kdata:
  assumes "uaccess s a" and "kdata s d n" and "\<And>x. \<not> in_range x d n \<Longrightarrow> m x = mem s x"
  shows "p \<in> kpages s \<Longrightarrow> same_page (mem s) m p" "uaccess (s\<lparr>mem := m\<rparr>) a"
    "leafn m a i = leafn (mem s) a i" "free_pages (s\<lparr>mem := m\<rparr>) = free_pages s" "tables m a = tables (mem s) a"
proof -
  have sp: "same_page (mem s) m p" if "p \<in> kpages s" for p
    using assms(2,3) that by (intro same_page_outside) (auto simp: kdata_def)
  have "tables (mem s) a \<union> free_pages s \<subseteq> kpages s"
    using assms(1) km.avail_pages [of s] by (auto simp: uaccess_def vm_inv_def)
  with sp have *: "p \<in> tables (mem s) a \<union> free_pages s \<Longrightarrow> same_page (mem s) m p" for p by blast
  show "p \<in> kpages s \<Longrightarrow> same_page (mem s) m p" by (rule sp)
  show "uaccess (s\<lparr>mem := m\<rparr>) a" "leafn m a i = leafn (mem s) a i" "free_pages (s\<lparr>mem := m\<rparr>) = free_pages s"
    "tables m a = tables (mem s) a"
    by (rule uaccess_mem [OF assms(1)], erule *)+
qed

lemma MAXVA_vpage: "va < MAXVA \<longleftrightarrow> vpage va < mpages"
  by (auto simp: MAXVA_eq word_less_nat_alt vpage_def)

lemma vpage_PGROUNDDOWN [simp]: "vpage (PGROUNDDOWN va) = vpage va"
  by (simp add: vpage_def unat_PGROUNDDOWN minus_mod_eq_div_mult)

lemma walkaddr_leaf:
  assumes "vm_inv s a"
  shows "walkaddr a va s = Ok (if umap (mem s) a (vpage va) then frame (mem s) a (vpage va) else 0)"
proof (cases "va < MAXVA")
  case True
  then have n: "unat va div 4096 = vpage va" "vpage va < mpages" by (simp_all add: MAXVA_vpage vpage_def)
  show ?thesis
  proof (cases "tbl (mem s) a [path2 (vpage va), path1 (vpage va)]")
    case None
    then have "leafn (mem s) a (vpage va) = 0" by (simp add: leafn_def entry_def)
    with None True show ?thesis by (simp add: walkaddr_def walk_find [OF n] umap_def)
  next
    case (Some c)
    then have "c \<in> tables (mem s) a" using tbl_in_tables [OF Some] by simp
    then have "pte_at c (path0 (vpage va)) \<noteq> 0" by (intro pte_nonzero [OF assms]) auto
    moreover have "leafn (mem s) a (vpage va) = load64 (mem s) (pte_at c (path0 (vpage va)))"
      using Some by (simp add: leafn_def entry_def)
    ultimately show ?thesis
      using Some True [unfolded not_le [symmetric]] n(2) by (simp add: walkaddr_def walk_find [OF n] umap_def frame_def Let_def)
  qed
next
  case False
  then have "MAXVA \<le> va" by simp
  moreover have "\<not> vpage va < mpages" using False by (simp only: MAXVA_vpage) simp
  ultimately show ?thesis by (simp add: walkaddr_def umap_def)
qed

text \<open>Within a page, virtual and physical addresses advance together.\<close>

lemma page_step:
  assumes "vpage va < mpages" and "j < 4096 - unat va mod 4096"
  shows "vpage (va + of_nat j) = vpage va" "uaddr m a (va + of_nat j) = uaddr m a va + of_nat j"
proof -
  have "unat va < 2 ^ 38" using assms(1) by (simp add: vpage_def)
  moreover have "j < 4096" using assms(2) by simp
  ultimately have u: "unat (va + of_nat j) = unat va + j"
    by (subst unat_add_small) (simp_all add: unat_of_nat)
  obtain q r where q: "unat va = 4096 * q + r" "r < 4096" "q = unat va div 4096" "r = unat va mod 4096"
    by (metis mod_less_divisor mult_div_mod_eq zero_less_numeral)
  have "r + j < 4096" using assms(2) q by linarith
  then have "(unat va + j) div 4096 = unat va div 4096" unfolding q(1) by (simp add: add.assoc)
  then show v: "vpage (va + of_nat j) = vpage va" by (simp add: vpage_def u)
  have "unat (PGROUNDDOWN (va + of_nat j)) = unat (PGROUNDDOWN va)"
    using v by (simp add: unat_PGROUNDDOWN minus_mod_eq_div_mult vpage_def)
  then have "PGROUNDDOWN (va + of_nat j) = PGROUNDDOWN va" by (simp add: word_unat_eq_iff)
  with v show "uaddr m a (va + of_nat j) = uaddr m a va + of_nat j" by (simp add: uaddr_def)
qed

section \<open>One page\<close>

text \<open>The bytes of a transfer that lie on the first page, and how the rest of the range continues.\<close>

lemma chunk_rest:
  assumes "vpage va < mpages" and "0 < len"
  shows "0 < unat (chunk va len)" "unat (chunk va len) \<le> unat len" "unat (len - chunk va len) = unat len - unat (chunk va len)"
    "unat (chunk va len) \<le> 4096 - unat va mod 4096" "unat (ucast (chunk va len) :: uint) = unat (chunk va len)"
    "len - chunk va len \<noteq> 0 \<Longrightarrow> PGROUNDDOWN va + PGSIZE = va + of_nat (unat (chunk va len))"
proof -
  have c: "unat (chunk va len) = min (unat len) (4096 - unat va mod 4096)" by (rule unat_chunk)
  have "0 < unat len" using assms(2) by (simp add: word_less_nat_alt)
  then show "0 < unat (chunk va len)" "unat (chunk va len) \<le> unat len" "unat (chunk va len) \<le> 4096 - unat va mod 4096"
    by (simp_all add: c)
  then show l: "unat (len - chunk va len) = unat len - unat (chunk va len)"
    by (simp add: unat_sub word_le_nat_alt)
  have "unat (chunk va len) \<le> 4096" unfolding c by linarith
  then show "unat (ucast (chunk va len) :: uint) = unat (chunk va len)"
    by (simp add: unsigned_ucast_eq take_bit_nat_eq_self_iff)
  show "PGROUNDDOWN va + PGSIZE = va + of_nat (unat (chunk va len))" if "len - chunk va len \<noteq> 0"
  proof -
    have "unat (len - chunk va len) \<noteq> 0" using that by (simp add: word_unat_eq_iff)
    then have "unat (chunk va len) = 4096 - unat va mod 4096" using l c by (auto simp: min_def split: if_splits)
    moreover have b: "unat va < 2 ^ 38" using assms(1) by (simp add: vpage_def)
    moreover have "unat (PGROUNDDOWN va + PGSIZE) = unat va - unat va mod 4096 + 4096"
      using b by (subst unat_add_small) (simp_all add: unat_PGROUNDDOWN)
    moreover have "unat (va + chunk va len) = unat va + unat (chunk va len)"
      using b c by (subst unat_add_small) simp_all
    moreover have "unat va mod 4096 < 4096" "unat va mod 4096 \<le> unat va" by simp_all
    ultimately have "unat (PGROUNDDOWN va + PGSIZE) = unat (va + chunk va len)" by linarith
    then have "PGROUNDDOWN va + PGSIZE = va + chunk va len" by (simp only: word_unat_eq_iff)
    then show ?thesis by simp
  qed
qed

lemma uaddr_range:
  assumes "uaccess s a" and "umap (mem s) a (vpage va)" and "n \<le> 4096 - unat va mod 4096"
  shows "unat (uaddr (mem s) a va) + n \<le> 2 ^ 64"
    "in_range x (uaddr (mem s) a va) n \<Longrightarrow> in_range x (frame (mem s) a (vpage va)) 4096"
proof -
  let ?f = "frame (mem s) a (vpage va)"
  have "?f \<in> kpages s" using assms(1,2) by (simp add: uaccess_def)
  then have "page_aligned ?f" "?f < PHYSTOP" by (simp_all add: kpages_def kpage_def)
  then have f: "unat ?f < 0x88000000" by (simp add: word_less_nat_alt)
  have u: "unat (uaddr (mem s) a va) = unat ?f + unat va mod 4096"
    unfolding uaddr_def using f page_offset_less [of va]
    by (subst unat_add_small) (simp_all add: page_offset)
  show "unat (uaddr (mem s) a va) + n \<le> 2 ^ 64" using u f assms(3) by simp
  have "unat (uaddr (mem s) a va - ?f) + n \<le> 4096"
    using assms(3) page_offset_less [of va] by (simp add: uaddr_def page_offset)
  then show "in_range x (uaddr (mem s) a va) n \<Longrightarrow> in_range x ?f 4096" by (rule in_range_sub [rotated])
qed

lemma kdata_sub:
  assumes "kdata s d n" and "i + k \<le> n"
  shows "kdata s (d + of_nat i) k"
proof -
  have "n \<le> 2 ^ 64" using assms(1) by (simp add: kdata_def)
  show ?thesis
  proof (cases "k = 0")
    case True
    then show ?thesis by (simp add: kdata_def less_imp_le)
  next
    case False
    moreover have "unat d + n \<le> 2 ^ 64" using assms(1) by (simp add: kdata_def)
    ultimately have i: "i < 2 ^ 64" "unat d + i < 2 ^ 64" "unat d + i + k \<le> 2 ^ 64" using assms(2) by linarith+
    then have "unat (d + of_nat i) = unat d + i" by (subst unat_add_small) (simp_all add: unat_of_nat)
    moreover have "in_range x d n" if "in_range x (d + of_nat i) k" for x
      using that i assms(2) by (intro in_range_sub [OF that]) (simp add: unat_of_nat)
    ultimately show ?thesis using assms(1) i(3) by (simp add: kdata_def)
  qed
qed

lemma kdata_mem [simp]: "kdata (s\<lparr>mem := m\<rparr>) = kdata s"
  by (simp add: kdata_def fun_eq_iff)

section \<open>copyin\<close>

text \<open>The whole range of \<open>n\<close> bytes from \<open>va\<close> is mapped for the user.\<close>

definition urange :: "bytes \<Rightarrow> uint64 \<Rightarrow> uint64 \<Rightarrow> nat \<Rightarrow> bool" where
  "urange m a va n \<longleftrightarrow> (\<forall>j < n. umap m a (vpage (va + of_nat j)))"

lemma urange_first: "urange m a va n \<Longrightarrow> 0 < n \<Longrightarrow> umap m a (vpage va)"
  by (drule iffD1 [OF urange_def], drule spec [of _ 0]) simp

lemma urange_split:
  assumes "umap m a (vpage va)" and "k \<le> 4096 - unat va mod 4096" and "k \<le> n"
  shows "urange m a va n \<longleftrightarrow> urange m a (va + of_nat k) (n - k)"
proof
  assume r: "urange m a va n"
  show "urange m a (va + of_nat k) (n - k)"
    unfolding urange_def
  proof (intro allI impI)
    fix j assume "j < n - k"
    then have "umap m a (vpage (va + of_nat (k + j)))" 
      using r [unfolded urange_def, rule_format, of "k + j"] assms(3) by linarith
    then show "umap m a (vpage (va + of_nat k + of_nat j))" by (simp add: add.assoc)
  qed
next
  assume r: "urange m a (va + of_nat k) (n - k)"
  show "urange m a va n"
    unfolding urange_def
  proof (intro allI impI)
    fix j assume j: "j < n"
    show "umap m a (vpage (va + of_nat j))"
    proof (cases "j < k")
      case True
      have "vpage va < mpages" using assms(1) by (simp add: umap_def)
      with page_step(1) [of va j] True assms(1,2) show ?thesis by simp
    next
      case False
      then have "umap m a (vpage (va + of_nat k + of_nat (j - k)))"
        using r [unfolded urange_def, rule_format, of "j - k"] j by linarith
      moreover have "va + of_nat k + of_nat (j - k) = va + of_nat j" using False by (simp add: of_nat_diff)
      ultimately show ?thesis by simp
    qed
  qed
qed

lemma uaddr_same: "(\<And>i. leafn m' a i = leafn m a i) \<Longrightarrow> uaddr m' a va = uaddr m a va"
  "(\<And>i. leafn m' a i = leafn m a i) \<Longrightarrow> umap m' a i = umap m a i"
  "(\<And>i. leafn m' a i = leafn m a i) \<Longrightarrow> urange m' a va n = urange m a va n"
  by (simp_all add: uaddr_def frame_def umap_def urange_def)

lemma user_byte_not_kdata:
  assumes "uaccess s a" and "kdata s d n" and "umap (mem s) a (vpage va)"
  shows "\<not> in_range (uaddr (mem s) a va) d n" "frame (mem s) a (vpage va) \<noteq> 0"
proof -
  have f: "frame (mem s) a (vpage va) \<in> kpages s" using assms(1,3) by (simp add: uaccess_def)
  have "unat va mod 4096 < 4096" by simp
  then have "in_range (uaddr (mem s) a va) (frame (mem s) a (vpage va)) 4096"
    by (intro uaddr_range(2) [OF assms(1,3), of 1]) simp_all
  with f assms(2) show "\<not> in_range (uaddr (mem s) a va) d n" by (auto simp: kdata_def)
  have "kmem_inv s" using assms(1) by (simp add: uaccess_def vm_inv_def)
  with f km.null_not_page show "frame (mem s) a (vpage va) \<noteq> 0" by metis
qed

text \<open>A transfer done in two parts.\<close>

lemma below_not_in_rest:
  assumes "j < k" and "k \<le> n" and "n < 2 ^ 64"
  shows "\<not> in_range (d + of_nat j) (d + of_nat k) (n - k)"
proof -
  have "unat (of_nat j - of_nat k :: uint64) = 2 ^ 64 - (k - j)"
    using assms by (simp add: unat_sub_if' unat_of_nat)
  then show ?thesis using assms by (simp add: in_range_def)
qed

lemma copy_join:
  assumes "\<And>x. \<not> in_range x (d + of_nat k) (n - k) \<Longrightarrow> m x = blit m0 d m0 u k x"
    and "k \<le> n" and "n < 2 ^ 64"
  shows "\<not> in_range x d n \<Longrightarrow> m x = m0 x" "j < k \<Longrightarrow> m (d + of_nat j) = m0 (u + of_nat j)"
proof -
  have k: "k < 2 ^ 64" using assms(2,3) by simp
  show "m x = m0 x" if "\<not> in_range x d n"
  proof -
    have "\<not> in_range x d k" using that assms(2) by (auto dest: in_range_mono)
    moreover have "\<not> in_range x (d + of_nat k) (n - k)"
      using that in_range_sub [of x "d + of_nat k" "n - k" d n] assms(2) k by (auto simp: unat_of_nat)
    ultimately show ?thesis using assms(1) by (simp add: blit_apply)
  qed
  show "m (d + of_nat j) = m0 (u + of_nat j)" if "j < k"
    using assms(1) [OF below_not_in_rest [OF that assms(2,3)]] in_range_add [OF that, of d] k
    by (simp add: blit_apply)
qed

text \<open>The first round of \<^verbatim>\<open>copyin\<close>.\<close>

lemma copyin_step:
  assumes "uaccess s a" and "kdata s dst (unat len)" and "0 < len" and "umap (mem s) a (vpage va)"
  defines "k \<equiv> unat (chunk va len)"
  shows "copyin a dst va len s = copyin a (dst + of_nat k) (va + of_nat k) (len - chunk va len)
    (s\<lparr>mem := blit (mem s) dst (mem s) (uaddr (mem s) a va) k\<rparr>)"
proof -
  have vp: "vpage va < mpages" using assms(4) by (simp add: umap_def)
  note c = chunk_rest [OF vp assms(3), folded k_def]
  have "vm_inv s a" using assms(1) by (simp add: uaccess_def)
  then have w: "walkaddr a (PGROUNDDOWN va) s = Ok (frame (mem s) a (vpage va))"
    using assms(4) by (simp add: walkaddr_leaf)
  have b: "unat dst + k \<le> 2 ^ 64" using assms(2) c(2) by (simp add: kdata_def)
  have "memmove (mem s) dst (uaddr (mem s) a va) (ucast (chunk va len)) = blit (mem s) dst (mem s) (uaddr (mem s) a va) k"
    using b uaddr_range(1) [OF assms(1,4) c(4)] c(5)
    by (subst memmove_blit) simp_all
  moreover have "chunk va len = of_nat k" by (simp add: k_def)
  ultimately have "copyin a dst va len s = copyin a (dst + of_nat k) (PGROUNDDOWN va + PGSIZE) (len - chunk va len)
      (s\<lparr>mem := blit (mem s) dst (mem s) (uaddr (mem s) a va) k\<rparr>)"
    using assms(3) w user_byte_not_kdata(2) [OF assms(1,2,4)]
    by (subst copyin.simps) (simp add: Let_def uaddr_def)
  also have "\<dots> = copyin a (dst + of_nat k) (va + of_nat k) (len - chunk va len)
      (s\<lparr>mem := blit (mem s) dst (mem s) (uaddr (mem s) a va) k\<rparr>)"
    using c(6) by (cases "len - chunk va len = 0") (simp_all add: copyin.simps)
  finally show ?thesis .
qed

lemma copyin_spec:
  assumes "uaccess s a" and "kdata s dst (unat len)"
  shows "\<exists>m. copyin a dst va len s = Ok (if urange (mem s) a va (unat len) then 0 else -1, s\<lparr>mem := m\<rparr>)
    \<and> (\<forall>x. \<not> in_range x dst (unat len) \<longrightarrow> m x = mem s x)
    \<and> (urange (mem s) a va (unat len) \<longrightarrow>
        (\<forall>j < unat len. m (dst + of_nat j) = mem s (uaddr (mem s) a (va + of_nat j))))"
  using assms
proof (induction "unat len" arbitrary: dst va len s rule: less_induct)
  case less
  note A = less.prems
  show ?case
  proof (cases "len = 0")
    case True
    then show ?thesis by (intro exI [of _ "mem s"]) (simp add: copyin.simps urange_def)
  next
    case False
    then have len: "0 < len" "0 < unat len" by (simp_all add: word_less_nat_alt word_neq_0_conv)
    show ?thesis
    proof (cases "umap (mem s) a (vpage va)")
      case nomap: False
      have "vm_inv s a" using A(1) by (simp add: uaccess_def)
      with nomap len have "copyin a dst va len s = Ok (-1, s)"
        by (subst copyin.simps) (simp add: walkaddr_leaf Let_def)
      moreover have "\<not> urange (mem s) a va (unat len)" using nomap urange_first len(2) by blast
      ultimately show ?thesis by (intro exI [of _ "mem s"]) simp
    next
      case True
      define k where "k = unat (chunk va len)"
      define s1 where "s1 = s\<lparr>mem := blit (mem s) dst (mem s) (uaddr (mem s) a va) k\<rparr>"
      have vp: "vpage va < mpages" using True by (simp add: umap_def)
      note c = chunk_rest [OF vp len(1), folded k_def]
      have kd: "kdata s dst k" "kdata s (dst + of_nat k) (unat len - k)"
        using kdata_sub [OF A(2), of 0 k] kdata_sub [OF A(2), of k "unat len - k"] c(2) by simp_all
      have out: "\<not> in_range x dst k \<Longrightarrow> mem s1 x = mem s x" for x by (simp add: s1_def blit_apply)
      note F = uaccess_kdata [OF A(1) kd(1) out]
      have lf: "leafn (mem s1) a i = leafn (mem s) a i" for i by (rule F(3))
      have u1: "uaccess s1 a" using F(2) by (simp add: s1_def)
      let ?va = "va + of_nat k :: uint64" let ?l = "len - chunk va len"
      have "kdata s1 (dst + of_nat k) (unat ?l)" using kd(2) c(3) by (simp add: s1_def)
      then obtain m where m: "copyin a (dst + of_nat k) ?va ?l s1 =
            Ok (if urange (mem s1) a ?va (unat ?l) then 0 else -1, s1\<lparr>mem := m\<rparr>)"
          "\<And>x. \<not> in_range x (dst + of_nat k) (unat ?l) \<Longrightarrow> m x = mem s1 x"
          "urange (mem s1) a ?va (unat ?l) \<Longrightarrow>
            \<forall>j < unat ?l. m (dst + of_nat k + of_nat j) = mem s1 (uaddr (mem s1) a (?va + of_nat j))"
        using less.hyps [of ?l s1 "dst + of_nat k" ?va] c(1,2,3) len(2) u1 by auto
      have ur: "urange (mem s1) a ?va (unat ?l) \<longleftrightarrow> urange (mem s) a va (unat len)"
        using urange_split [OF True c(4,2)] uaddr_same(3) [OF lf] c(3) by simp
      have l64: "unat len < 2 ^ 64" by simp
      note J = copy_join [of dst k "unat len" m "mem s" "uaddr (mem s) a va", folded c(3), OF _ c(2) l64]
      have "m (dst + of_nat j) = mem s (uaddr (mem s) a (va + of_nat j))"
        if all: "urange (mem s) a va (unat len)" and j: "j < unat len" for j
      proof (cases "j < k")
        case True
        then show ?thesis using J(2) m(2) page_step(2) [OF vp, of j] c(4) by (simp add: s1_def)
      next
        case False
        then have va: "?va + of_nat (j - k) = va + of_nat j" "dst + of_nat k + of_nat (j - k) = dst + of_nat j"
          by (simp_all add: of_nat_diff)
        have "j - k < unat ?l" using False j c(3) by simp
        from m(3) [OF iffD2 [OF ur all], rule_format, OF this]
        have "m (dst + of_nat k + of_nat (j - k)) = mem s1 (uaddr (mem s1) a (?va + of_nat (j - k)))" .
        moreover have "\<not> in_range (uaddr (mem s) a (va + of_nat j)) dst k"
          using all j by (intro user_byte_not_kdata [OF A(1) kd(1)]) (simp add: urange_def)
        ultimately show ?thesis unfolding va using out uaddr_same(1) [OF lf] by simp
      qed
      moreover have "copyin a dst va len s = Ok (if urange (mem s) a va (unat len) then 0 else -1, s\<lparr>mem := m\<rparr>)"
        using copyin_step [OF A len(1) True, folded k_def, folded s1_def] m(1) ur by (simp add: s1_def)
      moreover have "\<not> in_range x dst (unat len) \<Longrightarrow> m x = mem s x" for x
        using J(1) m(2) by (simp add: s1_def)
      ultimately show ?thesis by blast
    qed
  qed
qed

section \<open>copyout\<close>

lemma uaddr_inj:
  assumes "uaccess s a" and "umap (mem s) a (vpage va)" and "umap (mem s) a (vpage vb)"
    and "uaddr (mem s) a va = uaddr (mem s) a vb"
  shows "va = vb"
proof -
  let ?f = "\<lambda>v. frame (mem s) a (vpage v)"
  have in1: "in_range (uaddr (mem s) a v) (?f v) 4096" if "umap (mem s) a (vpage v)" for v
  proof -
    have "unat v mod 4096 < 4096" by simp
    then show ?thesis by (intro uaddr_range(2) [OF assms(1) that, of 1]) simp_all
  qed
  have al: "page_aligned (?f v)" if "umap (mem s) a (vpage v)" for v
    using that assms(1) kpages_aligned by (auto simp: uaccess_def)
  have "?f va = ?f vb"
    using pages_disjoint [OF al [OF assms(2)] al [OF assms(3)] in1 [OF assms(2)]] in1 [OF assms(3)] assms(4) by simp
  moreover have "inj_on (frame (mem s) a) {i. umap (mem s) a i}" using assms(1) by (simp add: uaccess_def)
  ultimately have v: "vpage va = vpage vb" using assms(2,3) by (auto dest: inj_onD)
  then have "unat (PGROUNDDOWN va) = unat (PGROUNDDOWN vb)"
    by (simp add: vpage_def unat_PGROUNDDOWN minus_mod_eq_div_mult)
  then have "PGROUNDDOWN va = PGROUNDDOWN vb" by (simp only: word_unat_eq_iff)
  with assms(4) v show ?thesis by (simp add: uaddr_def)
qed

text \<open>Writing to the frames that the user can reach leaves tables and free pages alone.\<close>

lemma uaccess_user_write:
  assumes "uaccess s a" and "umap (mem s) a i"
    and "\<And>x. \<not> in_range x (frame (mem s) a i) 4096 \<Longrightarrow> m x = mem s x"
  shows "uaccess (s\<lparr>mem := m\<rparr>) a" "leafn m a k = leafn (mem s) a k" "free_pages (s\<lparr>mem := m\<rparr>) = free_pages s"
proof -
  let ?f = "frame (mem s) a i"
  have f: "?f \<in> kpages s - free_pages s - tables (mem s) a" using assms(1,2) by (simp add: uaccess_def)
  have "tables (mem s) a \<union> free_pages s \<subseteq> kpages s"
    using assms(1) km.avail_pages [of s] by (auto simp: uaccess_def vm_inv_def)
  then have "same_page (mem s) m p" if "p \<in> tables (mem s) a \<union> free_pages s" for p
    using that f kpages_aligned [of p s] kpages_aligned [of ?f s] pages_disjoint [of p ?f] assms(3)
    by (intro same_page_outside) auto
  then show "uaccess (s\<lparr>mem := m\<rparr>) a" "leafn m a k = leafn (mem s) a k" "free_pages (s\<lparr>mem := m\<rparr>) = free_pages s"
    by (intro uaccess_mem [OF assms(1)]; blast)+
qed

lemma copyout_step:
  assumes "uaccess s a" and "kdata s src (unat len)" and "0 < len" and "umap (mem s) a (vpage va)"
  defines "k \<equiv> unat (chunk va len)"
  shows "copyout a va src len s = copyout a (va + of_nat k) (src + of_nat k) (len - chunk va len)
    (s\<lparr>mem := blit (mem s) (uaddr (mem s) a va) (mem s) src k\<rparr>)"
proof -
  have vp: "vpage va < mpages" using assms(4) by (simp add: umap_def)
  note c = chunk_rest [OF vp assms(3), folded k_def]
  have "vm_inv s a" using assms(1) by (simp add: uaccess_def)
  then have w: "walkaddr a (PGROUNDDOWN va) s = Ok (frame (mem s) a (vpage va))"
    using assms(4) by (simp add: walkaddr_leaf)
  have b: "unat src + k \<le> 2 ^ 64" using assms(2) c(2) by (simp add: kdata_def)
  have "memmove (mem s) (uaddr (mem s) a va) src (ucast (chunk va len)) = blit (mem s) (uaddr (mem s) a va) (mem s) src k"
    using b uaddr_range(1) [OF assms(1,4) c(4)] c(5)
    by (subst memmove_blit) simp_all
  moreover have "chunk va len = of_nat k" by (simp add: k_def)
  ultimately have "copyout a va src len s = copyout a (PGROUNDDOWN va + PGSIZE) (src + of_nat k) (len - chunk va len)
      (s\<lparr>mem := blit (mem s) (uaddr (mem s) a va) (mem s) src k\<rparr>)"
    using assms(3) w user_byte_not_kdata(2) [OF assms(1,2,4)]
    by (subst copyout.simps) (simp add: Let_def uaddr_def)
  also have "\<dots> = copyout a (va + of_nat k) (src + of_nat k) (len - chunk va len)
      (s\<lparr>mem := blit (mem s) (uaddr (mem s) a va) (mem s) src k\<rparr>)"
    using c(6) by (cases "len - chunk va len = 0") (simp_all add: copyout.simps)
  finally show ?thesis .
qed

text \<open>The bytes of user memory a transfer may write.\<close>

definition utouch :: "bytes \<Rightarrow> uint64 \<Rightarrow> uint64 \<Rightarrow> nat \<Rightarrow> uint64 \<Rightarrow> bool" where
  "utouch m a va n x \<longleftrightarrow> (\<exists>j < n. umap m a (vpage (va + of_nat j)) \<and> x = uaddr m a (va + of_nat j))"

lemma utouch_shift:
  assumes "utouch m a (va + of_nat k) (n - k) x" and "k \<le> n"
  shows "utouch m a va n x"
proof -
  obtain j where "j < n - k" "umap m a (vpage (va + of_nat k + of_nat j))" "x = uaddr m a (va + of_nat k + of_nat j)"
    using assms(1) by (auto simp: utouch_def)
  then show ?thesis unfolding utouch_def
    by (intro exI [of _ "k + j"]) (simp add: add.assoc)
qed

lemma utouch_same: "(\<And>i. leafn m' a i = leafn m a i) \<Longrightarrow> utouch m' a va n x = utouch m a va n x"
  by (simp add: utouch_def uaddr_same(1) [of m' a m] uaddr_same(2) [of m' a m])

text \<open>The bytes of the first page, whether or not later pages are written too.\<close>

lemma utouch_first:
  assumes "umap m a (vpage va)" and "k \<le> 4096 - unat va mod 4096" and "k \<le> n" and "in_range x (uaddr m a va) k"
  shows "utouch m a va n x"
proof -
  let ?j = "unat (x - uaddr m a va)"
  have "?j < k" using assms(4) by (simp add: in_range_def)
  moreover have vp: "vpage va < mpages" using assms(1) by (simp add: umap_def)
  ultimately have "umap m a (vpage (va + of_nat ?j))" "uaddr m a (va + of_nat ?j) = uaddr m a va + of_nat ?j"
    using page_step [OF vp, of ?j] assms(1,2) by simp_all
  moreover have "x = uaddr m a va + of_nat ?j" by simp
  ultimately show ?thesis unfolding utouch_def using \<open>?j < k\<close> assms(3) by (metis less_le_trans)
qed

lemma not_utouch_rest:
  assumes "uaccess s a" and "umap (mem s) a (vpage (va + of_nat j))" and "j < k" and "k \<le> n" and "n < 2 ^ 64"
  shows "\<not> utouch (mem s) a (va + of_nat k) (n - k) (uaddr (mem s) a (va + of_nat j))"
proof
  assume "utouch (mem s) a (va + of_nat k) (n - k) (uaddr (mem s) a (va + of_nat j))"
  then obtain i where i: "i < n - k" "umap (mem s) a (vpage (va + of_nat k + of_nat i))"
    "uaddr (mem s) a (va + of_nat j) = uaddr (mem s) a (va + of_nat k + of_nat i)"
    by (auto simp: utouch_def)
  from uaddr_inj [OF assms(1,2) i(2,3)] have "(of_nat j :: uint64) = of_nat (k + i)" by (simp add: add.assoc)
  then have "unat (of_nat j :: uint64) = unat (of_nat (k + i) :: uint64)" by simp
  moreover have "j < 2 ^ 64" "k + i < 2 ^ 64" using assms(3-5) i(1) by linarith+
  ultimately have "j = k + i" using unat_of_nat_small [where 'w = 64, of j] unat_of_nat_small [where 'w = 64, of "k + i"] by simp
  with assms(3) show False by simp
qed

lemma copyout_spec:
  assumes "uaccess s a" and "kdata s src (unat len)"
  shows "\<exists>m. copyout a va src len s = Ok (if urange (mem s) a va (unat len) then 0 else -1, s\<lparr>mem := m\<rparr>)
    \<and> uaccess (s\<lparr>mem := m\<rparr>) a \<and> (\<forall>i. leafn m a i = leafn (mem s) a i)
    \<and> (\<forall>x. \<not> utouch (mem s) a va (unat len) x \<longrightarrow> m x = mem s x)
    \<and> (urange (mem s) a va (unat len) \<longrightarrow>
        (\<forall>j < unat len. m (uaddr (mem s) a (va + of_nat j)) = mem s (src + of_nat j)))"
  using assms
proof (induction "unat len" arbitrary: src va len s rule: less_induct)
  case less
  note A = less.prems
  show ?case
  proof (cases "len \<noteq> 0 \<and> umap (mem s) a (vpage va)")
    case False
    have "vm_inv s a" using A(1) by (simp add: uaccess_def)
    with False have "copyout a va src len s = Ok (if len = 0 then 0 else -1, s)"
      by (subst copyout.simps) (auto simp: walkaddr_leaf Let_def word_neq_0_conv)
    moreover have "urange (mem s) a va (unat len) \<longleftrightarrow> len = 0"
      using False urange_first [of "mem s" a va "unat len"] by (auto simp: urange_def unat_gt_0)
    ultimately show ?thesis using A(1) by (intro exI [of _ "mem s"]) (auto simp: word_neq_0_conv)
  next
    case True
    then have len: "0 < len" "0 < unat len" and um: "umap (mem s) a (vpage va)" by (simp_all add: word_neq_0_conv unat_gt_0)
    define k where "k = unat (chunk va len)"
    define s1 where "s1 = s\<lparr>mem := blit (mem s) (uaddr (mem s) a va) (mem s) src k\<rparr>"
    have vp: "vpage va < mpages" using um by (simp add: umap_def)
    note c = chunk_rest [OF vp len(1), folded k_def]
    have l64: "unat len < 2 ^ 64" by simp
    have "\<not> in_range x (frame (mem s) a (vpage va)) 4096 \<Longrightarrow> mem s1 x = mem s x" for x
      using uaddr_range(2) [OF A(1) um c(4)] by (auto simp: s1_def blit_def)
    note F = uaccess_user_write [OF A(1) um this]
    have lf: "leafn (mem s1) a i = leafn (mem s) a i" for i by (rule F(2))
    have u1: "uaccess s1 a" using F(1) by (simp add: s1_def)
    have srcb: "mem s1 (src + of_nat j) = mem s (src + of_nat j)" if "j < unat len" for j
    proof -
      have "in_range (src + of_nat j) src (unat len)" by (rule in_range_add [OF that less_imp_le [OF l64]])
      moreover have "frame (mem s) a (vpage va) \<in> kpages s" using A(1) um by (simp add: uaccess_def)
      ultimately show ?thesis
        using A(2) uaddr_range(2) [OF A(1) um c(4)] by (auto simp: s1_def blit_def kdata_def)
    qed
    let ?va = "va + of_nat k :: uint64" let ?l = "len - chunk va len"
    have "kdata s1 (src + of_nat k) (unat ?l)" using kdata_sub [OF A(2), of k "unat len - k"] c(2,3) by (simp add: s1_def)
    then obtain m where m: "copyout a ?va (src + of_nat k) ?l s1 =
          Ok (if urange (mem s1) a ?va (unat ?l) then 0 else -1, s1\<lparr>mem := m\<rparr>)"
        "uaccess (s1\<lparr>mem := m\<rparr>) a" "\<And>i. leafn m a i = leafn (mem s1) a i"
        "\<And>x. \<not> utouch (mem s1) a ?va (unat ?l) x \<Longrightarrow> m x = mem s1 x"
        "urange (mem s1) a ?va (unat ?l) \<Longrightarrow>
          \<forall>j < unat ?l. m (uaddr (mem s1) a (?va + of_nat j)) = mem s1 (src + of_nat k + of_nat j)"
      using less.hyps [of ?l s1 "src + of_nat k" ?va] c(1,2,3) len(2) u1 by auto
    have ur: "urange (mem s1) a ?va (unat ?l) \<longleftrightarrow> urange (mem s) a va (unat len)"
      using urange_split [OF um c(4,2)] uaddr_same(3) [OF lf] c(3) by simp
    have "m (uaddr (mem s) a (va + of_nat j)) = mem s (src + of_nat j)"
      if all: "urange (mem s) a va (unat len)" and j: "j < unat len" for j
    proof (cases "j < k")
      case True
      have "umap (mem s) a (vpage (va + of_nat j))" using all j by (simp add: urange_def)
      from not_utouch_rest [OF A(1) this True c(2) l64]
      have "m (uaddr (mem s) a (va + of_nat j)) = mem s1 (uaddr (mem s) a (va + of_nat j))"
        using m(4) utouch_same [OF lf] c(3) by simp
      also have "\<dots> = mem s (src + of_nat j)"
        using page_step(2) [OF vp, of j] True c(4) in_range_add [OF True, of "uaddr (mem s) a va"] c(2) l64
        by (simp add: s1_def blit_apply)
      finally show ?thesis .
    next
      case False
      then have va: "?va + of_nat (j - k) = va + of_nat j" "src + of_nat k + of_nat (j - k) = src + of_nat j"
        by (simp_all add: of_nat_diff)
      have "j - k < unat ?l" using False j c(3) by simp
      from m(5) [OF iffD2 [OF ur all], rule_format, OF this] srcb [OF j] uaddr_same(1) [OF lf]
      show ?thesis unfolding va by simp
    qed
    moreover have "m x = mem s x" if "\<not> utouch (mem s) a va (unat len) x" for x
    proof -
      have "\<not> utouch (mem s) a ?va (unat len - k) x" "\<not> in_range x (uaddr (mem s) a va) k"
        using that utouch_shift [OF _ c(2)] utouch_first [OF um c(4,2)] by blast+
      then show ?thesis using m(4) utouch_same [OF lf] c(3) by (simp add: s1_def blit_apply)
    qed
    moreover have "copyout a va src len s = Ok (if urange (mem s) a va (unat len) then 0 else -1, s\<lparr>mem := m\<rparr>)"
      using copyout_step [OF A len(1) um, folded k_def, folded s1_def] m(1) ur by (simp add: s1_def)
    moreover have "uaccess (s\<lparr>mem := m\<rparr>) a" "\<forall>i. leafn m a i = leafn (mem s) a i"
      using m(2,3) lf by (simp_all add: s1_def)
    ultimately show ?thesis by blast
  qed
qed

lemma uaccess_ext:
  assumes "mem t = mem s" "freelist t = freelist s" "kend t = kend s" "KmemLock \<in> held t \<longleftrightarrow> KmemLock \<in> held s"
  shows "uaccess t a = uaccess s a"
proof -
  have "kmem_ok t = kmem_ok s" using assms by (intro ext) (simp add: kmem_ok_def)
  then have "kmem_inv t = kmem_inv s" "free_pages t = free_pages s" "kpages t = kpages s"
    using assms by (simp_all add: kmem_inv_def free_pages_def kpages_def)
  then show ?thesis using assms(1) by (simp add: uaccess_def vm_inv_def)
qed

section \<open>A single byte\<close>

lemma chunk_1: "chunk va 1 = 1"
proof -
  have "unat va mod 4096 < 4096" by simp
  then have "unat (chunk va 1) = 1" by (simp add: unat_chunk)
  then show ?thesis by (simp add: word_unat_eq_iff)
qed

lemma in_range_1: "in_range x d (Suc 0) \<longleftrightarrow> x = d"
proof -
  have "unat (x - d) = 0 \<longleftrightarrow> x - d = 0" by (metis unsigned_0 word_unat_eq_iff)
  then show ?thesis by (simp add: in_range_def)
qed

lemma blit_1: "blit m d m u (Suc 0) = m(d := m u)"
  by (auto simp: blit_def in_range_1 fun_eq_iff)

lemma copyin_1:
  assumes "uaccess s a" and "kdata s d 1"
  shows "copyin a d va 1 s = Ok (if umap (mem s) a (vpage va)
    then (0, s\<lparr>mem := (mem s)(d := mem s (uaddr (mem s) a va))\<rparr>) else (-1, s))"
proof (cases "umap (mem s) a (vpage va)")
  case True
  with copyin_step [of s a d 1 va] assms have "copyin a d va 1 s = copyin a (d + 1) (va + 1) 0
      (s\<lparr>mem := (mem s)(d := mem s (uaddr (mem s) a va))\<rparr>)" by (simp add: chunk_1 blit_1)
  with True show ?thesis by (simp add: copyin.simps [of _ _ _ 0])
next
  case False
  moreover have "vm_inv s a" using assms(1) by (simp add: uaccess_def)
  ultimately show ?thesis by (subst copyin.simps) (simp add: walkaddr_leaf Let_def)
qed

lemma copyout_1:
  assumes "uaccess s a" and "kdata s src 1"
  shows "copyout a va src 1 s = Ok (if umap (mem s) a (vpage va)
    then (0, s\<lparr>mem := (mem s)(uaddr (mem s) a va := mem s src)\<rparr>) else (-1, s))"
proof (cases "umap (mem s) a (vpage va)")
  case True
  with copyout_step [of s a src 1 va] assms have "copyout a va src 1 s = copyout a (va + 1) (src + 1) 0
      (s\<lparr>mem := (mem s)(uaddr (mem s) a va := mem s src)\<rparr>)" by (simp add: chunk_1 blit_1)
  with True show ?thesis by (simp add: copyout.simps [of _ _ _ 0])
next
  case False
  moreover have "vm_inv s a" using assms(1) by (simp add: uaccess_def)
  ultimately show ?thesis by (subst copyout.simps) (simp add: walkaddr_leaf Let_def)
qed

lemma user_byte_in_frame:
  assumes "uaccess s a" and "umap (mem s) a (vpage va)"
  shows "in_range (uaddr (mem s) a va) (frame (mem s) a (vpage va)) 4096"
proof -
  have "unat va mod 4096 < 4096" by simp
  then show ?thesis by (intro uaddr_range(2) [OF assms, of 1]) simp_all
qed

lemma uaccess_put_user:
  assumes "uaccess s a" and "umap (mem s) a (vpage va)"
  shows "uaccess (s\<lparr>mem := (mem s)(uaddr (mem s) a va := c)\<rparr>) a"
    "leafn ((mem s)(uaddr (mem s) a va := c)) a i = leafn (mem s) a i"
proof -
  have "((mem s)(uaddr (mem s) a va := c)) x = mem s x" if "\<not> in_range x (frame (mem s) a (vpage va)) 4096" for x
    using that user_byte_in_frame [OF assms] by auto
  note W = uaccess_user_write [OF assms this]
  show "uaccess (s\<lparr>mem := (mem s)(uaddr (mem s) a va := c)\<rparr>) a" by (rule W(1))
  show "leafn ((mem s)(uaddr (mem s) a va := c)) a i = leafn (mem s) a i" by (rule W(2))
qed

lemma uaccess_put_kernel:
  assumes "uaccess s a" and "kdata s d 1"
  shows "uaccess (s\<lparr>mem := (mem s)(d := c)\<rparr>) a" "leafn ((mem s)(d := c)) a i = leafn (mem s) a i"
proof -
  have "((mem s)(d := c)) x = mem s x" if "\<not> in_range x d 1" for x using that by auto
  note W = uaccess_kdata [OF assms this]
  show "uaccess (s\<lparr>mem := (mem s)(d := c)\<rparr>) a" by (rule W(2))
  show "leafn ((mem s)(d := c)) a i = leafn (mem s) a i" by (rule W(3))
qed

section \<open>Round trip\<close>

text \<open>
  C8: data handed to a user program and read back is unchanged. When every page of the user's
  range is mapped for the user, \<^verbatim>\<open>copyout\<close> and then \<^verbatim>\<open>copyin\<close> of the same range return 0 and deliver the
  bytes that were at the source, across any number of page boundaries; otherwise both return \<open>-1\<close>.
  No translation changes, and no byte outside the user's range and the kernel's destination is
  written.
\<close>

theorem copyout_copyin:
  fixes s :: "'a kmem_scheme"
  assumes "uaccess s a" and "kdata s src (unat len)" and "kdata s dst (unat len)"
  shows "\<exists>t u. let r = (if urange (mem s) a va (unat len) then 0 else -1) in
      copyout a va src len s = Ok (r, s\<lparr>mem := t\<rparr>) \<and> copyin a dst va len (s\<lparr>mem := t\<rparr>) = Ok (r, s\<lparr>mem := u\<rparr>)
    \<and> (\<forall>i. leafn u a i = leafn (mem s) a i)
    \<and> (\<forall>x. \<not> utouch (mem s) a va (unat len) x \<longrightarrow> \<not> in_range x dst (unat len) \<longrightarrow> u x = mem s x)
    \<and> (r = 0 \<longrightarrow> (\<forall>j < unat len. u (dst + of_nat j) = mem s (src + of_nat j)))"
proof -
  obtain t where t: "copyout a va src len s = Ok (if urange (mem s) a va (unat len) then 0 else -1, s\<lparr>mem := t\<rparr>)"
    "uaccess (s\<lparr>mem := t\<rparr>) a" "\<And>i. leafn t a i = leafn (mem s) a i"
    "\<And>x. \<not> utouch (mem s) a va (unat len) x \<Longrightarrow> t x = mem s x"
    "urange (mem s) a va (unat len) \<Longrightarrow> \<forall>j < unat len. t (uaddr (mem s) a (va + of_nat j)) = mem s (src + of_nat j)"
    using copyout_spec [OF assms(1,2), of va] by blast
  have same: "urange t a va n = urange (mem s) a va n" "uaddr t a v = uaddr (mem s) a v" for n v
    using uaddr_same [of t a "mem s"] t(3) by auto
  have kd: "kdata (s\<lparr>mem := t\<rparr>) dst (unat len)" using assms(3) by simp
  obtain u where u: "copyin a dst va len (s\<lparr>mem := t\<rparr>) = Ok (if urange (mem s) a va (unat len) then 0 else -1, s\<lparr>mem := u\<rparr>)"
    "\<And>x. \<not> in_range x dst (unat len) \<Longrightarrow> u x = t x"
    "urange (mem s) a va (unat len) \<Longrightarrow> \<forall>j < unat len. u (dst + of_nat j) = t (uaddr (mem s) a (va + of_nat j))"
    using copyin_spec [OF t(2) kd, of va] by (auto simp: same)
  have "leafn u a i = leafn (mem s) a i" for i
    using uaccess_kdata(3) [OF t(2) kd, of u i] u(2) t(3) by simp
  with t u show ?thesis by (intro exI [of _ t] exI [of _ u]) (simp add: Let_def)
qed

text \<open>
  A space with one page, as an example: the root, one table on each level below it, and the
  page \<open>f\<close>, readable and writable by the user.
\<close>

definition one_page :: "bytes \<Rightarrow> uint64 \<Rightarrow> uint64 \<Rightarrow> uint64 \<Rightarrow> uint64 \<Rightarrow> bytes" where
  "one_page m a b c f = store64 (store64 (store64 m (pte_at a 0) (PA2PTE b OR PTE_V))
     (pte_at b 0) (PA2PTE c OR PTE_V)) (pte_at c 0) (PA2PTE f OR 0x17)"

lemma user_pte: "page_aligned f \<Longrightarrow> PTE2PA (PA2PTE f OR 0x17) = f"
  "(PA2PTE f OR 0x17) AND PTE_V \<noteq> 0" "(PA2PTE f OR 0x17) AND PTE_U \<noteq> 0"
proof -
  show "page_aligned f \<Longrightarrow> PTE2PA (PA2PTE f OR 0x17) = f" by (rule PTE2PA_PA2PTE) simp_all
  have "bit ((PA2PTE f OR 0x17) AND PTE_V) 0" "bit ((PA2PTE f OR 0x17) AND PTE_U) 4"
    by (simp_all add: bit_simps)
  then show "(PA2PTE f OR 0x17) AND PTE_V \<noteq> 0" "(PA2PTE f OR 0x17) AND PTE_U \<noteq> 0" by auto
qed

lemma one_page_tables:
  assumes k: "kmem_inv s" and pg: "{a, b, c} \<subseteq> kpages s - free_pages s" and d: "a \<noteq> b" "a \<noteq> c" "b \<noteq> c"
    and z: "zero_page (mem s) a" "zero_page (mem s) b" "zero_page (mem s) c"
  defines "m \<equiv> store64 (store64 (mem s) (pte_at a 0) (PA2PTE b OR PTE_V)) (pte_at b 0) (PA2PTE c OR PTE_V)"
  shows "vm_inv (s\<lparr>mem := m\<rparr>) a" "tables m a = {a, b, c}" "leafn m a n = 0" "tbl m a [0, 0] = Some c"
    "free_pages (s\<lparr>mem := m\<rparr>) = free_pages s"
proof -
  let ?m = "mem s" let ?m1 = "store64 (mem s) (pte_at a 0) (PA2PTE b OR PTE_V)"
  have al: "page_aligned a" "page_aligned b" "page_aligned c" using pg kpages_aligned [of _ s] by auto
  have E: "uspace s a 0" "tables ?m a = {a}" "leafn ?m a n = 0" for n
    using uspace_empty [OF k _ z(1)] pg by auto
  have ok: "tree_ok ?m a" using E(1) by (simp add: uspace_def vm_inv_def)
  have zb: "unat i < 512 \<Longrightarrow> load64 ?m (pte_at b i) = 0" "unat i < 512 \<Longrightarrow> load64 ?m (pte_at c i) = 0" for i
    using z(2,3) by (simp_all add: zero_page_entry)
  have za: "load64 ?m (pte_at a 0) = 0" using z(1) by (simp add: zero_page_entry)
  have nb: "b \<notin> tables ?m a" using E(2) d by auto
  have ta: "tbl ?m a [] = Some a" "length ([] :: uint64 list) \<le> 1" "unat (0 :: uint64) < 512"
    "load64 ?m (pte_at a 0) AND PTE_V = 0" by (simp_all add: za)
  note G = tree_grow [OF ok ta al(2) nb zb(1)]
  have t1: "tbl ?m1 a [0] = Some b" using tbl_grow [OF ok ta al(2) nb zb(1), of "[0]"] by simp
  have s1: "same_page ?m ?m1 b" "same_page ?m ?m1 c" using al d by (auto intro!: same_page_store)
  have z1: "load64 ?m1 (pte_at b 0) AND PTE_V = 0" "unat i < 512 \<Longrightarrow> load64 ?m1 (pte_at c i) = 0" for i
    using same_page_entry [OF s1(1), of 0] same_page_entry [OF s1(2), of i] zb by simp_all
  have nc: "c \<notin> tables ?m1 a" using G(1) E(2) d by auto
  have tb: "length [0 :: uint64] \<le> 1" "unat (0 :: uint64) < 512" by simp_all
  note H = tree_grow [OF G(2) t1 tb z1(1) al(3) nc z1(2), folded m_def]
  show tbs: "tables m a = {a, b, c}" using H(1) G(1) E(2) by auto
  show "leafn m a n = 0" using H(3) G(3) E(3) by simp
  show "tbl m a [0, 0] = Some c"
    using tbl_grow [OF G(2) t1 tb z1(1) al(3) nc z1(2), of "[0, 0]"] by (simp add: m_def)
  have fr: "same_page ?m m p" if "p \<in> free_pages s" for p
  proof -
    have p: "page_aligned p" "p \<noteq> a" "p \<noteq> b"
      using that km.avail_pages [OF k] kpages_aligned [of p s] pg by auto
    show ?thesis unfolding m_def
      by (rule same_page_trans [of _ ?m1]) (use p al in \<open>auto intro!: same_page_store\<close>)
  qed
  note K = kmem_frame [OF k fr]
  show "free_pages (s\<lparr>mem := m\<rparr>) = free_pages s" by (rule K(2))
  show "vm_inv (s\<lparr>mem := m\<rparr>) a"
    using K H(2) tbs pg by (simp add: vm_inv_def)
qed

lemma one_page_space:
  assumes k: "kmem_inv s" and pg: "{a, b, c, f} \<subseteq> kpages s - free_pages s" and d: "distinct [a, b, c, f]"
    and z: "zero_page (mem s) a" "zero_page (mem s) b" "zero_page (mem s) c"
  defines "m \<equiv> one_page (mem s) a b c f"
  shows "uaccess (s\<lparr>mem := m\<rparr>) a" "umap m a i \<longleftrightarrow> i = 0" "frame m a 0 = f" "free_pages (s\<lparr>mem := m\<rparr>) = free_pages s"
    "tables m a = {a, b, c}" "uspace (s\<lparr>mem := m\<rparr>) a 1"
proof -
  let ?m = "store64 (store64 (mem s) (pte_at a 0) (PA2PTE b OR PTE_V)) (pte_at b 0) (PA2PTE c OR PTE_V)"
  have pg': "{a, b, c} \<subseteq> kpages s - free_pages s" and d': "a \<noteq> b" "a \<noteq> c" "b \<noteq> c" using pg d by auto
  note T = one_page_tables [OF k pg' d' z]
  have p0: "path2 0 = 0" "path1 0 = 0" "path0 0 = 0" by (simp_all add: path2_def path1_def path0_def)
  have tc: "tbl (mem (s\<lparr>mem := ?m\<rparr>)) a [path2 0, path1 0] = Some c" unfolding p0 using T(4) by simp
  have v0: "0 < vpages" by simp
  note L = vm_store_leaf [OF T(1) tc v0, where v = "PA2PTE f OR 0x17"]
  have m: "m = store64 ?m (pte_at c (path0 0)) (PA2PTE f OR 0x17)" by (simp add: m_def one_page_def p0)
  have leaf: "leafn m a i = (if i = 0 then PA2PTE f OR 0x17 else 0)" if "i < vpages" for i
    using L(2) that T(3) by (simp add: m)
  have f: "page_aligned f" "f \<in> kpages s" "f \<notin> free_pages s" using pg kpages_aligned [of f s] by auto
  show um: "umap m a i \<longleftrightarrow> i = 0" for i
    using leaf [of i] user_pte(2,3) [of f] by (cases "i = 0") (auto simp: umap_def)
  show fr: "frame m a 0 = f" using leaf [of 0] user_pte(1) [OF f(1)] by (simp add: frame_def)
  show free: "free_pages (s\<lparr>mem := m\<rparr>) = free_pages s" using L(4) T(5) by (simp add: m)
  show tb: "tables m a = {a, b, c}" using L(3) T(2) by (simp add: m)
  have inv: "vm_inv (s\<lparr>mem := m\<rparr>) a" using L(1) by (simp add: vm_step_def m)
  then show "uaccess (s\<lparr>mem := m\<rparr>) a"
    using um fr free tb f d by (auto simp: uaccess_def)
  have "PTE_FLAGS (PA2PTE f OR 0x17) = 0x17" by (rule PTE_FLAGS_PA2PTE) simp
  then show "uspace (s\<lparr>mem := m\<rparr>) a 1"
    using inv leaf user_pte(2) [of f] fr free tb f d by (auto simp: uspace_def inj_on_def)
qed

definition udemo :: "'a kmem_scheme \<Rightarrow> 'a kmem_scheme" where
  "udemo s = s\<lparr>mem := one_page (mem s) 0x80108000 0x80109000 0x8010a000 0x8010b000\<rparr>"

lemma demo_zero: "zero_page (mem demo) 0x80108000" "zero_page (mem demo) 0x80109000" "zero_page (mem demo) 0x8010a000"
  unfolding demo_def kmem.select_convs by (intro zero_page_store; simp add: zero_page_def)+

lemma udemo_space:
  assumes "mem s = mem demo" "freelist s = freelist demo" "kend s = kend demo" "KmemLock \<notin> held s"
  shows "uaccess (udemo s) 0x80108000" "umap (mem (udemo s)) 0x80108000 i \<longleftrightarrow> i = 0"
    "frame (mem (udemo s)) 0x80108000 0 = 0x8010b000" "free_pages (udemo s) = set demo_pages"
    "tables (mem (udemo s)) 0x80108000 = {0x80108000, 0x80109000, 0x8010a000}"
proof -
  have "kmem_ok s demo_pages" using demo_ok assms by (simp add: kmem_ok_def demo_def)
  then have k: "kmem_inv s" "free_pages s = set demo_pages" by (auto simp: kmem_inv_def free_pages_ok)
  have pg: "{0x80108000, 0x80109000, 0x8010a000, 0x8010b000} \<subseteq> kpages s - free_pages s"
    using assms(3) by (simp add: k(2) demo_pages_def demo_def kpages_def kpage_def page_aligned_def)
  note O = one_page_space [OF k(1) pg, unfolded assms(1), OF _ demo_zero, folded assms(1)]
  show "uaccess (udemo s) 0x80108000" "umap (mem (udemo s)) 0x80108000 i \<longleftrightarrow> i = 0"
    "frame (mem (udemo s)) 0x80108000 0 = 0x8010b000" "free_pages (udemo s) = set demo_pages"
    "tables (mem (udemo s)) 0x80108000 = {0x80108000, 0x80109000, 0x8010a000}"
    using O k(2) by (simp_all add: udemo_def)
qed

lemma udemo_uspace:
  assumes "mem s = mem demo" "freelist s = freelist demo" "kend s = kend demo" "KmemLock \<notin> held s"
  shows "uspace (udemo s) 0x80108000 1"
proof -
  have "kmem_ok s demo_pages" using demo_ok assms by (simp add: kmem_ok_def demo_def)
  then have k: "kmem_inv s" "free_pages s = set demo_pages" by (auto simp: kmem_inv_def free_pages_ok)
  have pg: "{0x80108000, 0x80109000, 0x8010a000, 0x8010b000} \<subseteq> kpages s - free_pages s"
    using assms(3) by (simp add: k(2) demo_pages_def demo_def kpages_def kpage_def page_aligned_def)
  from one_page_space(6) [OF k(1) pg, unfolded assms(1), OF _ demo_zero, folded assms(1)] show ?thesis
    by (simp add: udemo_def)
qed

lemma kdata_low:
  assumes "unat d + n \<le> unat (kend s)" and "kend s \<le> PHYSTOP"
  shows "kdata s d n"
proof -
  have b: "unat (kend s) \<le> 0x88000000" using assms(2) by (simp add: word_le_nat_alt)
  have "\<not> in_range x p 4096" if x: "in_range x d n" and p: "p \<in> kpages s" for x p
  proof
    assume i: "in_range x p 4096"
    have q: "unat (kend s) \<le> unat p" "unat p < 0x88000000" using p by (auto simp: kpages_def kpage_def word_le_nat_alt word_less_nat_alt)
    have "unat x < unat d + n" using x in_range_no_wrap [of d n x] assms(1) b by simp
    moreover have "unat p \<le> unat x" using i in_range_no_wrap [of p 4096 x] q(2) by simp
    ultimately show False using q(1) assms(1) by linarith
  qed
  with assms(1) b show ?thesis by (simp add: kdata_def)
qed

theorem copyout_copyin_witness:
  "\<exists>t u. copyout 0x80108000 0x10 0x80050000 8 (udemo demo) = Ok (0, udemo demo\<lparr>mem := t\<rparr>)
    \<and> copyin 0x80108000 0x80060000 0x10 8 (udemo demo\<lparr>mem := t\<rparr>) = Ok (0, udemo demo\<lparr>mem := u\<rparr>)
    \<and> u 0x80060003 = mem (udemo demo) 0x80050003"
proof -
  have h: "KmemLock \<notin> held demo" by (simp add: demo_def)
  note D = udemo_space [of demo, OF refl refl refl h]
  have "umap (mem (udemo demo)) 0x80108000 (vpage (0x10 + of_nat j))" if "j < 8" for j
  proof -
    have "unat (0x10 + of_nat j :: uint64) = 16 + j"
      using that by (subst unat_add_small) (simp_all add: unat_of_nat)
    then show ?thesis using that D(2) by (simp add: vpage_def)
  qed
  then have r: "urange (mem (udemo demo)) 0x80108000 0x10 (unat (8 :: uint64))" by (simp add: urange_def)
  have kd: "kdata (udemo demo) 0x80050000 (unat (8 :: uint64))" "kdata (udemo demo) 0x80060000 (unat (8 :: uint64))"
    by (intro kdata_low; simp add: udemo_def demo_def)+
  from copyout_copyin [OF D(1) kd, of "0x10"] r obtain t u where
    "copyout 0x80108000 0x10 0x80050000 8 (udemo demo) = Ok (0, udemo demo\<lparr>mem := t\<rparr>)"
    "copyin 0x80108000 0x80060000 0x10 8 (udemo demo\<lparr>mem := t\<rparr>) = Ok (0, udemo demo\<lparr>mem := u\<rparr>)"
    "\<forall>j < unat (8 :: uint64). u (0x80060000 + of_nat j) = mem (udemo demo) (0x80050000 + of_nat j)"
    by (auto simp: Let_def)
  moreover from spec [OF this(3), of 3] have "u 0x80060003 = mem (udemo demo) 0x80050003" by simp
  ultimately show ?thesis by blast
qed

end
