(* ===== verification/Demo.thy ===== *)
theory Demo
  imports Trap Ucopy
begin

text \<open>
  Concrete states on which the theorems are instantiated: a machine with zeroed memory and empty
  tables, the same machine with the small free list of \<open>demo\<close>, and one whose processes 0 and 1
  share an address space of one page.
\<close>

definition proc0 :: proc where
  "proc0 = \<lparr>p_creationTime = 0, p_state = UNUSED, p_chan = ChNone, p_killed = 0, p_xstate = 0, p_pid = 0,
     p_parent = None, p_kstack = 0, p_sz = 0, p_pagetable = 0, p_trapframe = 0,
     p_context = \<lparr>ctx_ra = 0, ctx_sp = 0, ctx_s = (\<lambda>_. 0)\<rparr>, p_ofile = (\<lambda>_. None), p_cwd = None, p_name = [],
     p_mask = 0, p_stat_pr = 60, p_sleep_time = 0, p_st_time = 0, p_run_time = 0, p_numOfScheduled = 0,
     p_tickets = 1, p_num_of_ticks = (\<lambda>_. 0), p_curr_queue = 0, p_wait_time = 3, p_end_time = 0,
     p_tot_run_time = 0, p_handler = 0, p_tickss = 0, p_now_ticks = 0, p_trapframe_copy = 0, p_is_sigalarm = 0\<rparr>"

definition buf0 :: buf where
  "buf0 = \<lparr>b_valid = False, b_disk = False, b_dev = 0, b_blockno = 0, b_refcnt = 0, b_prev = 0, b_next = 0,
     b_data = 0\<rparr>"

definition inode0 :: inode where
  "inode0 = \<lparr>i_dev = 0, i_inum = 0, i_ref = 0, i_valid = False, i_type = 0, i_major = 0, i_minor = 0,
     i_nlink = 0, i_size = 0, i_addrs = (\<lambda>_. 0)\<rparr>"

definition file0 :: kfile where
  "file0 = \<lparr>f_type = FD_NONE, f_ref = 0, f_readable = False, f_writable = False, f_pipe = 0, f_ip = 0,
     f_off = 0, f_major = 0\<rparr>"

definition pipe0 :: pipe where
  "pipe0 = \<lparr>pi_data = (\<lambda>_. 0), pi_nread = 0, pi_nwrite = 0, pi_readopen = True, pi_writeopen = True\<rparr>"

definition desc0 :: virtq_desc where
  "desc0 = \<lparr>vq_addr = 0, vq_len = 0, vq_flags = 0, vq_next = 0\<rparr>"

definition idle :: tstate where
  "idle = \<lparr>held = {}, mem = (\<lambda>_. 0), freelist = 0, kend = 0x80100000,
     procs = (\<lambda>_. proc0), initproc = None, nextpid = 1, curproc = None, ticks = 0, seed = 37,
     queue = (\<lambda>_ _. None), queue_ptr = (\<lambda>_. -1), trampoline = 0x80007000, forkret_pc = 0, ktmp = 0x80050000,
     slks = (\<lambda>_. \<lparr>sl_locked = 0, sl_pid = 0\<rparr>),
     bufs = (\<lambda>i. buf0\<lparr>b_data := 0x80020000 + 1024 * of_nat i\<rparr>), vd_pages = (0, 0, 0), vd_desc = (\<lambda>_. desc0),
     vd_avail = (\<lambda>_. 0), vd_avail_idx = 0, vd_used = (\<lambda>_. 0), vd_used_hw = 0, vd_free = (\<lambda>_. True),
     vd_used_idx = 0, vd_info_b = (\<lambda>_. None), vd_status = (\<lambda>_. 0),
     vd_ops = (\<lambda>_. \<lparr>vr_out = False, vr_sector = 0\<rparr>), vd_ops_addr = (\<lambda>i. 0x80060000 + 16 * of_nat i),
     vd_status_addr = (\<lambda>i. 0x80061000 + 16 * of_nat i), mmio_log = [], platter = (\<lambda>_ _. 0), disk_log = [],
     log_start = 2, log_size = 30, log_outstanding = 0, log_committing = False, log_dev = 1, lh_n = 0,
     lh_block = (\<lambda>_. 0),
     fs_sb = \<lparr>sb_magic = 0x10203040, sb_size = 2000, sb_nblocks = 1954, sb_ninodes = 200, sb_nlog = 30,
       sb_logstart = 2, sb_inodestart = 32, sb_bmapstart = 45\<rparr>, inodes = (\<lambda>_. inode0),
     uart_tx_buf = (\<lambda>_. 0), uart_tx_w = 0, uart_tx_r = 0, uart_idle = replicate 64 True, uart_in = [],
     uart_out = [], uart_regs = [], panicked = False, pr_locking = False, cons_buf = (\<lambda>_. 0), cons_r = 0,
     cons_w = 0, cons_e = 0, devsw = (\<lambda>_. False), pipes = (\<lambda>_. pipe0), files = (\<lambda>_. file0),
     str_dot = 0, str_dotdot = 0,
     csr_sstatus = 0, csr_scause = 0, csr_sepc = 0, csr_stval = 0, csr_stvec = 0, csr_satp = 0, csr_tp = 0,
     csr_sip = 0, plic_regs = (\<lambda>_. 0), plic_irq = 0, plic_done = [], disk_regs = (\<lambda>_. 0), kernelvec_pc = 0,
     usertrap_pc = 0, uservec_off = 0, userret_off = 0, sched_policy = RR, kernel_pagetable = 0,
     started = False, first = True\<rparr>"

text \<open>A machine with free pages, whose process 0 is running.\<close>

definition busy :: tstate where
  "busy = idle\<lparr>mem := mem demo, freelist := freelist demo, procs := (\<lambda>_. proc0)(0 := proc0\<lparr>p_state := RUNNING, p_pid := 1\<rparr>),
     curproc := Some 0\<rparr>"

lemma busy_inv: "kmem_inv busy" "free_pages busy = set demo_pages"
proof -
  have "kmem_ok busy demo_pages"
    using demo_ok by (simp add: kmem_ok_def busy_def idle_def demo_def)
  then show "kmem_inv busy" "free_pages busy = set demo_pages"
    by (auto simp: kmem_inv_def free_pages_ok)
qed

definition umach :: tstate where
  "umach = udemo (busy\<lparr>procs := (\<lambda>_. proc0)
     (0 := proc0\<lparr>p_state := RUNNING, p_pid := 1, p_pagetable := 0x80108000, p_sz := 4096\<rparr>,
      1 := proc0\<lparr>p_state := RUNNABLE, p_pid := 2, p_pagetable := 0x80108000, p_sz := 4096\<rparr>)\<rparr>)"

lemma umach_simps [simp]:
  "held umach = {}" "curproc umach = Some 0" "kend umach = 0x80100000" "ktmp umach = 0x80050000"
  "pipes umach = (\<lambda>_. pipe0)" "files umach = (\<lambda>_. file0)"
  "procs umach = (\<lambda>_. proc0)
     (0 := proc0\<lparr>p_state := RUNNING, p_pid := 1, p_pagetable := 0x80108000, p_sz := 4096\<rparr>,
      1 := proc0\<lparr>p_state := RUNNABLE, p_pid := 2, p_pagetable := 0x80108000, p_sz := 4096\<rparr>)"
  by (simp_all add: umach_def udemo_def busy_def idle_def)

lemma umach_space:
  "uaccess umach 0x80108000" "umap (mem umach) 0x80108000 i \<longleftrightarrow> i = 0" "frame (mem umach) 0x80108000 0 = 0x8010b000"
  "free_pages umach = set demo_pages" "tables (mem umach) 0x80108000 = {0x80108000, 0x80109000, 0x8010a000}"
  unfolding umach_def by (rule udemo_space; simp add: busy_def idle_def demo_def)+

lemma umach_range:
  assumes "unat va + n \<le> 4096"
  shows "urange (mem umach) 0x80108000 va n"
  unfolding urange_def umach_space(2)
proof (intro allI impI)
  fix j assume "j < n"
  then have "unat (va + of_nat j) = unat va + j"
    using assms by (subst unat_add_small) (simp_all add: unat_of_nat)
  with \<open>j < n\<close> assms show "vpage (va + of_nat j) = 0" by (simp add: vpage_def)
qed

end
