(* ===== verification/Proclife.thy ===== *)
theory Proclife
  imports Demo
begin

text \<open>
  Properties of the process table that involve several components: the clock tick, the page
  table of a process, and what \<^verbatim>\<open>freeproc\<close> gives back.
\<close>

section \<open>The clock tick\<close>

text \<open>What a tick does to one process: charge it, then wake it if it sleeps on the ticks.\<close>

definition tick_proc :: "nat option \<Rightarrow> nat \<Rightarrow> proc \<Rightarrow> proc" where
  "tick_proc cur i q = (let q' = charge q
     in if cur \<noteq> Some i \<and> p_state q' = SLEEPING \<and> p_chan q' = ChTicks then q'\<lparr>p_state := RUNNABLE\<rparr> else q')"

lemma clockintr_eq:
  fixes s :: "'a tstate_scheme"
  assumes "\<forall>i < NPROC. ProcLock i \<notin> held s" and "TicksLock \<notin> held s"
  shows "clockintr s = Ok (s\<lparr>ticks := ticks s + 1,
    procs := (\<lambda>i. if i < NPROC then tick_proc (curproc s) i (procs s i) else procs s i)\<rparr>)"
proof -
  let ?s1 = "s\<lparr>held := insert TicksLock (held s), ticks := ticks s + 1\<rparr>"
  let ?s2 = "?s1\<lparr>procs := (\<lambda>i. if i < NPROC then charge (procs s i) else procs s i)\<rparr>"
  have "updateTime ?s1 = Ok ?s2" using assms by (subst updateTime_eq) (simp_all cong: if_cong)
  moreover have "wakeup ChTicks ?s2 = Ok (?s2\<lparr>procs := (\<lambda>i. if i < NPROC \<and> wakes ChTicks ?s2 i
    then (procs ?s2 i)\<lparr>p_state := RUNNABLE\<rparr> else procs ?s2 i)\<rparr>)"
    using assms by (intro wakeup_eq) (simp add: no_proc_lock_def)
  ultimately show ?thesis
    using assms(2) by (auto simp: clockintr_def run_simps tick_proc_def wakes_def Let_def fun_eq_iff cong: if_cong)
qed

text \<open>
  C28: a clock tick advances \<^verbatim>\<open>ticks\<close> by one, charges the running processes one tick of run time and
  the sleeping ones one tick of sleep time, wakes exactly the processes that sleep on \<^verbatim>\<open>ticks\<close>,
  and changes nothing else; all locks it took are released.
\<close>

theorem clock_tick:
  fixes s :: "'a tstate_scheme"
  assumes "\<forall>i < NPROC. ProcLock i \<notin> held s" and "TicksLock \<notin> held s"
  shows "clockintr s = Ok (s\<lparr>ticks := ticks s + 1,
    procs := (\<lambda>i. if i < NPROC then tick_proc (curproc s) i (procs s i) else procs s i)\<rparr>)"
  by (rule clockintr_eq [OF assms])

theorem clock_tick_witness:
  "\<exists>t. clockintr (idle\<lparr>procs := (\<lambda>_. proc0)(3 := proc0\<lparr>p_state := SLEEPING, p_chan := ChTicks\<rparr>)\<rparr>) = Ok t
     \<and> ticks t = 1 \<and> p_state (procs t 3) = RUNNABLE \<and> p_sleep_time (procs t 3) = 1"
  by (subst clock_tick) (simp_all add: idle_def proc0_def tick_proc_def charge_def)

section \<open>Page tables of processes\<close>

text \<open>
  C17: \<^verbatim>\<open>proc_pagetable\<close> either fails without losing a page, or returns a page table that maps just
  the trampoline and the trap frame, and \<^verbatim>\<open>proc_freepagetable\<close> then gives every page back.
\<close>

theorem proc_pagetable_roundtrip:
  fixes s :: "'a pstate_scheme"
  assumes "kmem_inv s" and "page_aligned (p_trapframe (procs s p))" and "page_aligned (trampoline s)"
  shows "\<exists>a t. proc_pagetable p s = Ok (a, t) \<and> same_rest s t \<and>
    (a = 0 \<and> free_pages t = free_pages s
     \<or> a \<noteq> 0 \<and> PTE2PA (leafn (mem t) a utop) = p_trapframe (procs s p)
       \<and> PTE2PA (leafn (mem t) a (Suc utop)) = trampoline s
       \<and> (\<exists>u. proc_freepagetable a 0 t = Ok u \<and> same_rest s u \<and> free_pages u = free_pages s))"
proof -
  have z: "npg 0 = 0" by (simp add: npg_def)
  obtain a t where t: "proc_pagetable p s = Ok (a, t)" "same_rest s t"
    "a = 0 \<and> free_pages t = free_pages s \<or> a \<noteq> 0 \<and> pspace t a 0 \<and> tables (mem t) a \<union> free_pages t = free_pages s
       \<and> PTE2PA (leafn (mem t) a utop) = p_trapframe (procs s p)
       \<and> PTE2PA (leafn (mem t) a (Suc utop)) = trampoline s"
    using proc_pagetable_pages [OF assms] by blast
  show ?thesis
  proof (cases "a = 0")
    case True
    with t show ?thesis by blast
  next
    case False
    with t(3) have ps: "pspace t a (npg 0)" and o: "tables (mem t) a \<union> free_pages t = free_pages s"
      by (simp_all add: z)
    obtain u where u: "proc_freepagetable a 0 t = Ok u" "same_rest t u" "free_pages u = free_pages t \<union> owned t a (npg 0)"
      using proc_freepagetable_pages [OF ps] by blast
    have "free_pages u = free_pages s" using u(3) o by (auto simp: z owned_def)
    moreover have "same_rest s u" using t(2) u(2) by (rule same_rest_trans)
    ultimately show ?thesis using t False u(1) by blast
  qed
qed

theorem proc_pagetable_roundtrip_witness:
  "\<exists>a t. proc_pagetable 0 (busy\<lparr>procs := (\<lambda>_. proc0\<lparr>p_trapframe := 0x80109000\<rparr>)\<rparr>) = Ok (a, t) \<and>
    (a = 0 \<longrightarrow> free_pages t = set demo_pages)"
proof -
  let ?s = "busy\<lparr>procs := (\<lambda>_. proc0\<lparr>p_trapframe := 0x80109000\<rparr>)\<rparr>"
  have "kmem_inv ?s" "free_pages ?s = set demo_pages"
    using busy_inv by (simp_all add: kmem_inv_def kmem_ok_def free_pages_def)
  with proc_pagetable_roundtrip [of ?s 0] show ?thesis
    by (auto simp: busy_def idle_def page_aligned_def)
qed

section \<open>Freeing a process\<close>

text \<open>Freeing a page that is not part of an address space leaves the space alone.\<close>

lemma uspace_free_other:
  assumes us: "uspace s a n" and q: "q \<in> kpages s - free_pages s - owned s a n"
  obtains t where "kfree q s = Ok t" "uspace t a n" "same_rest s t" "owned t a n = owned s a n"
    "free_pages t = insert q (free_pages s)" "\<And>i. leafn (mem t) a i = leafn (mem s) a i"
proof -
  have inv: "vm_inv s a" and qt: "q \<in> kpages s - free_pages s - tables (mem s) a"
    using us q by (auto simp: uspace_def owned_def)
  obtain t where t: "kfree q s = Ok t" "vm_unmap a {q} s t" "\<And>n. leafn (mem t) a n = leafn (mem s) a n"
    using vm_free_frame [OF inv qt] by metis
  have V: "vm_inv t a" "same_rest s t" "tables (mem t) a = tables (mem s) a"
    "free_pages t = free_pages s \<union> {q}"
    using t(2) by (simp_all add: vm_unmap_def)
  have fr: "frame (mem t) a = frame (mem s) a" by (simp add: frame_def fun_eq_iff t(3))
  have kp: "kpages t = kpages s" using V(2) by (simp add: kpages_def same_rest_def)
  have "uspace t a n"
    using us q V(1) unfolding uspace_def V(3,4) kp fr t(3) owned_def by blast
  moreover have "owned t a n = owned s a n" by (simp add: owned_def V(3) fr)
  ultimately show ?thesis using that t(1,3) V(2,4) by simp
qed

text \<open>The pages of the page table of process \<open>p\<close>, none when it has no page table.\<close>

definition proc_owned :: "'a pstate_scheme \<Rightarrow> nat \<Rightarrow> uint64 set" where
  "proc_owned s p = (if p_pagetable (procs s p) = 0 then {}
     else owned s (p_pagetable (procs s p)) (npg (p_sz (procs s p))))"

lemma proc_pages_updp:
  fixes s :: "'a pstate_scheme"
  shows "pspace (updp p f s) a n = pspace s a n" "owned (updp p f s) a n = owned s a n"
    "free_pages (updp p f s) = free_pages s" "kmem_inv (updp p f s) = kmem_inv s"
  by (simp_all add: pspace_def uspace_def vm_inv_def kmem_inv_def kmem_ok_def free_pages_def kpages_def owned_def)

lemma freeproc_tail:
  fixes s :: "'a pstate_scheme"
  assumes "kmem_inv s"
    and "p_pagetable (procs s p) \<noteq> 0 \<longrightarrow> pspace s (p_pagetable (procs s p)) (npg (p_sz (procs s p)))"
  shows "\<exists>t. (if p_pagetable (procs s p) \<noteq> 0
       then proc_freepagetable (p_pagetable (procs s p)) (p_sz (procs s p)) s else Ok s) = Ok t
    \<and> kmem_inv t \<and> same_rest s t \<and> free_pages t = free_pages s \<union> proc_owned s p"
proof (cases "p_pagetable (procs s p) = 0")
  case True
  with assms show ?thesis by (simp add: proc_owned_def same_rest_def)
next
  case False
  with proc_freepagetable_pages assms(2) show ?thesis by (simp add: proc_owned_def) blast
qed

lemma freeproc_pages:
  fixes s :: "'a pstate_scheme"
  assumes k: "kmem_inv s"
    and pt: "p_pagetable (procs s p) \<noteq> 0 \<longrightarrow> pspace s (p_pagetable (procs s p)) (npg (p_sz (procs s p)))"
    and cp: "p_trapframe_copy (procs s p) \<in> kpages s - free_pages s - proc_owned s p"
      "p_trapframe_copy (procs s p) \<noteq> 0"
  shows "\<exists>t. freeproc p s = Ok t \<and> kmem_inv t
    \<and> free_pages t = insert (p_trapframe_copy (procs s p)) (free_pages s \<union> proc_owned s p)
    \<and> p_state (procs t p) = UNUSED \<and> p_trapframe (procs t p) = 0
    \<and> p_trapframe_copy (procs t p) = p_trapframe_copy (procs s p)"
proof -
  let ?cp = "p_trapframe_copy (procs s p)" and ?a = "p_pagetable (procs s p)" and ?n = "npg (p_sz (procs s p))"
  obtain t where t: "kfree ?cp s = Ok t" "kmem_inv t" "same_rest s t" "free_pages t = insert ?cp (free_pages s)"
    "?a \<noteq> 0 \<longrightarrow> pspace t ?a ?n" "proc_owned t p = proc_owned s p"
  proof (cases "?a = 0")
    case True
    from k obtain t where t: "kfree ?cp s = Ok t" "kmem_inv t" "free_pages t = insert ?cp (free_pages s)" "same_rest s t"
      using kfree_page [of s ?cp] cp(1) by blast
    show ?thesis
      by (rule that [OF t(1,2,4,3)]) (use True same_rest_proc(1) [OF t(4)] in \<open>simp_all add: proc_owned_def\<close>)
  next
    case False
    then have us: "uspace s ?a ?n" and q: "?cp \<in> kpages s - free_pages s - owned s ?a ?n"
      using pt cp by (auto simp: pspace_def proc_owned_def)
    obtain t where t: "kfree ?cp s = Ok t" "uspace t ?a ?n" "same_rest s t" "owned t ?a ?n = owned s ?a ?n"
      "free_pages t = insert ?cp (free_pages s)" "\<And>i. leafn (mem t) ?a i = leafn (mem s) ?a i"
      using uspace_free_other [OF us q] by metis
    show ?thesis
    proof (rule that [OF t(1) _ t(3,5)])
      show "kmem_inv t" using t(2) by (simp add: uspace_def vm_inv_def)
      show "?a \<noteq> 0 \<longrightarrow> pspace t ?a ?n" using pt t(2) by (simp add: pspace_def t(6))
      show "proc_owned t p = proc_owned s p"
        using t(4) same_rest_proc(1) [OF t(3)] by (simp add: proc_owned_def)
    qed
  qed
  have pr: "procs t = procs s" using same_rest_proc(1) [OF t(3)] .
  let ?u = "updp p (\<lambda>q. q\<lparr>p_trapframe := 0\<rparr>) t"
  have "\<exists>v. (if p_pagetable (procs ?u p) \<noteq> 0
       then proc_freepagetable (p_pagetable (procs ?u p)) (p_sz (procs ?u p)) ?u else Ok ?u) = Ok v
    \<and> kmem_inv v \<and> same_rest ?u v \<and> free_pages v = free_pages ?u \<union> proc_owned ?u p"
    by (rule freeproc_tail) (use t(2,5) pr in \<open>simp_all add: proc_pages_updp\<close>)
  then obtain v where v: "(if ?a \<noteq> 0 then proc_freepagetable ?a (p_sz (procs s p)) ?u else Ok ?u) = Ok v"
    "kmem_inv v" "same_rest ?u v" "free_pages v = free_pages ?u \<union> proc_owned ?u p"
    by (auto simp: pr cong: if_cong)
  have "proc_owned ?u p = proc_owned s p" unfolding t(6) [symmetric] by (simp add: proc_owned_def proc_pages_updp)
  moreover have "procs v = procs ?u" using same_rest_proc(1) [OF v(3)] .
  ultimately show ?thesis
    using t(1,4) v cp(2) pr by (simp add: freeproc_def proc_pages_updp Let_def cong: if_cong)
qed

text \<open>
  C29: \<^verbatim>\<open>freeproc\<close> frees the pages of the page table and the copy of the trap frame, but never the trap
  frame itself: with a trap frame page that belongs to the process alone, that page is not free
  afterwards and the slot no longer refers to it. The pointer to the freed copy stays behind.
\<close>

theorem freeproc_leaks_trapframe:
  fixes s :: "'a pstate_scheme"
  assumes "kmem_inv s"
    and "p_pagetable (procs s p) \<noteq> 0 \<longrightarrow> pspace s (p_pagetable (procs s p)) (npg (p_sz (procs s p)))"
    and "p_trapframe_copy (procs s p) \<in> kpages s - free_pages s - proc_owned s p"
    and "p_trapframe_copy (procs s p) \<noteq> 0"
    and "p_trapframe (procs s p) \<in> kpages s - free_pages s - proc_owned s p"
    and "p_trapframe (procs s p) \<noteq> p_trapframe_copy (procs s p)"
  shows "\<exists>t. freeproc p s = Ok t \<and> proc_owned s p \<subseteq> free_pages t
    \<and> p_trapframe (procs s p) \<notin> free_pages t \<and> p_trapframe (procs t p) = 0
    \<and> p_trapframe_copy (procs t p) \<in> free_pages t"
  using freeproc_pages [OF assms(1-4)] assms(5,6) by auto

theorem freeproc_leaks_trapframe_witness:
  "\<exists>t. freeproc 0 (busy\<lparr>procs := (\<lambda>_. proc0\<lparr>p_trapframe := 0x80109000, p_trapframe_copy := 0x8010a000\<rparr>)\<rparr>) = Ok t
     \<and> 0x80109000 \<notin> free_pages t"
proof -
  let ?s = "busy\<lparr>procs := (\<lambda>_. proc0\<lparr>p_trapframe := 0x80109000, p_trapframe_copy := 0x8010a000\<rparr>)\<rparr>"
  have k: "kmem_inv ?s" "free_pages ?s = set demo_pages"
    using busy_inv by (simp_all add: kmem_inv_def kmem_ok_def free_pages_def)
  have "0x80109000 \<in> kpages ?s - free_pages ?s" "0x8010a000 \<in> kpages ?s - free_pages ?s"
    unfolding k(2) by (simp_all add: demo_pages_def kpages_def kpage_def page_aligned_def busy_def idle_def)
  with freeproc_leaks_trapframe [OF k(1), of 0] show ?thesis by (simp add: proc_owned_def proc0_def) blast
qed

end
