(* ===== verification/Schedspec.thy ===== *)
theory Schedspec
  imports Demo
begin

text \<open>
  What three of the scheduling policies do: round robin gives every process its turn, first come first served
  and the priority policy choose a process that no runnable process precedes. The theory \<open>Queuespec\<close> is about the
  other two.
\<close>

declare fcfs_scan.simps [simp del] pbs_scan.simps [simp del] lbs_scan.simps [simp del]
  remove_loop.simps [simp del] mlfq_age.simps [simp del] mlfq_level.simps [simp del] mlfq_last.simps [simp del]

section \<open>Choosing a process\<close>

abbreviation runnable :: "'a pstate_scheme \<Rightarrow> nat \<Rightarrow> bool" where
  "runnable s i \<equiv> p_state (procs s i) = RUNNABLE"

definition lock_of :: "nat option \<Rightarrow> lockid set" where
  "lock_of r = (case r of None \<Rightarrow> {} | Some i \<Rightarrow> {ProcLock i})"

definition only_lock :: "nat option \<Rightarrow> 'a pstate_scheme \<Rightarrow> bool" where
  "only_lock r s \<longleftrightarrow> (\<forall>k < NPROC. ProcLock k \<in> held s \<longleftrightarrow> r = Some k)"

text \<open>
  A scan of the process table that keeps the lock of the best runnable process seen so far. Two
  of the policies are instances, with different orders.
\<close>

locale chooser =
  fixes scan :: "nat \<Rightarrow> nat option \<Rightarrow> 'a pstate_scheme \<Rightarrow> (nat option \<times> 'a pstate_scheme) result"
    and better :: "proc \<Rightarrow> proc \<Rightarrow> bool"
  assumes scan_end: "NPROC \<le> i \<Longrightarrow> scan i r s = Ok (r, s)"
    and scan_take: "i < NPROC \<Longrightarrow> ProcLock i \<notin> held s \<Longrightarrow> lock_of r \<subseteq> held s \<Longrightarrow> runnable s i \<Longrightarrow>
      (\<And>j. r = Some j \<Longrightarrow> better (procs s i) (procs s j)) \<Longrightarrow>
      scan i r s = scan (Suc i) (Some i) (s\<lparr>held := insert (ProcLock i) (held s) - lock_of r\<rparr>)"
    and scan_skip: "i < NPROC \<Longrightarrow> ProcLock i \<notin> held s \<Longrightarrow>
      \<not> runnable s i \<or> (\<exists>j. r = Some j \<and> \<not> better (procs s i) (procs s j)) \<Longrightarrow>
      scan i r s = scan (Suc i) r s"
    and better_trans: "better p q \<Longrightarrow> better q p' \<Longrightarrow> better p p'"
    and better_irrefl: "\<not> better p p"
    and better_neg: "\<not> better p q \<Longrightarrow> \<not> better q p' \<Longrightarrow> \<not> better p p'"
begin

definition best :: "'a pstate_scheme \<Rightarrow> nat \<Rightarrow> nat option \<Rightarrow> bool" where
  "best s n r \<longleftrightarrow> (case r of
     None \<Rightarrow> \<forall>k < n. \<not> runnable s k
   | Some j \<Rightarrow> j < n \<and> runnable s j \<and> (\<forall>k < n. runnable s k \<longrightarrow> \<not> better (procs s k) (procs s j))
       \<and> (\<forall>k < j. runnable s k \<longrightarrow> better (procs s j) (procs s k)))"

lemma best_held: "best (s\<lparr>held := h\<rparr>) n r = best s n r"
  by (cases r) (simp_all add: best_def)

lemma best_take:
  assumes "best s i r" "runnable s i" "\<And>j. r = Some j \<Longrightarrow> better (procs s i) (procs s j)"
  shows "best s (Suc i) (Some i)"
proof (cases r)
  case None
  with assms better_irrefl show ?thesis by (auto simp: best_def less_Suc_eq)
next
  case (Some j)
  have b: "better (procs s i) (procs s j)" using assms(3) Some by simp
  have "better (procs s i) (procs s k)" if "k < i" "runnable s k" for k
  proof -
    have "\<not> better (procs s k) (procs s j)" using that assms(1) Some by (auto simp: best_def)
    with better_neg [of "procs s i" "procs s k" "procs s j"] b show ?thesis by blast
  qed
  moreover have "\<not> better (procs s k) (procs s i)" if "k < i" "runnable s k" for k
    using calculation [OF that] better_trans better_irrefl by blast
  ultimately show ?thesis using assms(2) better_irrefl by (auto simp: best_def less_Suc_eq)
qed

lemma best_skip:
  assumes "best s i r" "\<not> runnable s i \<or> (\<exists>j. r = Some j \<and> \<not> better (procs s i) (procs s j))"
  shows "best s (Suc i) r"
  using assms by (cases r) (auto simp: best_def less_Suc_eq)

lemma scan_best:
  assumes "best s i r" and "only_lock r s" and "i \<le> NPROC"
  shows "\<exists>q t. scan i r s = Ok (q, t) \<and> best s NPROC q \<and> only_lock q t \<and>
    t = s\<lparr>held := (held s - lock_of r) \<union> lock_of q\<rparr>"
  using assms
proof (induction "NPROC - i" arbitrary: i r s)
  case 0
  then have "i = NPROC" by simp
  moreover have "held s = held s - lock_of r \<union> lock_of r"
    using 0 by (auto simp: lock_of_def only_lock_def best_def split: option.splits)
  ultimately show ?case using 0 scan_end [of i r s] by simp
next
  case (Suc d)
  then have i: "i < NPROC" and d: "d = NPROC - Suc i" and le: "Suc i \<le> NPROC" by simp_all
  have r: "\<And>j. r = Some j \<Longrightarrow> j < i" using Suc.prems(1) by (auto simp: best_def)
  have nl: "ProcLock i \<notin> held s" using Suc.prems(2) i r by (auto simp: only_lock_def)
  have sub: "lock_of r \<subseteq> held s"
    using Suc.prems(2) r i by (force simp: lock_of_def only_lock_def split: option.splits)
  show ?case
  proof (cases "runnable s i \<and> (\<forall>j. r = Some j \<longrightarrow> better (procs s i) (procs s j))")
    case True
    let ?s = "s\<lparr>held := insert (ProcLock i) (held s) - lock_of r\<rparr>"
    have step: "scan i r s = scan (Suc i) (Some i) ?s"
      by (rule scan_take [OF i nl sub]) (use True in auto)
    have b: "best s (Suc i) (Some i)" by (rule best_take [OF Suc.prems(1)]) (use True in auto)
    have "best ?s (Suc i) (Some i)" using b by (simp add: best_held)
    moreover have "only_lock (Some i) ?s"
      using Suc.prems(2) r i by (auto simp: only_lock_def lock_of_def split: option.splits)
    ultimately obtain q t where "scan (Suc i) (Some i) ?s = Ok (q, t)" "best ?s NPROC q" "only_lock q t"
      "t = ?s\<lparr>held := (held ?s - lock_of (Some i)) \<union> lock_of q\<rparr>"
      using Suc.hyps(1) [OF d _ _ le, of ?s "Some i"] by blast
    moreover have "held ?s - lock_of (Some i) = held s - lock_of r" using nl by (auto simp: lock_of_def)
    ultimately show ?thesis unfolding step by (simp add: best_held)
  next
    case False
    then have sk: "\<not> runnable s i \<or> (\<exists>j. r = Some j \<and> \<not> better (procs s i) (procs s j))" by blast
    have "scan i r s = scan (Suc i) r s" by (rule scan_skip [OF i nl sk])
    moreover have "best s (Suc i) r" by (rule best_skip [OF Suc.prems(1) sk])
    ultimately show ?thesis using Suc.hyps(1) [OF d _ Suc.prems(2) le] by simp
  qed
qed

end

section \<open>First come, first served\<close>

lemma release_opt_eq:
  "lock_of r \<subseteq> held s \<Longrightarrow> release_opt r s = Ok (s\<lparr>held := held s - lock_of r\<rparr>)"
  by (cases r) (auto simp: release_opt_def lock_of_def run_simps)

interpretation fcfs: chooser fcfs_scan "\<lambda>p q. sint (p_creationTime p) < sint (p_creationTime q)"
proof unfold_locales
  fix i r and s :: "'a pstate_scheme"
  show "NPROC \<le> i \<Longrightarrow> fcfs_scan i r s = Ok (r, s)" by (subst fcfs_scan.simps) simp
  show "fcfs_scan i r s = fcfs_scan (Suc i) (Some i) (s\<lparr>held := insert (ProcLock i) (held s) - lock_of r\<rparr>)"
    if "i < NPROC" "ProcLock i \<notin> held s" "lock_of r \<subseteq> held s" "runnable s i"
      "\<And>j. r = Some j \<Longrightarrow> sint (p_creationTime (procs s i)) < sint (p_creationTime (procs s j))"
  proof -
    have "release_opt r (s\<lparr>held := insert (ProcLock i) (held s)\<rparr>) =
        Ok (s\<lparr>held := insert (ProcLock i) (held s) - lock_of r\<rparr>)"
      using that(3) by (subst release_opt_eq) auto
    with that show ?thesis
      by (subst fcfs_scan.simps) (auto simp: run_simps split: option.splits)
  qed
  show "fcfs_scan i r s = fcfs_scan (Suc i) r s"
    if "i < NPROC" "ProcLock i \<notin> held s" "\<not> runnable s i \<or>
      (\<exists>j. r = Some j \<and> \<not> sint (p_creationTime (procs s i)) < sint (p_creationTime (procs s j)))"
    using that by (subst fcfs_scan.simps) (auto simp: run_simps split: option.splits)
qed auto

section \<open>Priorities\<close>

lemma pbs_dp_bounds: "0 \<le> sint (pbs_dp q) \<and> sint (pbs_dp q) \<le> 100"
  by (simp add: pbs_dp_def Let_def)

text \<open>The order of the priority policy: smaller dynamic priority, then fewer times scheduled.\<close>

definition pbs_better :: "proc \<Rightarrow> proc \<Rightarrow> bool" where
  "pbs_better p q \<longleftrightarrow> sint (pbs_dp p) < sint (pbs_dp q) \<or>
     sint (pbs_dp p) = sint (pbs_dp q) \<and> sint (p_numOfScheduled p) < sint (p_numOfScheduled q)"

text \<open>\<^verbatim>\<open>dynamic_pr\<close> is the priority of the process chosen so far, 999 before there is one.\<close>

definition chosen_pr :: "nat option \<Rightarrow> 'a pstate_scheme \<Rightarrow> cint" where
  "chosen_pr r s = (case r of None \<Rightarrow> 999 | Some j \<Rightarrow> pbs_dp (procs s j))"

lemma chosen_pr_held: "chosen_pr r (s\<lparr>held := h\<rparr>) = chosen_pr r s"
  by (cases r) (simp_all add: chosen_pr_def)

definition pbs_from :: "nat \<Rightarrow> nat option \<Rightarrow> 'a pstate_scheme \<Rightarrow> (nat option \<times> 'a pstate_scheme) result" where
  "pbs_from i r s = pbs_scan i (chosen_pr r s) r s"

lemma pbs_cond_eq:
  "pbs_cond (chosen_pr r s) r i s = Ok (case r of None \<Rightarrow> (False, False)
    | Some j \<Rightarrow> let c = pbs_dp (procs s j) = pbs_dp (procs s i) \<and>
                      sint (p_numOfScheduled (procs s i)) < sint (p_numOfScheduled (procs s j))
                in (c, c \<and> sint (p_creationTime (procs s i)) < sint (p_creationTime (procs s j))))"
proof (cases r)
  case None
  have "pbs_dp (procs s i) \<noteq> 999"
  proof
    assume "pbs_dp (procs s i) = 999"
    with pbs_dp_bounds [of "procs s i"] show False by simp
  qed
  with None show ?thesis by (auto simp: pbs_cond_def chosen_pr_def)
next
  case (Some j)
  then show ?thesis by (auto simp: pbs_cond_def chosen_pr_def Let_def)
qed

lemma pbs_from_step:
  assumes "i < NPROC" "ProcLock i \<notin> held s"
  shows "pbs_from i r s = (let s1 = s\<lparr>held := insert (ProcLock i) (held s)\<rparr>
    in if runnable s i \<and> (\<forall>j. r = Some j \<longrightarrow> pbs_better (procs s i) (procs s j))
       then rbind (release_opt r s1) (pbs_scan (Suc i) (pbs_dp (procs s i)) (Some i))
       else pbs_from (Suc i) r s)"
proof -
  let ?s1 = "s\<lparr>held := insert (ProcLock i) (held s)\<rparr>"
  have c: "pbs_cond (chosen_pr r s) r i ?s1 = Ok (case r of None \<Rightarrow> (False, False)
    | Some j \<Rightarrow> let c = pbs_dp (procs s j) = pbs_dp (procs s i) \<and>
                      sint (p_numOfScheduled (procs s i)) < sint (p_numOfScheduled (procs s j))
                in (c, c \<and> sint (p_creationTime (procs s i)) < sint (p_creationTime (procs s j))))"
    using pbs_cond_eq [of r ?s1 i] by (simp add: chosen_pr_held cong: option.case_cong)
  have e: "pbs_dp p = pbs_dp q \<longleftrightarrow> sint (pbs_dp p) = sint (pbs_dp q)" for p q
    by (rule word_eq_iff_signed)
  show ?thesis
    unfolding pbs_from_def using assms c
    by (subst pbs_scan.simps, cases r) (auto simp: run_simps Let_def pbs_better_def e chosen_pr_def)
qed

interpretation pbs: chooser pbs_from pbs_better
proof unfold_locales
  fix i r and s :: "'a pstate_scheme"
  show "NPROC \<le> i \<Longrightarrow> pbs_from i r s = Ok (r, s)" by (simp add: pbs_from_def pbs_scan.simps)
  show "pbs_from i r s = pbs_from (Suc i) (Some i) (s\<lparr>held := insert (ProcLock i) (held s) - lock_of r\<rparr>)"
    if "i < NPROC" "ProcLock i \<notin> held s" "lock_of r \<subseteq> held s" "runnable s i"
      "\<And>j. r = Some j \<Longrightarrow> pbs_better (procs s i) (procs s j)"
  proof -
    have "lock_of r \<subseteq> insert (ProcLock i) (held s)" using that(3) by blast
    with that show ?thesis
      by (simp add: pbs_from_step Let_def release_opt_eq) (simp add: pbs_from_def chosen_pr_def)
  qed
  show "pbs_from i r s = pbs_from (Suc i) r s"
    if "i < NPROC" "ProcLock i \<notin> held s" "\<not> runnable s i \<or> (\<exists>j. r = Some j \<and> \<not> pbs_better (procs s i) (procs s j))"
    using that by (auto simp: pbs_from_step Let_def)
qed (auto simp: pbs_better_def)

section \<open>Round robin\<close>

text \<open>
  The state a process is switched to, and one turn of the round: a runnable process runs and comes back.
\<close>

definition given :: "nat \<Rightarrow> 'a pstate_scheme \<Rightarrow> 'a pstate_scheme" where
  "given i s = s\<lparr>held := {ProcLock i}, procs := (procs s)(i := (procs s i)\<lparr>p_state := RUNNING\<rparr>), curproc := Some i\<rparr>"

definition turn :: "'a pstate_scheme runner \<Rightarrow> nat \<Rightarrow> 'a pstate_scheme \<Rightarrow> 'a pstate_scheme \<Rightarrow> bool" where
  "turn run i s t \<longleftrightarrow> (if runnable s i then \<exists>v. run i (given i s) = Ok v \<and> t = v\<lparr>curproc := None, held := {}\<rparr> else t = s)"

text \<open>
  What the scheduler relies on: a process that comes back does so through \<^verbatim>\<open>sched\<close>, which panics unless the
  process holds its own lock and no other. Nothing is assumed of what it did before.
\<close>

definition returns_locked :: "'a pstate_scheme runner \<Rightarrow> bool" where
  "returns_locked run \<longleftrightarrow> (\<forall>i u v. held u = {ProcLock i} \<longrightarrow> run i u = Ok v \<longrightarrow> held v = {ProcLock i})"

lemma given_held: "held (given i s) = {ProcLock i}"
  by (simp add: given_def)

lemma for_each_Nil: "for_each f [] = Ok"
  by (simp add: fun_eq_iff)

lemma rr_one_eq:
  assumes "returns_locked run" "held s = {}" "curproc s = None"
  shows "rr_one run i s = (if runnable s i
    then case run i (given i s) of Ok v \<Rightarrow> Ok (v\<lparr>curproc := None, held := {}\<rparr>) | Stop e \<Rightarrow> Stop e else Ok s)"
proof (cases "runnable s i")
  case True
  have g: "(updp i (\<lambda>q. q\<lparr>p_state := RUNNING\<rparr>) (s\<lparr>held := {ProcLock i}\<rparr>))\<lparr>curproc := Some i\<rparr> = given i s"
    by (simp add: given_def updp_def)
  have "held v = {ProcLock i}" if "run i (given i s) = Ok v" for v
    using assms(1) that given_held unfolding returns_locked_def by blast
  then show ?thesis using True assms(2) g by (simp add: rr_one_def dispatch_def run_simps split: result.split)
next
  case False
  then show ?thesis using assms(2) by (simp add: rr_one_def run_simps)
qed

lemma first_change: "P 0 \<Longrightarrow> \<not> P (j :: nat) \<Longrightarrow> \<exists>i < j. P i \<and> \<not> P (Suc i)"
  by (induction j) (auto simp: less_Suc_eq)

definition turns :: "'a pstate_scheme runner \<Rightarrow> (nat \<Rightarrow> 'a pstate_scheme) \<Rightarrow> nat \<Rightarrow> bool" where
  "turns run st n \<longleftrightarrow> (\<forall>i < n. turn run i (st i) (st (Suc i))) \<and> (\<forall>i \<le> n. held (st i) = {} \<and> curproc (st i) = None)"

lemma turns_upd: "turns run st n \<Longrightarrow> turn run n (st n) t \<Longrightarrow> held t = {} \<Longrightarrow> curproc t = None \<Longrightarrow>
    turns run (st(Suc n := t)) (Suc n)"
  by (simp add: turns_def less_Suc_eq le_Suc_eq)

lemma rr_turns:
  assumes "returns_locked run" "held s = {}" "curproc s = None"
  shows "\<exists>n st. n \<le> N \<and> st 0 = s \<and> turns run st n \<and>
    (n = N \<and> for_each (rr_one run) [0..<N] s = Ok (st n) \<or>
     n < N \<and> runnable (st n) n \<and> (\<exists>e. run n (given n (st n)) = Stop e \<and> for_each (rr_one run) [0..<N] s = Stop e))"
proof (induction N)
  case 0
  show ?case using assms(2,3) by (intro exI [of _ 0] exI [of _ "\<lambda>_. s"]) (simp add: turns_def)
next
  case (Suc N)
  then obtain n st where n: "st 0 = s" "turns run st n" and
    "n = N \<and> for_each (rr_one run) [0..<N] s = Ok (st n) \<or>
     n < N \<and> runnable (st n) n \<and> (\<exists>e. run n (given n (st n)) = Stop e \<and> for_each (rr_one run) [0..<N] s = Stop e)" by blast
  then consider (all) "n = N" "for_each (rr_one run) [0..<N] s = Ok (st N)"
    | (stop) e where "n < N" "runnable (st n) n" "run n (given n (st n)) = Stop e" "for_each (rr_one run) [0..<N] s = Stop e"
    by blast
  then show ?case
  proof cases
    case all
    have h: "held (st N) = {}" "curproc (st N) = None" using n(2) all(1) by (simp_all add: turns_def)
    have run: "for_each (rr_one run) [0..<Suc N] s = rr_one run N (st N)" using all(2) by (simp add: for_each_append for_each_Nil)
    show ?thesis
    proof (cases "rr_one run N (st N)")
      case (Ok t)
      have "turn run N (st N) t \<and> held t = {} \<and> curproc t = None"
        using Ok rr_one_eq [OF assms(1) h, of N] h by (auto simp: turn_def split: if_splits result.splits)
      then have "turns run (st(Suc N := t)) (Suc N)" using turns_upd n(2) all(1) by blast
      moreover have "(st(Suc N := t)) 0 = s" "(st(Suc N := t)) (Suc N) = t" using n(1) by simp_all
      ultimately show ?thesis using run Ok le_refl by metis
    next
      case (Stop e)
      then have "runnable (st N) N \<and> run N (given N (st N)) = Stop e"
        using rr_one_eq [OF assms(1) h, of N] by (auto split: if_splits result.splits)
      then show ?thesis using n all(1) run Stop by (intro exI [of _ N] exI [of _ st]) (simp del: upt_Suc)
    qed
  next
    case (stop e)
    then show ?thesis using n by (intro exI [of _ n] exI [of _ st]) (simp add: for_each_append)
  qed
qed

text \<open>
  C20: a round of round robin gives every slot of the process table one turn, in order, whatever the processes
  do to each other while they run; \<open>st i\<close> is the state before the turn of slot \<open>i\<close>. If the process is
  runnable then, it is switched to in state \<^verbatim>\<open>RUNNING\<close>, holding its own lock and no other, and the next
  turn starts where it came back; otherwise nothing happens. The round ends after all turns, or with a process that
  does not come back. No lock is held between turns. A process that was runnable when the round began is passed
  over only if another process, in its own turn, took it out of that state. Of the processes it is
  assumed that one that comes back holds exactly its own lock, which \<^verbatim>\<open>sched\<close> checks.
\<close>

theorem rr_runs_all:
  fixes s :: "'a pstate_scheme"
  assumes "returns_locked run" and "held s = {}" and "curproc s = None"
  shows "\<exists>n st. n \<le> NPROC \<and> st 0 = s \<and> (\<forall>i < n. turn run i (st i) (st (Suc i))) \<and>
    (\<forall>i \<le> n. held (st i) = {} \<and> curproc (st i) = None) \<and>
    (n = NPROC \<and> scheduler_RR run s = Ok (st n) \<or>
     n < NPROC \<and> runnable (st n) n \<and> (\<exists>e. run n (given n (st n)) = Stop e \<and> scheduler_RR run s = Stop e)) \<and>
    (\<forall>j \<le> n. runnable s j \<longrightarrow> runnable (st j) j \<or>
       (\<exists>i < j. runnable (st i) i \<and> runnable (st i) j \<and> \<not> runnable (st (Suc i)) j))"
proof -
  obtain n st where st: "n \<le> NPROC" "st 0 = s" "turns run st n"
    "n = NPROC \<and> scheduler_RR run s = Ok (st n) \<or>
     n < NPROC \<and> runnable (st n) n \<and> (\<exists>e. run n (given n (st n)) = Stop e \<and> scheduler_RR run s = Stop e)"
    using rr_turns [OF assms, of NPROC] unfolding scheduler_RR_def by blast
  have "\<exists>i < j. runnable (st i) i \<and> runnable (st i) j \<and> \<not> runnable (st (Suc i)) j"
    if j: "j \<le> n" "runnable s j" "\<not> runnable (st j) j" for j
  proof -
    obtain i where i: "i < j" "runnable (st i) j" "\<not> runnable (st (Suc i)) j"
      using first_change [of "\<lambda>i. runnable (st i) j" j] j(2,3) st(2) by blast
    moreover have "turn run i (st i) (st (Suc i))" using st(3) i(1) j(1) by (simp add: turns_def)
    then have "runnable (st i) i" using i(2,3) unfolding turn_def by metis
    ultimately show ?thesis by blast
  qed
  then show ?thesis using st unfolding turns_def by (intro exI [of _ n] exI [of _ st]) blast
qed

text \<open>A process that, when it runs, creates another one behind it and exits.\<close>

definition forker :: "tstate runner" where
  "forker i s = Ok (updp i (\<lambda>q. q\<lparr>p_state := ZOMBIE\<rparr>) (updp (Suc i) (\<lambda>q. q\<lparr>p_state := RUNNABLE\<rparr>) s))"

theorem rr_runs_all_witness:
  "\<exists>t. scheduler_RR forker (idle\<lparr>procs := (\<lambda>_. proc0)(5 := proc0\<lparr>p_state := RUNNABLE\<rparr>)\<rparr>) = Ok t \<and> held t = {}"
proof -
  let ?s = "idle\<lparr>procs := (\<lambda>_. proc0)(5 := proc0\<lparr>p_state := RUNNABLE\<rparr>)\<rparr>"
  have "returns_locked forker" by (auto simp: returns_locked_def forker_def)
  moreover have "held ?s = {}" "curproc ?s = None" by (simp_all add: idle_def)
  ultimately obtain n st where st: "n \<le> NPROC" "\<forall>i \<le> n. held (st i) = {} \<and> curproc (st i) = None"
    "n = NPROC \<and> scheduler_RR forker ?s = Ok (st n) \<or>
     n < NPROC \<and> runnable (st n) n \<and> (\<exists>e. forker n (given n (st n)) = Stop e \<and> scheduler_RR forker ?s = Stop e)"
    using rr_runs_all [of forker ?s] by blast
  then show ?thesis by (auto simp: forker_def)
qed

section \<open>The two orders\<close>

lemma no_lock_None: "only_lock None s \<Longrightarrow> i < NPROC \<Longrightarrow> ProcLock i \<notin> held s"
  by (simp add: only_lock_def)

text \<open>
  C24: a round of first come first served does nothing when no process is runnable. Otherwise its scan selects the
  runnable process with the smallest creation time, the first in the table among equals, and leaves it locked
  with no other process locked; but before it is switched to, the counter \<^verbatim>\<open>numOfScheduled\<close> is incremented through
  the loop variable, which is then \<^verbatim>\<open>&proc[NPROC]\<close>, behind the end of the process table.
\<close>

theorem fcfs_chooses_oldest:
  fixes s :: "'a pstate_scheme"
  assumes "only_lock None s"
  shows "(\<forall>i < NPROC. \<not> runnable s i) \<and> scheduler_FCFS run s = Ok s \<or>
    (\<exists>p < NPROC. runnable s p \<and>
      (\<forall>k < NPROC. runnable s k \<longrightarrow> sint (p_creationTime (procs s p)) \<le> sint (p_creationTime (procs s k)) \<and>
         (k < p \<longrightarrow> sint (p_creationTime (procs s p)) < sint (p_creationTime (procs s k)))) \<and>
      fcfs_scan 0 None s = Ok (Some p, s\<lparr>held := insert (ProcLock p) (held s)\<rparr>) \<and>
      scheduler_FCFS run s = Stop (Fault ''proc index''))"
proof -
  have "fcfs.best s 0 None" by (simp add: fcfs.best_def)
  then obtain q t where q: "fcfs_scan 0 None s = Ok (q, t)" "fcfs.best s NPROC q" "t = s\<lparr>held := held s \<union> lock_of q\<rparr>"
    using fcfs.scan_best [of s 0 None] assms by (auto simp: lock_of_def)
  show ?thesis
  proof (cases q)
    case None
    with q show ?thesis by (auto simp: fcfs.best_def scheduler_FCFS_def lock_of_def)
  next
    case (Some p)
    with q show ?thesis
      by (intro disjI2 exI [of _ p])
         (auto simp: fcfs.best_def scheduler_FCFS_def lock_of_def proc_update_def not_less)
  qed
qed

theorem fcfs_chooses_oldest_witness:
  "scheduler_FCFS (\<lambda>_. Ok)
     (idle\<lparr>procs := (\<lambda>_. proc0)(2 := proc0\<lparr>p_state := RUNNABLE, p_creationTime := 7\<rparr>)\<rparr>) = Stop (Fault ''proc index'')"
proof -
  let ?s = "idle\<lparr>procs := (\<lambda>_. proc0)(2 := proc0\<lparr>p_state := RUNNABLE, p_creationTime := 7\<rparr>)\<rparr>"
  have "only_lock None ?s" "2 < NPROC" "runnable ?s 2" by (simp_all add: only_lock_def idle_def)
  with fcfs_chooses_oldest [of ?s "\<lambda>_. Ok"] show ?thesis by fastforce
qed

text \<open>
  C23: a round of the priority policy never dereferences the null pointer, does nothing when no
  process is runnable, and otherwise runs a runnable process whose dynamic priority is smallest
  and, among those of equal priority, one that was scheduled least often; every dynamic priority
  lies between 0 and 100.
\<close>

theorem pbs_runs_best:
  fixes s :: "'a pstate_scheme"
  assumes "only_lock None s"
  shows "(\<forall>i < NPROC. \<not> runnable s i) \<and> scheduler_PBS run s = Ok s \<or>
    (\<exists>p < NPROC. runnable s p \<and> 0 \<le> sint (pbs_dp (procs s p)) \<and> sint (pbs_dp (procs s p)) \<le> 100 \<and>
      (\<forall>k < NPROC. runnable s k \<longrightarrow> sint (pbs_dp (procs s p)) < sint (pbs_dp (procs s k)) \<or>
         sint (pbs_dp (procs s p)) = sint (pbs_dp (procs s k)) \<and>
         sint (p_numOfScheduled (procs s p)) \<le> sint (p_numOfScheduled (procs s k))) \<and>
      scheduler_PBS run s =
        rbind (dispatch run p (updp p (\<lambda>q. q\<lparr>p_run_time := 0, p_sleep_time := 0,
            p_numOfScheduled := p_numOfScheduled q + 1, p_state := RUNNING, p_st_time := ticks s\<rparr>)
          (s\<lparr>held := insert (ProcLock p) (held s)\<rparr>))) (lk_release (ProcLock p)))"
proof -
  have "pbs.best s 0 None" by (simp add: pbs.best_def)
  then obtain q t where q: "pbs_scan 0 999 None s = Ok (q, t)" "pbs.best s NPROC q" "t = s\<lparr>held := held s \<union> lock_of q\<rparr>"
    using pbs.scan_best [of s 0 None] assms by (auto simp: lock_of_def pbs_from_def chosen_pr_def)
  show ?thesis
  proof (cases q)
    case None
    with q show ?thesis by (auto simp: pbs.best_def scheduler_PBS_def lock_of_def)
  next
    case (Some p)
    have "sint (pbs_dp (procs s p)) < sint (pbs_dp (procs s k)) \<or> sint (pbs_dp (procs s p)) = sint (pbs_dp (procs s k)) \<and>
         sint (p_numOfScheduled (procs s p)) \<le> sint (p_numOfScheduled (procs s k))" if "k < NPROC" "runnable s k" for k
      using that q(2) unfolding pbs.best_def Some pbs_better_def by fastforce
    with q Some pbs_dp_bounds show ?thesis
      by (intro disjI2 exI [of _ p]) (auto simp: pbs.best_def scheduler_PBS_def lock_of_def)
  qed
qed

theorem pbs_runs_best_witness:
  "scheduler_PBS (\<lambda>_ _. Stop Spinning)
     (idle\<lparr>procs := (\<lambda>_. proc0)(2 := proc0\<lparr>p_state := RUNNABLE\<rparr>)\<rparr>) = Stop Spinning"
proof -
  let ?s = "idle\<lparr>procs := (\<lambda>_. proc0)(2 := proc0\<lparr>p_state := RUNNABLE\<rparr>)\<rparr>"
  have "only_lock None ?s" "2 < NPROC" "runnable ?s 2" by (simp_all add: only_lock_def idle_def)
  with pbs_runs_best [of ?s "\<lambda>_ _. Stop Spinning"] show ?thesis by (fastforce simp: dispatch_def)
qed

end
