(* ===== verification/Queuespec.thy ===== *)
theory Queuespec
  imports Schedspec
begin

text \<open>
  The feedback queues and the lottery. The operations on a queue refine list operations as long
  as the queue is not full. A visit of one of the first four queues that runs a process does not
  get past its last line, because the lock released there belongs to another queue entry, unless the
  process is queued twice in a row. The random number of the lottery is always zero.
\<close>

declare remove_loop.simps [simp del] mlfq_age.simps [simp del] mlfq_level.simps [simp del]
  mlfq_last.simps [simp del] lbs_scan.simps [simp del]

section \<open>Queues as lists\<close>

lemma sint_minus_1: "0 \<le> sint (w :: cint) \<Longrightarrow> sint (w - 1) = sint w - 1"
  using sint_less [of w] by (simp add: sint_word_ariths signed_take_bit_int_eq_self)

definition queue_len :: "nat \<Rightarrow> 'a pstate_scheme \<Rightarrow> nat" where
  "queue_len k s = nat (sint (queue_ptr s k) + 1)"

definition queue_list :: "nat \<Rightarrow> 'a pstate_scheme \<Rightarrow> nat list" where
  "queue_list k s = map (\<lambda>i. the (queue s k i)) [0..<queue_len k s]"

definition queue_ok :: "nat \<Rightarrow> 'a pstate_scheme \<Rightarrow> bool" where
  "queue_ok k s \<longleftrightarrow> -1 \<le> sint (queue_ptr s k) \<and> queue_len k s \<le> NPROC
     \<and> (\<forall>i < queue_len k s. queue s k i \<noteq> None)"

fun remove_first :: "('b \<Rightarrow> bool) \<Rightarrow> 'b list \<Rightarrow> 'b list" where
  "remove_first P [] = []"
| "remove_first P (x # xs) = (if P x then xs else x # remove_first P xs)"

lemma remove_first_at:
  "i < length xs \<Longrightarrow> P (xs ! i) \<Longrightarrow> (\<And>j. j < i \<Longrightarrow> \<not> P (xs ! j)) \<Longrightarrow>
   remove_first P xs = take i xs @ drop (Suc i) xs"
proof (induction xs arbitrary: i)
  case (Cons x xs)
  show ?case
  proof (cases i)
    case 0
    with Cons.prems show ?thesis by simp
  next
    case (Suc j)
    have "\<not> P x" using Cons.prems(3) [of 0] Suc by simp
    moreover have "remove_first P xs = take j xs @ drop (Suc j) xs"
      using Cons.prems(1,2) Cons.prems(3) [of "Suc _"] Suc by (intro Cons.IH) auto
    ultimately show ?thesis using Suc by simp
  qed
qed simp

lemma remove_first_none: "(\<And>x. x \<in> set xs \<Longrightarrow> \<not> P x) \<Longrightarrow> remove_first P xs = xs"
  by (induction xs) auto

lemma length_queue_list [simp]: "length (queue_list k s) = queue_len k s"
  by (simp add: queue_list_def)

lemma queue_at_ok:
  "queue_ok k s \<Longrightarrow> i < queue_len k s \<Longrightarrow> queue_at k i s = Ok (queue_list k s ! i)"
  by (auto simp: queue_at_def queue_ok_def queue_list_def split: option.splits)

lemma queue_len_iff: "queue_ok k s \<Longrightarrow> int i \<le> sint (queue_ptr s k) \<longleftrightarrow> i < queue_len k s"
  by (auto simp: queue_ok_def queue_len_def)

lemma queue_shift_eq:
  assumes "nat (hi + 1) < NPROC"
  shows "queue_shift k i hi s = Ok (s\<lparr>queue := (queue s)(k := (\<lambda>j.
    if i \<le> j \<and> j < nat (hi + 1) then queue s k (Suc j) else queue s k j))\<rparr>)"
proof -
  let ?f = "\<lambda>j s. if Suc j < NPROC
    then Ok (s\<lparr>queue := (queue s)(k := (queue s k)(j := queue s k (Suc j)))\<rparr>) else Stop (Fault ''queue index'')"
  define g where "g m = (\<lambda>j. if i \<le> j \<and> j < m then queue s k (Suc j) else queue s k j)" for m
  have "for_each ?f [i..<m] s = Ok (s\<lparr>queue := (queue s)(k := g m)\<rparr>)" if "m < NPROC" for m
    using that
  proof (induction m)
    case (Suc m)
    show ?case
    proof (cases "i \<le> m")
      case True
      have "(g m)(m := g m (Suc m)) = g (Suc m)"
        using True by (auto simp: g_def fun_eq_iff less_Suc_eq)
      with Suc True show ?thesis by (simp add: for_each_append) (simp add: fun_upd_def cong: if_cong)
    next
      case False
      then have "g (Suc m) = queue s k" by (auto simp: g_def fun_eq_iff)
      with False show ?thesis by simp
    qed
  qed (simp add: g_def)
  with assms have "for_each ?f [i..<nat (hi + 1)] s = Ok (s\<lparr>queue := (queue s)(k := g (nat (hi + 1)))\<rparr>)" by blast
  then show ?thesis unfolding queue_shift_def g_def .
qed

definition queue_only :: "nat \<Rightarrow> 'a pstate_scheme \<Rightarrow> 'a pstate_scheme \<Rightarrow> bool" where
  "queue_only k s t \<longleftrightarrow> t = s\<lparr>queue := (queue s)(k := queue t k), queue_ptr := (queue_ptr s)(k := queue_ptr t k)\<rparr>"

lemma queue_onlyD:
  assumes "queue_only k s t"
  shows "held t = held s" "procs t = procs s" "j \<noteq> k \<Longrightarrow> queue t j = queue s j"
    "j \<noteq> k \<Longrightarrow> queue_ptr t j = queue_ptr s j"
  by (subst assms [unfolded queue_only_def], simp)+

lemma remove_found:
  assumes "queue_ok k s" and "i < queue_len k s"
  shows "\<exists>t. rbind (queue_shift k i (sint (queue_ptr s k) - 1) s) (\<lambda>s. Ok (queue_pop k s)) = Ok t
    \<and> queue_ok k t \<and> queue_only k s t \<and> queue_list k t = take i (queue_list k s) @ drop (Suc i) (queue_list k s)"
proof -
  let ?n = "queue_len k s"
  let ?q = "\<lambda>j. if i \<le> j \<and> j < ?n - 1 then queue s k (Suc j) else queue s k j"
  let ?t = "queue_pop k (s\<lparr>queue := (queue s)(k := ?q)\<rparr>)"
  have n: "nat (sint (queue_ptr s k) - 1 + 1) = ?n - 1" "0 \<le> sint (queue_ptr s k)" "?n - 1 < NPROC"
    using assms by (auto simp: queue_ok_def queue_len_def)
  have len: "queue_len k ?t = ?n - 1"
    using n(2) sint_minus_1 [OF n(2)] by (simp add: queue_pop_def queue_len_def)
  have qt: "queue ?t k = ?q" by (simp add: queue_pop_def)
  have "rbind (queue_shift k i (sint (queue_ptr s k) - 1) s) (\<lambda>s. Ok (queue_pop k s)) = Ok ?t"
    using n queue_shift_eq [of "sint (queue_ptr s k) - 1" k i s] by simp
  moreover have "queue_ok k ?t"
    using assms n len qt sint_minus_1 [OF n(2)] unfolding queue_ok_def
    by (auto simp: queue_pop_def)
  moreover have "queue_only k s ?t" by (simp add: queue_only_def queue_pop_def)
  moreover have "queue_list k ?t = take i (queue_list k s) @ drop (Suc i) (queue_list k s)"
    using assms(2) len qt by (intro nth_equalityI) (auto simp: queue_list_def nth_append less_diff_conv)
  ultimately show ?thesis by blast
qed

lemma remove_loop_ok:
  assumes "queue_ok k s" and "i \<le> queue_len k s" and "\<forall>j < i. p_pid (procs s (queue_list k s ! j)) \<noteq> pid"
  shows "\<exists>t. remove_loop i pid k s = Ok t \<and> queue_ok k t \<and> queue_only k s t
    \<and> queue_list k t = remove_first (\<lambda>p. p_pid (procs s p) = pid) (queue_list k s)"
  using assms(2,3)
proof (induction "queue_len k s - i" arbitrary: i)
  case 0
  then have "remove_first (\<lambda>p. p_pid (procs s p) = pid) (queue_list k s) = queue_list k s"
    by (intro remove_first_none) (auto simp: in_set_conv_nth)
  moreover have "remove_loop i pid k s = Ok s"
    using 0 assms(1) by (subst remove_loop.simps) (simp add: queue_len_iff)
  ultimately show ?case using assms(1) by (auto simp: queue_only_def)
next
  case (Suc n)
  then have i: "i < queue_len k s" "i < NPROC" using assms(1) by (auto simp: queue_ok_def)
  have step: "remove_loop i pid k s = (if p_pid (procs s (queue_list k s ! i)) = pid
      then rbind (queue_shift k i (sint (queue_ptr s k) - 1) s) (\<lambda>s. Ok (queue_pop k s))
      else remove_loop (Suc i) pid k s)"
    using i assms(1) by (subst remove_loop.simps) (simp add: queue_len_iff queue_at_ok)
  show ?case
  proof (cases "p_pid (procs s (queue_list k s ! i)) = pid")
    case True
    then have "remove_first (\<lambda>p. p_pid (procs s p) = pid) (queue_list k s)
        = take i (queue_list k s) @ drop (Suc i) (queue_list k s)"
      using i Suc.prems(2) by (intro remove_first_at) auto
    with remove_found [OF assms(1) i(1)] True step show ?thesis by simp
  next
    case False
    have "\<exists>t. remove_loop (Suc i) pid k s = Ok t \<and> queue_ok k t \<and> queue_only k s t
      \<and> queue_list k t = remove_first (\<lambda>p. p_pid (procs s p) = pid) (queue_list k s)"
      by (rule Suc.hyps(1)) (use Suc i False in \<open>auto simp: less_Suc_eq\<close>)
    with step False show ?thesis by simp
  qed
qed

lemma enqueue_ok:
  assumes "queue_ok k s"
  shows "if queue_len k s < NPROC
    then \<exists>t. enqueue k p s = Ok t \<and> queue_ok k t \<and> queue_only k s t \<and> queue_list k t = queue_list k s @ [p]
    else enqueue k p s = Stop (Fault ''queue index'')"
proof -
  let ?n = "queue_len k s"
  let ?t = "s\<lparr>queue := (queue s)(k := (queue s k)(?n := Some p)), queue_ptr := (queue_ptr s)(k := queue_ptr s k + 1)\<rparr>"
  have b: "-1 \<le> sint (queue_ptr s k)" "sint (queue_ptr s k) = int ?n - 1" "?n \<le> NPROC"
    using assms by (auto simp: queue_ok_def queue_len_def)
  then have s1: "sint (queue_ptr s k + 1) = int ?n" by (subst sint_plus_1) simp_all
  have "queue_len k ?t = nat (sint (queue_ptr s k + 1) + 1)" by (simp add: queue_len_def)
  then have len: "queue_len k ?t = Suc ?n" unfolding s1 by simp
  have qt: "queue ?t k = (queue s k)(?n := Some p)" by simp
  have "queue_list k ?t = queue_list k s @ [p]"
    unfolding queue_list_def len qt by simp
  moreover have "queue_ok k ?t" if "?n < NPROC"
    using that assms s1 unfolding queue_ok_def len qt by (simp add: less_Suc_eq)
  moreover have "queue_only k s ?t" by (simp add: queue_only_def)
  moreover have "enqueue k p s = (if ?n < NPROC then Ok ?t else Stop (Fault ''queue index''))"
    using s1 by (simp add: enqueue_def Let_def)
  ultimately show ?thesis by auto
qed

text \<open>
  C16: a queue of the feedback scheduler behaves like a list of at most \<^verbatim>\<open>NPROC\<close> processes.
  \<^verbatim>\<open>remove_from_queue\<close> removes the first process with the given pid and nothing else, keeping the
  order of the rest; adding a process appends it when there is room and otherwise writes outside
  the array. No other queue is touched.
\<close>

theorem queue_refines_list:
  assumes "queue_ok k s" and "k < 5"
  shows "(\<exists>t. remove_from_queue pid (of_nat k) s = Ok t \<and> queue_ok k t \<and> queue_only k s t
      \<and> queue_list k t = remove_first (\<lambda>p. p_pid (procs s p) = pid) (queue_list k s))
    \<and> (if length (queue_list k s) < NPROC
       then \<exists>t. enqueue k p s = Ok t \<and> queue_ok k t \<and> queue_only k s t \<and> queue_list k t = queue_list k s @ [p]
       else enqueue k p s = Stop (Fault ''queue index''))"
proof -
  have "k = 0 \<or> k = 1 \<or> k = 2 \<or> k = 3 \<or> k = 4" using assms(2) by auto
  then have "remove_from_queue pid (of_nat k) s = remove_loop 0 pid k s"
    by (auto simp: remove_from_queue_def)
  with remove_loop_ok [OF assms(1), of 0 pid] enqueue_ok [OF assms(1), of p] show ?thesis by simp
qed

theorem queue_refines_list_witness:
  "\<exists>t. remove_from_queue 0 (of_nat 2) (idle\<lparr>queue := (\<lambda>_. [0 \<mapsto> 7, 1 \<mapsto> 9]), queue_ptr := (\<lambda>_. 1)\<rparr>) = Ok t
    \<and> queue_list 2 t = [9]"
proof -
  let ?s = "idle\<lparr>queue := (\<lambda>_. [0 \<mapsto> 7, 1 \<mapsto> 9]), queue_ptr := (\<lambda>_. 1)\<rparr>"
  have q: "queue_len 2 ?s = 2" "procs ?s = (\<lambda>_. proc0)" by (simp_all add: queue_len_def idle_def)
  then have "queue_ok 2 ?s" "queue_list 2 ?s = [7, 9]"
    by (auto simp: queue_ok_def queue_list_def less_Suc_eq numeral_2_eq_2)
  with queue_refines_list [of 2 ?s 0] q(2) show ?thesis by (auto simp: proc0_def)
qed

section \<open>A visit of a queue\<close>

text \<open>
  C27: what a visit of one of the first four queues does after the process at index \<open>i\<close> ran and came back with
  its lock, whatever else it changed; \<open>v\<close> is that state. Index \<open>i\<close> is still in use, and neither this queue
  nor the next one is full. The queue is shifted over index \<open>i\<close>, and the lock released last is that of the process
  then at this index. If there is none, a null pointer is dereferenced. If it is another process its
  lock is not held and \<^verbatim>\<open>release\<close> panics. Only if the process itself is queued twice in a row does the visit return.
\<close>

theorem mlfq_visit_wrong_lock:
  fixes s :: "'a pstate_scheme"
  assumes "queue s k i = Some p" "i < NPROC" "runnable s p" "held s = {}"
    and "mlfq_run run p (s\<lparr>held := {ProcLock p}\<rparr>) = Ok v" "held v = {ProcLock p}"
    and "queue_ok k v" "i < queue_len k v" "queue_len k v < NPROC" "k < 4"
    and "queue_ok (Suc k) v" "queue_len (Suc k) v < NPROC"
  shows "case queue v k (Suc i) of
      None \<Rightarrow> mlfq_visit run k i s = Stop (Fault ''null queue entry'')
    | Some q \<Rightarrow> if q = p then \<exists>t. mlfq_visit run k i s = Ok t \<and> held t = {}
                else mlfq_visit run k i s = Stop (Panic ''release'')"
proof -
  let ?P = "\<lambda>u. rbind (queue_shift k i (sint (queue_ptr u k)) u) (\<lambda>s.
       rbind (Ok (updp p (\<lambda>q. q\<lparr>p_num_of_ticks := (p_num_of_ticks q)(k := 0)\<rparr>) (queue_pop k s))) (\<lambda>s.
       rbind (queue_at k i s) (\<lambda>p. lk_release (ProcLock p) s)))"
  have i: "int i \<le> sint (queue_ptr v k)" "nat (sint (queue_ptr v k) + 1) < NPROC"
    using assms(8,9) queue_len_iff [OF assms(7)] by (simp_all add: queue_len_def)
  have last: "case queue v k (Suc i) of None \<Rightarrow> ?P u = Stop (Fault ''null queue entry'')
      | Some q \<Rightarrow> if q = p then \<exists>t. ?P u = Ok t \<and> held t = {} else ?P u = Stop (Panic ''release'')"
    if u: "held u = held v" "queue u k = queue v k" "queue_ptr u k = queue_ptr v k" for u :: "'a pstate_scheme"
  proof -
    have "queue_shift k i (sint (queue_ptr u k)) u = Ok (u\<lparr>queue := (queue u)(k := (\<lambda>j.
        if i \<le> j \<and> j < nat (sint (queue_ptr u k) + 1) then queue u k (Suc j) else queue u k j))\<rparr>)"
      using i(2) u(3) by (intro queue_shift_eq) simp
    moreover have "i < nat (sint (queue_ptr u k) + 1)" using i(1) u(3) by simp
    ultimately show ?thesis
      using u assms(2,6) by (auto simp: queue_at_def queue_pop_def run_simps split: option.splits)
  qed
  have "queue_ok (Suc k) (updp p f v)" "queue_len (Suc k) (updp p f v) < NPROC" for f
    using assms(11,12) by (simp_all add: queue_ok_def queue_len_def)
  with enqueue_ok [of "Suc k" "updp p (\<lambda>q. q\<lparr>p_curr_queue := p_curr_queue q + 1\<rparr>) v" p]
  obtain t where t: "enqueue (Suc k) p (updp p (\<lambda>q. q\<lparr>p_curr_queue := p_curr_queue q + 1\<rparr>) v) = Ok t"
    "queue_only (Suc k) (updp p (\<lambda>q. q\<lparr>p_curr_queue := p_curr_queue q + 1\<rparr>) v) t" by auto
  have tv: "held t = held v" "queue t k = queue v k" "queue_ptr t k = queue_ptr v k"
    using queue_onlyD [OF t(2)] by simp_all
  let ?u = "if sint (p_num_of_ticks (procs v p) k) \<ge> sint (ticks_allowed k) \<and> (k = 3 \<or> p_killed (procs v p) = 0) then t else v"
  have "mlfq_visit run k i s = ?P ?u"
    using assms(1-5) t(1) by (simp add: mlfq_visit_def queue_at_def run_simps rbind_assoc) blast
  moreover have "held ?u = held v" "queue ?u k = queue v k" "queue_ptr ?u k = queue_ptr v k" using tv by simp_all
  ultimately show ?thesis using last [of ?u] by presburger
qed

theorem mlfq_visit_wrong_lock_witness:
  "mlfq_visit (\<lambda>_. Ok) 0 0 (idle\<lparr>procs := (\<lambda>_. proc0\<lparr>p_state := RUNNABLE\<rparr>),
     queue := (\<lambda>_. [0 \<mapsto> 3, 1 \<mapsto> 4]), queue_ptr := (\<lambda>_. -1)(0 := 1)\<rparr>) = Stop (Panic ''release'')"
proof -
  let ?s = "idle\<lparr>procs := (\<lambda>_. proc0\<lparr>p_state := RUNNABLE\<rparr>),
     queue := (\<lambda>_. [0 \<mapsto> 3, 1 \<mapsto> 4]), queue_ptr := (\<lambda>_. -1)(0 := 1)\<rparr>"
  have h: "held ?s = {}" by (simp add: idle_def)
  obtain v where v: "mlfq_run (\<lambda>_. Ok) 3 (?s\<lparr>held := {ProcLock 3}\<rparr>) = Ok v"
    "held v = {ProcLock 3}" "queue v = queue ?s" "queue_ptr v = queue_ptr ?s"
    by (simp add: mlfq_run_def dispatch_def)
  have l: "queue_len 0 v = 2" "queue_len (Suc 0) v = 0" by (simp_all add: queue_len_def v(4))
  have "queue_ok 0 v" "queue_ok (Suc 0) v"
    unfolding queue_ok_def l v(3,4) by (auto simp: less_Suc_eq numeral_2_eq_2)
  with mlfq_visit_wrong_lock [of ?s 0 0 3 "\<lambda>_. Ok" v] h l v show ?thesis by simp
qed

section \<open>The lottery\<close>

lemma square_mod_100: "(x * x) mod 100 \<noteq> (99 :: int)"
proof
  assume "(x * x) mod 100 = 99"
  then have "(x * x) mod 4 = 99 mod 4"
    using mod_mod_cancel [of 4 100 "x * x"] by simp
  moreover have "(x * x) mod 4 = (x mod 4) * (x mod 4) mod 4" by (simp add: mod_mult_eq)
  moreover have "x mod 4 = 0 \<or> x mod 4 = 1 \<or> x mod 4 = 2 \<or> x mod 4 = 3" by presburger
  ultimately show False by auto
qed

lemma getrand_zero:
  assumes "0 \<le> sint (seed s)" and "sint (seed s) < 100"
  shows "\<exists>r. getrand n s = (0, s\<lparr>seed := r\<rparr>) \<and> 0 \<le> sint r \<and> sint r < 100"
proof -
  define x where "x = sint (seed s)"
  define y where "y = (x * x) mod 100"
  have xx: "0 \<le> x * x" "x * x < 2 ^ 31"
    using assms mult_strict_mono [of x 100 x 100] by (simp_all add: x_def)
  then have "-(2 ^ 31) \<le> x * x" by linarith
  with xx(2) have sq: "sint (seed s * seed s) = x * x"
    by (simp add: sint_word_ariths x_def [symmetric] signed_take_bit_int_eq_self del: zero_le_square)
  have y: "x * x smod 100 = y"
    using xx(1) by (cases "x = 0") (auto simp: y_def zero_less_mult_iff signed_modulo_int_def signed_divide_int_def minus_div_mult_eq_mod sgn_if)
  have b: "0 \<le> y" "y < 99" using square_mod_100 [of x] pos_mod_bound [of 100 "x * x"] by (auto simp: y_def)
  then have w: "sint (word_of_int y :: cint) = y"
    by (simp add: signed_of_int signed_take_bit_int_eq_self)
  have c: "cdiv (word_of_int y) 99 = 0"
    using b unfolding cdiv_def w by (simp add: signed_divide_int_def)
  have "getrand n s = (0, s\<lparr>seed := word_of_int y\<rparr>)"
    by (simp add: getrand_def Let_def sq y c)
  with b w show ?thesis by auto
qed

lemma lbs_scan_zero:
  assumes "only_lock None s" and "\<forall>p < NPROC. runnable s p \<longrightarrow> 0 < sint (p_tickets (procs s p))"
  shows "lbs_scan i 0 0 s = (if \<exists>p. i \<le> p \<and> p < NPROC \<and> runnable s p
    then Ok (Some (LEAST p. i \<le> p \<and> runnable s p),
      s\<lparr>held := insert (ProcLock (LEAST p. i \<le> p \<and> runnable s p)) (held s)\<rparr>) else Ok (None, s))"
proof (induction "NPROC - i" arbitrary: i)
  case 0
  then show ?case by (subst lbs_scan.simps) auto
next
  case (Suc n)
  then have i: "i < NPROC" "ProcLock i \<notin> held s" using assms(1) by (auto simp: only_lock_def)
  show ?case
  proof (cases "runnable s i")
    case True
    then have "(LEAST p. i \<le> p \<and> runnable s p) = i" by (intro Least_equality) auto
    with True i assms(2) show ?thesis by (subst lbs_scan.simps) (auto simp: run_simps)
  next
    case False
    then have e: "i \<le> p \<and> runnable s p \<longleftrightarrow> Suc i \<le> p \<and> runnable s p" for p
      by (cases "i = p") auto
    have "lbs_scan i 0 0 s = lbs_scan (Suc i) 0 0 s"
      using i False by (subst lbs_scan.simps) (simp add: run_simps)
    moreover have "(\<exists>p. i \<le> p \<and> p < NPROC \<and> runnable s p) \<longleftrightarrow> (\<exists>p. Suc i \<le> p \<and> p < NPROC \<and> runnable s p)"
      using e by blast
    ultimately show ?thesis using Suc.hyps by (simp only: e)
  qed
qed

text \<open>
  C25: the lottery has no chance in it. With a seed between 0 and 99 (it starts as 37) the number
  drawn is always 0 and the next seed is again in that range, so a round of the lottery policy
  runs the first runnable process of the table, whatever the tickets are, as long as they are
  positive.
\<close>

theorem lbs_runs_first:
  fixes s :: "'a pstate_scheme"
  assumes "0 \<le> sint (seed s)" "sint (seed s) < 100" "only_lock None s"
    and "\<forall>p < NPROC. runnable s p \<longrightarrow> 0 < sint (p_tickets (procs s p))"
  shows "\<exists>r. 0 \<le> sint r \<and> sint r < 100 \<and> scheduler_LBS run s =
    (if \<exists>p < NPROC. runnable s p
     then let p = LEAST p. runnable s p
          in rbind (dispatch run p (updp p (\<lambda>q. q\<lparr>p_state := RUNNING\<rparr>)
               (s\<lparr>seed := r, held := insert (ProcLock p) (held s)\<rparr>))) (lk_release (ProcLock p))
     else Ok (s\<lparr>seed := r\<rparr>))"
proof -
  obtain r where e: "getrand (lbs_total s) s = (0, s\<lparr>seed := r\<rparr>)" and r: "0 \<le> sint r" "sint r < 100"
    using getrand_zero [OF assms(1,2)] by blast
  let ?s = "s\<lparr>seed := r\<rparr>"
  have "lbs_scan 0 0 0 ?s = (if \<exists>p < NPROC. runnable s p
    then Ok (Some (LEAST p. runnable s p), ?s\<lparr>held := insert (ProcLock (LEAST p. runnable s p)) (held s)\<rparr>) else Ok (None, ?s))"
    using lbs_scan_zero [of ?s 0] assms(3,4) by (simp add: only_lock_def)
  then have "scheduler_LBS run s = (if \<exists>p < NPROC. runnable s p
     then let p = LEAST p. runnable s p
          in rbind (dispatch run p (updp p (\<lambda>q. q\<lparr>p_state := RUNNING\<rparr>)
               (s\<lparr>seed := r, held := insert (ProcLock p) (held s)\<rparr>))) (lk_release (ProcLock p))
     else Ok (s\<lparr>seed := r\<rparr>))"
    by (cases "\<exists>p < NPROC. runnable s p") (auto simp: scheduler_LBS_def e Let_def)
  with r show ?thesis by blast
qed

theorem lbs_runs_first_witness:
  "scheduler_LBS (\<lambda>i _. if i = 2 then Stop Spinning else Stop OutOfFuel) (idle\<lparr>procs := (\<lambda>_. proc0)(
     2 := proc0\<lparr>p_state := RUNNABLE, p_tickets := 1\<rparr>, 9 := proc0\<lparr>p_state := RUNNABLE, p_tickets := 1000\<rparr>)\<rparr>)
   = Stop Spinning"
proof -
  let ?s = "idle\<lparr>procs := (\<lambda>_. proc0)(
     2 := proc0\<lparr>p_state := RUNNABLE, p_tickets := 1\<rparr>, 9 := proc0\<lparr>p_state := RUNNABLE, p_tickets := 1000\<rparr>)\<rparr>"
  have l: "(LEAST p. runnable ?s p) = 2"
    by (rule Least_equality) (auto simp: proc0_def split: if_splits)
  have ex: "\<exists>p < NPROC. runnable ?s p" by (rule exI [of _ 2]) simp
  have "0 \<le> sint (seed ?s)" "sint (seed ?s) < 100" "only_lock None ?s"
    "\<forall>p < NPROC. runnable ?s p \<longrightarrow> 0 < sint (p_tickets (procs ?s p))"
    by (simp_all add: idle_def only_lock_def proc0_def)
  from lbs_runs_first [OF this, of "\<lambda>i _. if i = 2 then Stop Spinning else Stop OutOfFuel"] ex l
  show ?thesis by (auto simp: Let_def dispatch_def)
qed

end
