(* ===== verification/Pipespec.thy ===== *)
theory Pipespec
  imports Demo
begin

text \<open>
  Pipes are first-in first-out queues of at most \<^verbatim>\<open>PIPESIZE\<close> bytes. The counters \<^verbatim>\<open>nread\<close> and \<^verbatim>\<open>nwrite\<close>
  run freely and wrap around at \<open>2\<^sup>3\<^sup>2\<close>; the ring buffer is unaffected because \<^verbatim>\<open>PIPESIZE\<close> divides it.
\<close>

declare pipewrite_loop.simps [simp del] piperead_loop.simps [simp del] filealloc_from.simps [simp del]
  filewrite_loop.simps [simp del]

lemma updpi_simps [simp]:
  "pipes (updpi a f s) = (pipes s)(a := f (pipes s a))" "held (updpi a f s) = held s" "mem (updpi a f s) = mem s"
  "procs (updpi a f s) = procs s" "curproc (updpi a f s) = curproc s" "ktmp (updpi a f s) = ktmp s"
  "kend (updpi a f s) = kend s" "freelist (updpi a f s) = freelist s"
  by (simp_all add: updpi_def)

lemma pipes_mem_commute: "s\<lparr>pipes := p, mem := m\<rparr> = s\<lparr>mem := m, pipes := p\<rparr>"
  by (rule kstate.equality) simp_all

section \<open>The ring buffer as a list\<close>

definition pipe_len :: "pipe \<Rightarrow> nat" where
  "pipe_len q = unat (pi_nwrite q - pi_nread q)"

definition pipe_list :: "pipe \<Rightarrow> uchar list" where
  "pipe_list q = map (\<lambda>i. pi_data q (unat (pi_nread q + of_nat i) mod PIPESIZE)) [0..<pipe_len q]"

definition pipe_ok :: "pipe \<Rightarrow> bool" where
  "pipe_ok q \<longleftrightarrow> pipe_len q \<le> PIPESIZE"

text \<open>What one round of \<^verbatim>\<open>pipewrite\<close> and of \<^verbatim>\<open>piperead\<close> does to the pipe.\<close>

definition pipe_put :: "uchar \<Rightarrow> pipe \<Rightarrow> pipe" where
  "pipe_put c q = q\<lparr>pi_data := (pi_data q)(unat (pi_nwrite q) mod PIPESIZE := c), pi_nwrite := pi_nwrite q + 1\<rparr>"

definition pipe_drop :: "nat \<Rightarrow> pipe \<Rightarrow> pipe" where
  "pipe_drop k q = q\<lparr>pi_nread := pi_nread q + of_nat k\<rparr>"

lemma slot_mod: "i \<le> 512 \<Longrightarrow> unat (r + of_nat i :: uint) mod 512 = (unat r + i) mod 512"
proof -
  assume "i \<le> 512"
  then have "unat (of_nat i :: uint) = i" by (intro unat_of_nat_small) simp
  then have "unat (r + of_nat i) = (unat r + i) mod 2 ^ 32" by (simp only: unat_word_ariths) simp
  then show ?thesis by (simp only:) (simp add: mod_mod_cancel)
qed

text \<open>Distinct positions of a window of at most 512 counters fall on distinct slots.\<close>

lemma slot_inj:
  assumes "i < 512" and "j < 512" and "(u + i) mod 512 = (u + j) mod (512 :: nat)"
  shows "i = j"
proof (rule ccontr)
  assume "i \<noteq> j"
  have "512 dvd (u + max i j) - (u + min i j)"
    using assms(3) by (subst mod_eq_dvd_iff_nat [symmetric]) (auto simp: max_def min_def)
  then have "512 dvd max i j - min i j" by simp
  moreover have "0 < max i j - min i j" "max i j - min i j < 512" using assms(1,2) \<open>i \<noteq> j\<close> by (auto simp: max_def min_def)
  ultimately show False using dvd_imp_le by fastforce
qed

lemma pipe_len_put: "pipe_len q < PIPESIZE \<Longrightarrow> pipe_len (pipe_put c q) = Suc (pipe_len q)"
proof -
  assume "pipe_len q < PIPESIZE"
  then have "unat (pi_nwrite q - pi_nread q + 1) = unat (pi_nwrite q - pi_nread q) + 1"
    by (subst unat_add_small) (simp_all add: pipe_len_def)
  then show ?thesis by (simp add: pipe_len_def pipe_put_def algebra_simps)
qed

lemma pipe_list_put:
  assumes "pipe_len q < PIPESIZE"
  shows "pipe_list (pipe_put c q) = pipe_list q @ [c]"
proof (rule nth_equalityI)
  show "length (pipe_list (pipe_put c q)) = length (pipe_list q @ [c])"
    using pipe_len_put [OF assms] by (simp add: pipe_list_def)
  have w: "pi_nwrite q = pi_nread q + of_nat (pipe_len q)" by (simp add: pipe_len_def)
  fix i assume "i < length (pipe_list (pipe_put c q))"
  then have i: "i < Suc (pipe_len q)" using pipe_len_put [OF assms] by (simp add: pipe_list_def)
  have "(unat (pi_nread q) + i) mod 512 = (unat (pi_nread q) + pipe_len q) mod 512 \<longleftrightarrow> i = pipe_len q"
    using slot_inj [of i "pipe_len q"] i assms by auto
  then have "pi_data (pipe_put c q) (unat (pi_nread q + of_nat i) mod 512) =
      (if i = pipe_len q then c else pi_data q (unat (pi_nread q + of_nat i) mod 512))"
    using i assms slot_mod [of i "pi_nread q"] slot_mod [of "pipe_len q" "pi_nread q"]
    by (simp add: pipe_put_def w)
  then show "pipe_list (pipe_put c q) ! i = (pipe_list q @ [c]) ! i"
    using i pipe_len_put [OF assms] by (auto simp: pipe_list_def nth_append pipe_put_def less_Suc_eq)
qed

lemma pipe_drop_list:
  assumes "k \<le> pipe_len q"
  shows "pipe_len (pipe_drop k q) = pipe_len q - k" "pipe_list (pipe_drop k q) = drop k (pipe_list q)"
proof -
  have "k < 2 ^ 32" using assms less_le_trans [OF _ less_imp_le [OF unat_less_32]] by (simp add: pipe_len_def) (meson le_less_trans unat_less_32)
  then have u: "unat (of_nat k :: uint) = k" by (intro unat_of_nat_small) simp
  then have "of_nat k \<le> pi_nwrite q - pi_nread q" using assms by (simp add: word_le_nat_alt pipe_len_def)
  then have "unat (pi_nwrite q - pi_nread q - of_nat k) = pipe_len q - k" using u by (simp add: unat_sub pipe_len_def)
  then show l: "pipe_len (pipe_drop k q) = pipe_len q - k" by (simp add: pipe_len_def pipe_drop_def algebra_simps)
  show "pipe_list (pipe_drop k q) = drop k (pipe_list q)"
    by (rule nth_equalityI) (auto simp: pipe_list_def l, simp add: pipe_drop_def add.assoc)
qed

section \<open>Writing\<close>

lemma killed_eq: "ProcLock p \<notin> held s \<Longrightarrow> killed p s = Ok (p_killed (procs s p), s)"
  by (simp add: killed_def run_simps Let_def)

text \<open>One round of \<^verbatim>\<open>pipewrite\<close> when there is room.\<close>

lemma pipewrite_step:
  assumes "uaccess s a" "a = p_pagetable (procs s pr)" "kdata s (ktmp s) 1" "ProcLock pr \<notin> held s" "p_killed (procs s pr) = 0"
    and "pi_readopen (pipes s pi)" "pipe_len (pipes s pi) < PIPESIZE" "int i < sint n"
    and "umap (mem s) a (vpage (addr + of_nat i))"
  shows "pipewrite_loop fuel others pr pi addr i n s = pipewrite_loop fuel others pr pi addr (Suc i) n
    (updpi pi (pipe_put (mem s (uaddr (mem s) a (addr + of_nat i))))
      (s\<lparr>mem := (mem s)(ktmp s := mem s (uaddr (mem s) a (addr + of_nat i)))\<rparr>))"
proof -
  have "pi_nwrite (pipes s pi) \<noteq> pi_nread (pipes s pi) + of_nat PIPESIZE"
    using assms(7) by (auto simp: pipe_len_def)
  with assms copyin_1 [OF assms(1,3)] show ?thesis
    by (subst pipewrite_loop.simps) (simp add: killed_eq pipe_put_def updpi_def Let_def)
qed

lemma pipewrite_loop_ok:
  assumes "uaccess s a" "a = p_pagetable (procs s pr)" "kdata s (ktmp s) 1" "ProcLock pr \<notin> held s" "p_killed (procs s pr) = 0"
    and "pi_readopen (pipes s pi)" "pipe_len (pipes s pi) + (N - i) \<le> PIPESIZE" "sint n = int N"
    and "urange (mem s) a (addr + of_nat i) (N - i)" "i \<le> N"
  shows "\<exists>m q. pipewrite_loop fuel others pr pi addr i n s = Ok (Some N, s\<lparr>mem := m, pipes := (pipes s)(pi := q)\<rparr>)
    \<and> (\<forall>x. x \<noteq> ktmp s \<longrightarrow> m x = mem s x) \<and> pipe_ok q \<and> pi_readopen q \<and> pi_writeopen q = pi_writeopen (pipes s pi)
    \<and> pipe_list q = pipe_list (pipes s pi) @ map (\<lambda>j. mem s (uaddr (mem s) a (addr + of_nat j))) [i..<N]"
  using assms
proof (induction "N - i" arbitrary: i s)
  case 0
  then have "pipewrite_loop fuel others pr pi addr i n s = Ok (Some N, s)" by (subst pipewrite_loop.simps) simp
  with 0 show ?case by (intro exI [of _ "mem s"] exI [of _ "pipes s pi"]) (auto simp: pipe_ok_def)
next
  case (Suc d)
  note A = Suc.prems
  let ?c = "mem s (uaddr (mem s) a (addr + of_nat i))" let ?m = "(mem s)(ktmp s := ?c)"
  let ?s = "updpi pi (pipe_put ?c) (s\<lparr>mem := ?m\<rparr>)"
  have i: "i < N" "d = N - Suc i" using Suc.hyps(2) by auto
  have um: "umap (mem s) a (vpage (addr + of_nat i))" using urange_first [OF A(9)] i by simp
  have room: "pipe_len (pipes s pi) < PIPESIZE" using A(7) i by simp
  have lf: "leafn ?m a k = leafn (mem s) a k" for k by (rule uaccess_put_kernel(2) [OF A(1,3)])
  note same = uaddr_same [of ?m a "mem s", OF lf]
  have ur: "urange (mem s) a (addr + of_nat (Suc i)) (N - Suc i)"
    using urange_split [OF um, of 1 "N - i"] A(9) i pos_mod_bound [of 4096]
    by (simp add: algebra_simps Suc_le_eq)
  have byte: "?m (uaddr (mem s) a (addr + of_nat j)) = mem s (uaddr (mem s) a (addr + of_nat j))"
    if "Suc i \<le> j" "j < N" for j
  proof -
    have "umap (mem s) a (vpage (addr + of_nat i + of_nat (j - i)))"
      using A(9) [unfolded urange_def, rule_format, of "j - i"] that by linarith
    moreover have "addr + of_nat i + of_nat (j - i) = addr + of_nat j" using that by (simp add: of_nat_diff)
    ultimately show ?thesis using user_byte_not_kdata(1) [OF A(1,3)] by (simp add: in_range_1)
  qed
  obtain m q where m: "pipewrite_loop fuel others pr pi addr (Suc i) n ?s = Ok (Some N, ?s\<lparr>mem := m, pipes := (pipes ?s)(pi := q)\<rparr>)"
    "\<forall>x. x \<noteq> ktmp s \<longrightarrow> m x = ?m x" "pipe_ok q" "pi_readopen q" "pi_writeopen q = pi_writeopen (pipes s pi)"
    "pipe_list q = pipe_list (pipe_put ?c (pipes s pi)) @ map (\<lambda>j. ?m (uaddr ?m a (addr + of_nat j))) [Suc i..<N]"
  proof -
    have "uaccess ?s a" using uaccess_ext [of ?s "s\<lparr>mem := ?m\<rparr>" a] uaccess_put_kernel(1) [OF A(1,3)] by simp
    moreover have "kdata ?s (ktmp ?s) 1" using A(3) by (simp add: kdata_def kpages_def)
    moreover have "pipe_len (pipes ?s pi) + (N - Suc i) \<le> PIPESIZE" using A(7) i(1) pipe_len_put [OF room] by simp
    moreover have "pi_readopen (pipes ?s pi)" "pi_writeopen (pipes ?s pi) = pi_writeopen (pipes s pi)"
      using A(6) by (simp_all add: pipe_put_def)
    ultimately show ?thesis using that Suc.hyps(1) [of "Suc i" ?s] i A(2,4,5,8) ur same(3) by simp blast
  qed
  have "[i..<N] = i # [Suc i..<N]" using i(1) by (rule upt_conv_Cons)
  with m(6) same(1) byte pipe_list_put [OF room, of ?c]
  have "pipe_list q = pipe_list (pipes s pi) @ map (\<lambda>j. mem s (uaddr (mem s) a (addr + of_nat j))) [i..<N]"
    by simp
  moreover have "pipewrite_loop fuel others pr pi addr i n s = Ok (Some N, s\<lparr>mem := m, pipes := (pipes s)(pi := q)\<rparr>)"
    using pipewrite_step [OF A(1-6) room _ um, of n fuel others] m(1) i(1) A(8) by (simp add: updpi_def)
  ultimately show ?case using m(2-5) by (intro exI [of _ m] exI [of _ q]) auto
qed

section \<open>Reading\<close>

lemma pipe_head: "0 < pipe_len q \<Longrightarrow> pi_data q (unat (pi_nread q) mod PIPESIZE) = pipe_list q ! 0"
  by (simp add: pipe_list_def)

lemma pipe_len_0: "pipe_len q = 0 \<longleftrightarrow> pi_nread q = pi_nwrite q"
proof -
  have "unat (pi_nwrite q - pi_nread q) = 0 \<longleftrightarrow> pi_nwrite q - pi_nread q = 0" by (metis unsigned_0 word_unat_eq_iff)
  then show ?thesis by (auto simp: pipe_len_def)
qed

lemma pipe_drop_drop: "pipe_drop j (pipe_drop k q) = pipe_drop (k + j) q"
  by (simp add: pipe_drop_def add.assoc)

lemma pipe_drop_0 [simp]: "pipe_drop 0 q = q"
  by (simp add: pipe_drop_def)

lemma piperead_step:
  assumes "uaccess s a" "a = p_pagetable (procs s pr)" "kdata s (ktmp s) 1" "0 < pipe_len (pipes s pi)" "int i < sint n"
    and "umap (mem s) a (vpage (addr + of_nat i))"
  defines "c \<equiv> pipe_list (pipes s pi) ! 0"
  shows "piperead_loop pr pi addr i n s = piperead_loop pr pi addr (Suc i) n
    (updpi pi (pipe_drop 1) (s\<lparr>mem := (mem s)(ktmp s := c, uaddr (mem s) a (addr + of_nat i) := c)\<rparr>))"
proof -
  let ?s = "(updpi pi (pipe_drop 1) s)\<lparr>mem := (mem s)(ktmp s := c)\<rparr>"
  have ne: "pi_nread (pipes s pi) \<noteq> pi_nwrite (pipes s pi)" using assms(4) by (auto simp: pipe_len_def)
  have lf: "leafn ((mem s)(ktmp s := c)) a k = leafn (mem s) a k" for k by (rule uaccess_put_kernel(2) [OF assms(1,3)])
  note same = uaddr_same [of "(mem s)(ktmp s := c)" a "mem s", OF lf]
  have "uaccess ?s a" using uaccess_ext [of ?s "s\<lparr>mem := (mem s)(ktmp s := c)\<rparr>" a] uaccess_put_kernel(1) [OF assms(1,3)] by simp
  moreover have "kdata ?s (ktmp ?s) 1" using assms(3) by (simp add: kdata_def kpages_def)
  ultimately have "copyout a (addr + of_nat i) (ktmp ?s) 1 ?s =
      Ok (0, ?s\<lparr>mem := (mem s)(ktmp s := c, uaddr (mem s) a (addr + of_nat i) := c)\<rparr>)"
    using assms(6) same(1,2) by (simp add: copyout_1)
  moreover have "pi_data (pipes s pi) (unat (pi_nread (pipes s pi)) mod 512) = c"
    using pipe_head [OF assms(4)] by (simp add: c_def)
  ultimately show ?thesis
    using ne assms(2,5) by (subst piperead_loop.simps) (simp add: Let_def updpi_def pipe_drop_def pipes_mem_commute)
qed

lemma piperead_loop_ok:
  assumes "uaccess s a" "a = p_pagetable (procs s pr)" "kdata s (ktmp s) 1" "pipe_ok (pipes s pi)"
    and "sint n = int n'" "i \<le> N" "N \<le> n'" "N - i \<le> pipe_len (pipes s pi)" "N = n' \<or> N - i = pipe_len (pipes s pi)"
    and "urange (mem s) a (addr + of_nat i) (N - i)"
  shows "\<exists>m. piperead_loop pr pi addr i n s = Ok (N, s\<lparr>mem := m, pipes := (pipes s)(pi := pipe_drop (N - i) (pipes s pi))\<rparr>)
    \<and> (\<forall>x. x \<noteq> ktmp s \<longrightarrow> \<not> utouch (mem s) a (addr + of_nat i) (N - i) x \<longrightarrow> m x = mem s x)
    \<and> (\<forall>j < N - i. m (uaddr (mem s) a (addr + of_nat i + of_nat j)) = pipe_list (pipes s pi) ! j)"
  using assms
proof (induction "N - i" arbitrary: i s)
  case 0
  then have "int i < sint n \<Longrightarrow> pi_nread (pipes s pi) = pi_nwrite (pipes s pi)" by (auto simp: pipe_len_0 [symmetric])
  then have "piperead_loop pr pi addr i n s = Ok (N, s)" using 0 by (subst piperead_loop.simps) auto
  with 0 show ?case by (intro exI [of _ "mem s"]) auto
next
  case (Suc d)
  note A = Suc.prems
  let ?c = "pipe_list (pipes s pi) ! 0" let ?u = "uaddr (mem s) a (addr + of_nat i)"
  let ?m = "(mem s)(ktmp s := ?c, ?u := ?c)" let ?s = "updpi pi (pipe_drop 1) (s\<lparr>mem := ?m\<rparr>)"
  have i: "i < N" "d = N - Suc i" "0 < pipe_len (pipes s pi)" using Suc.hyps(2) A(8) by auto
  have N32: "N < 2 ^ 32" using A(5,7) sint_less [of n] by simp
  have va: "addr + of_nat i + of_nat (Suc j) = addr + of_nat (Suc i) + of_nat j" for j by (simp add: algebra_simps)
  have um: "umap (mem s) a (vpage (addr + of_nat i))" using urange_first [OF A(10)] i by simp
  have u1: "uaccess (s\<lparr>mem := (mem s)(ktmp s := ?c)\<rparr>) a" "leafn ((mem s)(ktmp s := ?c)) a k = leafn (mem s) a k" for k
    by (rule uaccess_put_kernel [OF A(1,3)])+
  have um1: "umap ((mem s)(ktmp s := ?c)) a (vpage (addr + of_nat i))" "uaddr ((mem s)(ktmp s := ?c)) a (addr + of_nat i) = ?u"
    using uaddr_same [of "(mem s)(ktmp s := ?c)" a "mem s", OF u1(2)] um by simp_all
  have u2: "uaccess (s\<lparr>mem := ?m\<rparr>) a" "leafn ?m a k = leafn (mem s) a k" for k
    using uaccess_put_user [OF u1(1), of "addr + of_nat i" ?c] um1 u1(2) by simp_all
  note same = uaddr_same [of ?m a "mem s", OF u2(2)] and tsame = utouch_same [of ?m a "mem s", OF u2(2)]
  have ur: "urange (mem s) a (addr + of_nat (Suc i)) (N - Suc i)"
    using urange_split [OF um, of 1 "N - i"] A(10) i pos_mod_bound [of 4096]
    by (simp add: algebra_simps Suc_le_eq)
  have dl: "pipe_len (pipe_drop 1 (pipes s pi)) = pipe_len (pipes s pi) - 1" "pipe_list (pipe_drop 1 (pipes s pi)) = drop 1 (pipe_list (pipes s pi))"
    using pipe_drop_list [of 1 "pipes s pi"] i(3) by simp_all
  obtain m where m: "piperead_loop pr pi addr (Suc i) n ?s = Ok (N, ?s\<lparr>mem := m, pipes := (pipes ?s)(pi := pipe_drop (N - Suc i) (pipes ?s pi))\<rparr>)"
    "\<forall>x. x \<noteq> ktmp s \<longrightarrow> \<not> utouch (mem s) a (addr + of_nat (Suc i)) (N - Suc i) x \<longrightarrow> m x = ?m x"
    "\<forall>j < N - Suc i. m (uaddr (mem s) a (addr + of_nat (Suc i) + of_nat j)) = pipe_list (pipes s pi) ! Suc j"
  proof -
    have "uaccess ?s a" using uaccess_ext [of ?s "s\<lparr>mem := ?m\<rparr>" a] u2(1) by simp
    moreover have "kdata ?s (ktmp ?s) 1" using A(3) by (simp add: kdata_def kpages_def)
    moreover have "pipe_ok (pipes ?s pi)" "N - Suc i \<le> pipe_len (pipes ?s pi)" "N = n' \<or> N - Suc i = pipe_len (pipes ?s pi)"
      using A(4,8,9) dl(1) i by (auto simp: pipe_ok_def)
    moreover have "j < N - Suc i \<Longrightarrow> drop 1 (pipe_list (pipes s pi)) ! j = pipe_list (pipes s pi) ! Suc j" for j
      using A(8) by (simp add: pipe_list_def)
    ultimately show ?thesis
      using that Suc.hyps(1) [of "Suc i" ?s] i A(2,5,7) ur same(1,3) tsame dl(2) by simp blast
  qed
  have "piperead_loop pr pi addr i n s = Ok (N, s\<lparr>mem := m, pipes := (pipes s)(pi := pipe_drop (N - i) (pipes s pi))\<rparr>)"
    using piperead_step [OF A(1-3) i(3) _ um, of n] m(1) i A(5,7) by (simp add: updpi_def pipe_drop_drop Suc_diff_Suc)
  moreover have "m (uaddr (mem s) a (addr + of_nat i + of_nat j)) = pipe_list (pipes s pi) ! j" if "j < N - i" for j
  proof (cases j)
    case 0
    have "\<not> utouch (mem s) a (addr + of_nat i + of_nat 1) (N - i - 1) (uaddr (mem s) a (addr + of_nat i + of_nat 0))"
      using i(1) um N32 by (intro not_utouch_rest [OF A(1)]) simp_all
    moreover have "?u \<noteq> ktmp s" using user_byte_not_kdata(1) [OF A(1,3) um] by (auto simp: in_range_1)
    ultimately show ?thesis using 0 m(2) by (simp add: algebra_simps)
  next
    case (Suc k)
    then show ?thesis using m(3) that unfolding Suc va by simp
  qed
  moreover have "m x = mem s x" if "x \<noteq> ktmp s" "\<not> utouch (mem s) a (addr + of_nat i) (N - i) x" for x
  proof -
    have "utouch (mem s) a (addr + of_nat i) (N - i) ?u"
      unfolding utouch_def using i(1) um by (intro exI [of _ 0]) simp
    then have "x \<noteq> ?u" using that(2) by blast
    moreover have "\<not> utouch (mem s) a (addr + of_nat (Suc i)) (N - Suc i) x"
      using that(2) utouch_shift [of "mem s" a "addr + of_nat i" 1 "N - i" x] i(1) by (auto simp: algebra_simps Suc_le_eq)
    ultimately show ?thesis using m(2) that(1) by simp
  qed
  ultimately show ?case by blast
qed

section \<open>The operations\<close>

lemma pipewrite_ok:
  assumes "curproc s = Some p" "held s = {}" "a = p_pagetable (procs s p)" "uaccess s a" "kdata s (ktmp s) 1"
    and "p_killed (procs s p) = 0" "pi_readopen (pipes s pi)" "pipe_len (pipes s pi) + N \<le> PIPESIZE" "sint n = int N"
    and "urange (mem s) a addr N"
  shows "\<exists>m q P. pipewrite E pi addr n s = Ok (n, s\<lparr>procs := P, mem := m, pipes := (pipes s)(pi := q)\<rparr>)
    \<and> (\<forall>x. x \<noteq> ktmp s \<longrightarrow> m x = mem s x) \<and> pipe_ok q
    \<and> (\<forall>i. P i = procs s i \<or> P i = (procs s i)\<lparr>p_state := RUNNABLE\<rparr>)
    \<and> pipe_list q = pipe_list (pipes s pi) @ map (\<lambda>j. mem s (uaddr (mem s) a (addr + of_nat j))) [0..<N]"
proof -
  let ?s = "s\<lparr>held := {PipeLock pi}\<rparr>"
  have "uaccess ?s a" "kdata ?s (ktmp ?s) 1"
    using assms(2,4,5) uaccess_ext [of ?s s a] by (simp_all add: kdata_def kpages_def)
  then obtain m q where m: "pipewrite_loop (fst E) (snd E) p pi addr 0 n ?s = Ok (Some N, ?s\<lparr>mem := m, pipes := (pipes s)(pi := q)\<rparr>)"
    "\<forall>x. x \<noteq> ktmp s \<longrightarrow> m x = mem s x" "pipe_ok q"
    "pipe_list q = pipe_list (pipes s pi) @ map (\<lambda>j. mem s (uaddr (mem s) a (addr + of_nat j))) [0..<N]"
    using pipewrite_loop_ok [of ?s a p pi N 0 n addr "fst E" "snd E"] assms(3,6-10) by auto
  have n: "of_nat N = n" using arg_cong [OF assms(9), of "of_int :: int \<Rightarrow> cint"] by simp
  let ?t = "?s\<lparr>mem := m, pipes := (pipes s)(pi := q)\<rparr>"
  have nl: "no_proc_lock ?t" by (simp add: no_proc_lock_def)
  obtain P where P: "wakeup (ChPipeRead pi) ?t = Ok (?t\<lparr>procs := P\<rparr>)"
    "\<And>i. P i = procs ?t i \<or> P i = (procs ?t i)\<lparr>p_state := RUNNABLE\<rparr>" using wakeup_some [OF nl] by blast
  have "pipewrite E pi addr n s = Ok (n, ?t\<lparr>procs := P, held := {}\<rparr>)"
    using m(1) assms(1,2) n P(1) by (simp add: pipewrite_def myproc_def run_simps)
  moreover have "?t\<lparr>procs := P, held := {}\<rparr> = s\<lparr>procs := P, mem := m, pipes := (pipes s)(pi := q)\<rparr>"
    by (rule kstate.equality) (use assms(2) in simp_all)
  ultimately show ?thesis using m(2-4) P(2) by (intro exI [of _ m] exI [of _ q] exI [of _ P]) simp
qed

lemma piperead_ok:
  assumes "curproc s = Some p" "held s = {}" "a = p_pagetable (procs s p)" "uaccess s a" "kdata s (ktmp s) 1"
    and "pipe_ok (pipes s pi)" "pipe_len (pipes s pi) = N" "0 < N" "sint n = int N"
    and "urange (mem s) a addr N"
  shows "\<exists>m P. piperead E pi addr n s = Ok (n, s\<lparr>procs := P, mem := m, pipes := (pipes s)(pi := pipe_drop N (pipes s pi))\<rparr>)
    \<and> (\<forall>j < N. m (uaddr (mem s) a (addr + of_nat j)) = pipe_list (pipes s pi) ! j)"
proof -
  let ?s = "s\<lparr>held := {PipeLock pi}\<rparr>" let ?q = "pipe_drop N (pipes s pi)"
  have "uaccess ?s a" "kdata ?s (ktmp ?s) 1"
    using assms(2,4,5) uaccess_ext [of ?s s a] by (simp_all add: kdata_def kpages_def)
  then obtain m where m: "piperead_loop p pi addr 0 n ?s = Ok (N, ?s\<lparr>mem := m, pipes := (pipes s)(pi := ?q)\<rparr>)"
    "\<forall>j < N. m (uaddr (mem s) a (addr + of_nat j)) = pipe_list (pipes s pi) ! j"
    using piperead_loop_ok [of ?s a p pi n N 0 N addr] assms(3,6-10) by auto
  have n: "of_nat N = n" using arg_cong [OF assms(9), of "of_int :: int \<Rightarrow> cint"] by simp
  have ne: "pi_nread (pipes s pi) \<noteq> pi_nwrite (pipes s pi)" using assms(7,8) pipe_len_0 [of "pipes s pi"] by simp
  let ?t = "?s\<lparr>mem := m, pipes := (pipes s)(pi := ?q)\<rparr>"
  have nl: "no_proc_lock ?t" by (simp add: no_proc_lock_def)
  obtain P where P: "wakeup (ChPipeWrite pi) ?t = Ok (?t\<lparr>procs := P\<rparr>)" using wakeup_some [OF nl] by blast
  have "piperead E pi addr n s = Ok (n, ?t\<lparr>procs := P, held := {}\<rparr>)"
    using m(1) assms(1,2) n ne P by (simp add: piperead_def myproc_def run_simps)
  moreover have "?t\<lparr>procs := P, held := {}\<rparr> = s\<lparr>procs := P, mem := m, pipes := (pipes s)(pi := ?q)\<rparr>"
    by (rule kstate.equality) (use assms(2) in simp_all)
  ultimately show ?thesis using m(2) by (intro exI [of _ m] exI [of _ P]) simp
qed

text \<open>
  C12: what one process writes to a pipe another process reads, in order and unchanged. If there is
  room for the \<open>N\<close> bytes, \<^verbatim>\<open>pipewrite\<close> returns \<open>N\<close> without sleeping, whatever the values of the two
  counters; a \<^verbatim>\<open>piperead\<close> of everything in the pipe then delivers to the reader's buffer first the
  bytes that were already there and then the writer's, and leaves the pipe empty.
\<close>

theorem pipe_transfers:
  fixes s :: "'a kstate_scheme"
  assumes "curproc s = Some w" "held s = {}" "kdata s (ktmp s) 1"
    and "uaccess s (p_pagetable (procs s w))" "p_killed (procs s w) = 0" "urange (mem s) (p_pagetable (procs s w)) src N"
    and "uaccess s (p_pagetable (procs s r))" "urange (mem s) (p_pagetable (procs s r)) dst (pipe_len (pipes s pi) + N)"
    and "pi_readopen (pipes s pi)" "pipe_len (pipes s pi) + N \<le> PIPESIZE" "0 < N"
  shows "\<exists>t u. pipewrite E pi src (of_nat N) s = Ok (of_nat N, t) \<and>
    piperead E' pi dst (of_nat (pipe_len (pipes s pi) + N)) (t\<lparr>curproc := Some r\<rparr>) = Ok (of_nat (pipe_len (pipes s pi) + N), u) \<and>
    map (\<lambda>j. mem u (uaddr (mem s) (p_pagetable (procs s r)) (dst + of_nat j))) [0..<pipe_len (pipes s pi) + N]
      = pipe_list (pipes s pi) @ map (\<lambda>j. mem s (uaddr (mem s) (p_pagetable (procs s w)) (src + of_nat j))) [0..<N]
    \<and> pipe_list (pipes u pi) = []"
proof -
  let ?w = "p_pagetable (procs s w)" and ?r = "p_pagetable (procs s r)" and ?L = "pipe_len (pipes s pi) + N"
  have n: "sint (of_nat k :: cint) = int k" if "k \<le> PIPESIZE" for k
    using that by (subst signed_of_nat) (simp add: signed_take_bit_int_eq_self)
  have N: "sint (of_nat N :: cint) = int N" "sint (of_nat ?L :: cint) = int ?L" using assms(10) by (intro n; simp)+
  obtain m q P where t: "pipewrite E pi src (of_nat N) s = Ok (of_nat N, s\<lparr>procs := P, mem := m, pipes := (pipes s)(pi := q)\<rparr>)"
    "\<forall>x. x \<noteq> ktmp s \<longrightarrow> m x = mem s x" "pipe_ok q" "\<forall>i. P i = procs s i \<or> P i = (procs s i)\<lparr>p_state := RUNNABLE\<rparr>"
    "pipe_list q = pipe_list (pipes s pi) @ map (\<lambda>j. mem s (uaddr (mem s) ?w (src + of_nat j))) [0..<N]"
    using pipewrite_ok [OF assms(1,2) refl assms(4,3,5,9,10) N(1) assms(6), of E] by blast
  let ?t = "s\<lparr>procs := P, mem := m, pipes := (pipes s)(pi := q), curproc := Some r\<rparr>"
  have pt: "p_pagetable (procs ?t r) = ?r" using spec [OF t(4), of r] by auto
  have len: "pipe_len q = ?L" using arg_cong [OF t(5), of length] by (simp add: pipe_list_def)
  have mk: "\<And>x. \<not> in_range x (ktmp s) 1 \<Longrightarrow> m x = mem s x" using t(2) by (auto simp: in_range_1)
  note U = uaccess_kdata [OF assms(7,3) mk]
  have u: "uaccess ?t ?r" using U(2) uaccess_ext [of ?t "s\<lparr>mem := m\<rparr>" ?r] by simp
  have kd: "kdata ?t (ktmp ?t) 1" using assms(3) by (simp add: kdata_def kpages_def)
  have lf: "leafn m ?r k = leafn (mem s) ?r k" for k by (rule U(3))
  note same = uaddr_same [of m ?r "mem s", OF lf]
  obtain m' P' where r: "piperead E' pi dst (of_nat ?L) ?t =
      Ok (of_nat ?L, ?t\<lparr>procs := P', mem := m', pipes := (pipes ?t)(pi := pipe_drop ?L q)\<rparr>)"
    "\<forall>j < ?L. m' (uaddr m ?r (dst + of_nat j)) = pipe_list q ! j"
    using piperead_ok [of ?t r ?r pi ?L "of_nat ?L" dst E'] assms(2,8,11) u kd pt t(3) len N(2) same(3) by auto
  have "map (\<lambda>j. m' (uaddr (mem s) ?r (dst + of_nat j))) [0..<?L] = pipe_list q"
    using r(2) len same(1) by (intro nth_equalityI) (simp_all add: pipe_list_def)
  moreover have "pipe_list (pipe_drop ?L q) = []" using pipe_drop_list(2) [of ?L q] len by (simp add: pipe_list_def)
  ultimately show ?thesis using t(1,5) r(1) by (intro exI) (rule conjI, assumption, rule conjI, assumption, simp)
qed

theorem pipe_transfers_witness:
  "\<exists>t u. pipewrite (0, Ok) 7 0x10 (of_nat 3) (umach\<lparr>pipes := (\<lambda>_. pipe0\<lparr>pi_nread := -2, pi_nwrite := -2\<rparr>)\<rparr>) = Ok (of_nat 3, t) \<and>
    piperead (0, Ok) 7 0x20 (of_nat 3) (t\<lparr>curproc := Some 1\<rparr>) = Ok (of_nat 3, u) \<and> pipe_list (pipes u 7) = []"
proof -
  let ?s = "umach\<lparr>pipes := (\<lambda>_. pipe0\<lparr>pi_nread := -2, pi_nwrite := -2\<rparr>)\<rparr>"
  have u: "uaccess ?s 0x80108000" using umach_space(1) uaccess_ext [of ?s umach] by simp
  have kd: "kdata ?s (ktmp ?s) 1" by (rule kdata_low) simp_all
  have l: "pipe_len (pipes ?s 7) = 0" by (simp add: pipe_len_def)
  have pt: "p_pagetable (procs ?s 0) = 0x80108000" "p_pagetable (procs ?s 1) = 0x80108000" "p_killed (procs ?s 0) = 0"
    by (simp_all add: proc0_def)
  from pipe_transfers [of ?s 0 "0x10" 3 1 "0x20" 7 "(0, Ok)" "(0, Ok)"] u kd l pt umach_range [of "0x10" 3] umach_range [of "0x20" 3]
  show ?thesis by (auto simp: pipe0_def)
qed

end
