(* ===== verification/Trapspec.thy ===== *)
theory Trapspec
  imports Demo
begin

text \<open>
  The timer alarm of \<^verbatim>\<open>sigalarm\<close> and \<^verbatim>\<open>sigreturn\<close>: the registers saved when the handler is entered are
  the ones the program continues with, whatever the handler does to its own, with the exception
  of \<^verbatim>\<open>a0\<close>.
\<close>

section \<open>Loads from copied and overwritten memory\<close>

lemma load64_blit:
  "unat (a - d) + 8 \<le> k \<Longrightarrow> k \<le> 2 ^ 64 \<Longrightarrow> load64 (blit m d src x k) a = load64 src (x + (a - d))"
  unfolding load64_def by (rule load_le_blit)

lemma load64_store64_offset:
  assumes "unat off + 8 \<le> unat off' \<or> unat off' + 8 \<le> unat off" "unat off + 8 \<le> 288" "unat off' + 8 \<le> 288"
  shows "load64 (store64 m (a + off') v) (a + off) = load64 m (a + off)"
proof (rule load64_store64_far)
  show "8 \<le> unat (a + off - (a + off'))" "8 \<le> unat (a + off' - (a + off))"
    using assms by (auto simp: unat_sub_if')
qed

text \<open>Two trap frames that do not overlap.\<close>

definition frames_apart :: "uint64 \<Rightarrow> uint64 \<Rightarrow> bool" where
  "frames_apart d e \<longleftrightarrow> (\<forall>x. in_range x d tf_size \<longrightarrow> \<not> in_range x e tf_size)"

lemma in_frame: "in_range x (d + off) 8 \<Longrightarrow> unat off + 8 \<le> tf_size \<Longrightarrow> in_range x d tf_size"
  by (erule in_range_sub) simp

lemma load64_store64_apart:
  assumes "frames_apart d e" "unat off + 8 \<le> tf_size" "unat off' + 8 \<le> tf_size"
  shows "load64 (store64 m (d + off) v) (e + off') = load64 m (e + off')"
  using assms in_frame [of _ d off] in_frame [of _ e off']
  by (intro load64_store64_other) (auto simp: frames_apart_def)

section \<open>The alarm\<close>

text \<open>An offset of \<^verbatim>\<open>struct trapframe\<close> that \<^verbatim>\<open>restore\<close> takes from the saved copy.\<close>

definition saved_off :: "uint64 \<Rightarrow> bool" where
  "saved_off off \<longleftrightarrow> unat off mod 8 = 0 \<and> unat off + 8 \<le> tf_size
     \<and> off \<notin> {tf_kernel_satp, tf_kernel_sp, tf_kernel_trap, tf_kernel_hartid}"

lemma saved_off_apart:
  assumes "saved_off off" and "k \<in> {tf_kernel_satp, tf_kernel_sp, tf_kernel_trap, tf_kernel_hartid}"
  shows "unat off + 8 \<le> unat k \<or> unat k + 8 \<le> unat off" "unat k + 8 \<le> 288"
proof -
  have "unat off \<noteq> unat k" "unat k mod 8 = 0"
    using assms by (auto simp: saved_off_def word_unat_eq_iff)
  moreover have "unat off mod 8 = 0" using assms(1) by (simp add: saved_off_def)
  ultimately show "unat off + 8 \<le> unat k \<or> unat k + 8 \<le> unat off" by presburger
  show "unat k + 8 \<le> 288" using assms(2) by auto
qed

lemma restore_saved:
  assumes "curproc s = Some p" and "saved_off off"
  shows "\<exists>t. restore s = Ok t \<and> procs t = procs s \<and> curproc t = curproc s
    \<and> tf_get p off t = load64 (mem s) (p_trapframe_copy (procs s p) + off)"
proof -
  let ?t = "p_trapframe (procs s p)" and ?c = "p_trapframe_copy (procs s p)"
  have o: "unat off + 8 \<le> 288" using assms(2) by (simp add: saved_off_def)
  have other: "load64 (store64 m (?c + k) v) (?c + off) = load64 m (?c + off)"
    if "k \<in> {tf_kernel_satp, tf_kernel_sp, tf_kernel_trap, tf_kernel_hartid}" for m k v
    using saved_off_apart [OF assms(2) that] o by (intro load64_store64_offset)
  have "load64 (store64 m ?c v) (?c + off) = load64 m (?c + off)" "load64 (store64 m (?c + 8) v) (?c + off) = load64 m (?c + off)"
    "load64 (store64 m (?c + 16) v) (?c + off) = load64 m (?c + off)" "load64 (store64 m (?c + 32) v) (?c + off) = load64 m (?c + off)" for m v
    using other [of 0] other [of 8] other [of 16] other [of 32] by simp_all
  with assms(1) o show ?thesis
    by (simp add: restore_def myproc_def Let_def tf_get_def tf_copy_def load64_blit)
qed

lemma alarm_saves:
  assumes "0 < sint (p_tickss (procs s p))" "sint (p_tickss (procs s p)) \<le> sint (p_now_ticks (procs s p) + 1)"
    and "p_is_sigalarm (procs s p) = 0" "frames_apart (p_trapframe (procs s p)) (p_trapframe_copy (procs s p))"
    and "unat off + 8 \<le> tf_size"
  shows "load64 (mem (alarm_tick p s)) (p_trapframe_copy (procs s p) + off) = tf_get p off s"
    "tf_get p tf_epc (alarm_tick p s) = p_handler (procs s p)"
  using assms load64_store64_apart [OF assms(4), of tf_epc off]
  by (simp_all add: alarm_tick_def Let_def tf_set_def tf_get_def tf_copy_def load64_blit)

text \<open>Register slots of a trap frame are independent.\<close>

lemma tf_get_set:
  assumes "unat off + 8 \<le> tf_size" "unat off mod 8 = 0" and "unat k mod 8 = 0" "unat k + 8 \<le> tf_size"
  shows "tf_get p off (tf_set p k x u) = (if off = k then x else tf_get p off u)"
proof (cases "off = k")
  case True
  then show ?thesis by (simp add: tf_get_def tf_set_def)
next
  case False
  then have "unat off \<noteq> unat k" by (simp add: word_unat_eq_iff)
  then have "unat off + 8 \<le> unat k \<or> unat k + 8 \<le> unat off" using assms(2,3) by presburger
  then show ?thesis using False assms(1,4) by (simp add: tf_get_def tf_set_def load64_store64_offset)
qed

lemma trace_sigreturn: "trace_line p 27 args w = Stop (Fault ''syscall_names index'')"
  by (simp add: trace_line_def syscall_names_def)

lemma syscall_sigreturn:
  assumes "curproc t = Some p" and "ucast (tf_get p tf_a7 t) = (27 :: cint)" and "sys_sigreturn t = Ok (0, u)"
    and "p_mask (procs (tf_set p tf_a0 0 u) p) = p_mask (procs t p)"
  shows "syscall E junk t = (if p_mask (procs t p) AND push_bit 27 1 = 0 then Ok (tf_set p tf_a0 0 u)
      else Stop (Fault ''syscall_names index''))"
proof -
  have "syscalls E junk 27 t = Ok (0, u)" using assms(3) by (simp add: syscalls_def)
  moreover have "length syscallnum = 28" by (simp add: syscallnum_def)
  ultimately show ?thesis using assms(1,2,4) by (simp add: syscall_def myproc_def Let_def trace_sigreturn)
qed

text \<open>
  C19: a timer alarm is transparent to the interrupted program except for \<^verbatim>\<open>a0\<close>. When the alarm goes off
  the program continues in the handler; if the handler leaves the saved copy alone, which it
  cannot reach, and then makes the system call \<^verbatim>\<open>sigreturn\<close>, number 27, \<^verbatim>\<open>sys_sigreturn\<close> restores every user register
  and the program counter as they were at the moment of the alarm, whatever the handler did to them. The dispatcher
  \<^verbatim>\<open>syscall\<close> then stores its result 0 in \<^verbatim>\<open>a0\<close>, so the program continues with \<^verbatim>\<open>a0\<close> lost and everything else intact;
  and if the call is traced, it reads outside the table of names.
\<close>

theorem alarm_transparent:
  fixes s :: "'a tstate_scheme"
  assumes "0 < sint (p_tickss (procs s p))" "sint (p_tickss (procs s p)) \<le> sint (p_now_ticks (procs s p) + 1)"
    and "p_is_sigalarm (procs s p) = 0" "frames_apart (p_trapframe (procs s p)) (p_trapframe_copy (procs s p))"
    and "curproc t = Some p" "p_trapframe (procs t p) = p_trapframe (procs s p)"
    and "p_trapframe_copy (procs t p) = p_trapframe_copy (procs s p)"
    and "\<And>x. in_range x (p_trapframe_copy (procs s p)) tf_size \<Longrightarrow> mem t x = mem (alarm_tick p s) x"
    and "saved_off off" and "ucast (tf_get p tf_a7 t) = (27 :: cint)"
  shows "tf_get p tf_epc (alarm_tick p s) = p_handler (procs s p)
    \<and> (\<exists>u. sys_sigreturn t = Ok (0, u) \<and> tf_get p off u = tf_get p off s)
    \<and> (if p_mask (procs t p) AND push_bit 27 1 = 0
       then \<exists>u. syscall E junk t = Ok u \<and> tf_get p off u = (if off = tf_a0 then 0 else tf_get p off s)
       else syscall E junk t = Stop (Fault ''syscall_names index''))"
proof -
  have o: "unat off + 8 \<le> tf_size" "unat off mod 8 = 0" using assms(9) by (simp_all add: saved_off_def)
  note S = alarm_saves [OF assms(1-4) o(1)]
  obtain v where v: "restore t = Ok v" "procs v = procs t" "curproc v = curproc t"
    "tf_get p off v = load64 (mem t) (p_trapframe_copy (procs t p) + off)"
    using restore_saved [OF assms(5,9)] by blast
  have "load64 (mem t) (p_trapframe_copy (procs s p) + off) = load64 (mem (alarm_tick p s)) (p_trapframe_copy (procs s p) + off)"
    by (rule load64_cong) (use assms(8) in_frame [OF _ o(1)] in blast)
  with S(1) v(4) assms(7) have g: "tf_get p off v = tf_get p off s" by simp
  define u where "u = updp p (\<lambda>q. q\<lparr>p_is_sigalarm := 0\<rparr>) v"
  have u: "sys_sigreturn t = Ok (0, u)" using v(1,3) assms(5) by (simp add: sys_sigreturn_def myproc_def u_def)
  have gu: "tf_get p off u = tf_get p off s" using g by (simp add: tf_get_def u_def)
  have um: "p_mask (procs (tf_set p tf_a0 0 u) p) = p_mask (procs t p)" using v(2) by (simp add: u_def tf_set_def)
  have a0: "tf_get p off (tf_set p tf_a0 0 u) = (if off = tf_a0 then 0 else tf_get p off s)"
    using tf_get_set [OF o, of tf_a0 p 0 u] gu by simp
  have "syscall E junk t = (if p_mask (procs t p) AND push_bit 27 1 = 0 then Ok (tf_set p tf_a0 0 u)
      else Stop (Fault ''syscall_names index''))"
    by (rule syscall_sigreturn [OF assms(5,10) u um])
  then show ?thesis using S(2) u gu a0 by auto
qed

text \<open>An alarm after one tick; the handler, meanwhile, has overwritten \<^verbatim>\<open>sp\<close>.\<close>

definition alarm_demo :: tstate where
  "alarm_demo = busy\<lparr>procs := (\<lambda>_. proc0\<lparr>p_trapframe := 0x80108000, p_trapframe_copy := 0x80109000,
     p_tickss := 1, p_handler := 0x40\<rparr>), mem := store64 (mem busy) 0x80108030 0x3000\<rparr>"

theorem alarm_transparent_witness:
  "\<exists>u. syscall (0, \<lambda>_. Stop Spinning) (0, 0) (tf_set 0 tf_a7 27 (tf_set 0 tf_sp 0x999 (alarm_tick 0 alarm_demo))) = Ok u
     \<and> tf_get 0 tf_sp u = 0x3000"
proof -
  let ?s = alarm_demo
  define t where "t = tf_set 0 tf_a7 27 (tf_set 0 tf_sp 0x999 (alarm_tick 0 ?s))"
  have pr: "procs ?s 0 = proc0\<lparr>p_trapframe := 0x80108000, p_trapframe_copy := 0x80109000, p_tickss := 1, p_handler := 0x40\<rparr>"
    by (simp add: alarm_demo_def)
  have ap: "frames_apart 0x80108000 0x80109000"
  proof -
    have "\<not> (in_range x 0x80108000 288 \<and> in_range x 0x80109000 288)" for x
      using pages_disjoint [of "0x80108000" "0x80109000" x] in_range_mono [of x "0x80108000" 288 4096]
        in_range_mono [of x "0x80109000" 288 4096] by (auto simp: page_aligned_def)
    then show "frames_apart 0x80108000 0x80109000" by (auto simp: frames_apart_def)
  qed
  have al: "procs (alarm_tick 0 ?s) 0 = (procs ?s 0)\<lparr>p_now_ticks := 0, p_is_sigalarm := 1\<rparr>" "curproc (alarm_tick 0 ?s) = Some 0"
    "p_trapframe (procs (alarm_tick 0 ?s) 0) = 0x80108000"
    by (simp_all add: pr proc0_def alarm_tick_def Let_def tf_set_def tf_copy_def) (simp add: alarm_demo_def busy_def)
  have t: "procs t = procs (alarm_tick 0 ?s)" "curproc t = Some 0"
    "mem t = store64 (store64 (mem (alarm_tick 0 ?s)) (0x80108000 + tf_sp) 0x999) (0x80108000 + tf_a7) 27"
    using al by (simp_all add: t_def tf_set_def)
  have same: "mem t x = mem (alarm_tick 0 ?s) x" if "in_range x 0x80109000 tf_size" for x
  proof -
    have "\<not> in_range x (0x80108000 + tf_sp) 8" "\<not> in_range x (0x80108000 + tf_a7) 8"
      using that ap in_frame [of x "0x80108000" tf_sp] in_frame [of x "0x80108000" tf_a7] by (auto simp: frames_apart_def)
    then show ?thesis using t(3) by (simp add: store64_outside)
  qed
  have a7: "ucast (tf_get 0 tf_a7 t) = (27 :: cint)" using al t by (simp add: tf_get_def)
  have m: "p_mask (procs t 0) = 0" using al t pr by (simp add: proc0_def)
  have sp: "tf_get 0 tf_sp ?s = 0x3000" by (simp add: tf_get_def pr) (simp add: alarm_demo_def)
  have k: "0 < sint (p_tickss (procs ?s 0))" "sint (p_tickss (procs ?s 0)) \<le> sint (p_now_ticks (procs ?s 0) + 1)"
    "p_is_sigalarm (procs ?s 0) = 0" "p_trapframe (procs ?s 0) = 0x80108000" "p_trapframe_copy (procs ?s 0) = 0x80109000"
    "p_trapframe (procs t 0) = 0x80108000" "p_trapframe_copy (procs t 0) = 0x80109000"
    using al(1) by (simp_all add: t(1) pr proc0_def)
  have so: "saved_off tf_sp" by (simp add: saved_off_def)
  have "if p_mask (procs t 0) AND push_bit 27 1 = 0
       then \<exists>u. syscall (0, \<lambda>_. Stop Spinning) (0, 0) t = Ok u \<and> tf_get 0 tf_sp u = (if tf_sp = tf_a0 then 0 else tf_get 0 tf_sp ?s)
       else syscall (0, \<lambda>_. Stop Spinning) (0, 0) t = Stop (Fault ''syscall_names index'')"
    using alarm_transparent [OF k(1-3) _ t(2) _ _ _ so a7, where E = "(0, \<lambda>_. Stop Spinning)" and junk = "(0, 0)"]
      ap same unfolding k(4-7) by blast
  then show ?thesis using m sp unfolding t_def [symmetric] by simp
qed

end
