(* ===== verification/Growspec.thy ===== *)
theory Growspec
  imports Demo
begin

text \<open>
  Growing and shrinking the memory of a process (\<^verbatim>\<open>growproc\<close>, behind \<^verbatim>\<open>sbrk\<close>) and copying it for a
  child (\<^verbatim>\<open>uvmcopy\<close>, behind \<^verbatim>\<open>fork\<close>).
\<close>

section \<open>An address space fits in physical memory\<close>

lemma card_kpages: "finite (kpages s)" "kmem_inv s \<Longrightarrow> card (kpages s) \<le> 32768"
proof -
  show "finite (kpages s)" by (rule finite)
  assume "kmem_inv s"
  then have k: "KERNBASE \<le> kend s" by (auto simp: kmem_inv_def kmem_ok_def)
  have "kpages s \<subseteq> (\<lambda>i. of_nat (4096 * (524288 + i))) ` {..<32768}"
  proof
    fix p assume "p \<in> kpages s"
    then have p: "unat p mod 4096 = 0" "unat (kend s) \<le> unat p" "unat p < 0x88000000"
      by (auto simp: kpages_def kpage_def page_aligned_unat word_le_nat_alt word_less_nat_alt)
    then have "0x80000000 \<le> unat p" using k by (simp add: word_le_nat_alt)
    with p have "unat p = 4096 * (524288 + (unat p div 4096 - 524288))" "unat p div 4096 - 524288 < 32768" by auto
    moreover have "p = of_nat (unat p)" by simp
    ultimately show "p \<in> (\<lambda>i. of_nat (4096 * (524288 + i))) ` {..<32768}" by (metis image_eqI lessThan_iff)
  qed
  then have "card (kpages s) \<le> card ((\<lambda>i. of_nat (4096 * (524288 + i)) :: uint64) ` {..<32768})"
    by (intro card_mono) auto
  also have "\<dots> \<le> card {..<32768 :: nat}" by (rule card_image_le) simp
  finally show "card (kpages s) \<le> 32768" by simp
qed

lemma uspace_small: "uspace s a n \<Longrightarrow> n \<le> 32768"
proof -
  assume u: "uspace s a n"
  then have "frame (mem s) a ` {..<n} \<subseteq> kpages s" "inj_on (frame (mem s) a) {..<n}" "kmem_inv s"
    by (auto simp: uspace_def vm_inv_def)
  then have "n \<le> card (kpages s)" "kmem_inv s"
    using card_mono [OF card_kpages(1), of "frame (mem s) a ` {..<n}" s] by (simp_all add: card_image)
  with card_kpages(2) [of s] show ?thesis by simp
qed

section \<open>growproc\<close>

lemma uspace_procs:
  assumes "mem t = mem s" "freelist t = freelist s" "kend t = kend s" "KmemLock \<in> held t \<longleftrightarrow> KmemLock \<in> held s"
  shows "uspace t a n = uspace s a n" "free_pages t = free_pages s" "owned t a n = owned s a n"
proof -
  have "kmem_ok t = kmem_ok s" using assms by (intro ext) (simp add: kmem_ok_def)
  then have "kmem_inv t = kmem_inv s" "free_pages t = free_pages s" "kpages t = kpages s"
    using assms by (simp_all add: kmem_inv_def free_pages_def kpages_def)
  then show "uspace t a n = uspace s a n" "free_pages t = free_pages s" "owned t a n = owned s a n"
    using assms(1) by (simp_all add: uspace_def vm_inv_def owned_def)
qed

lemma unat_scast_pos: "0 \<le> sint (n :: cint) \<Longrightarrow> unat (scast n :: uint64) = nat (sint n)"
proof -
  assume "0 \<le> sint n"
  then have e: "(scast n :: uint64) = of_nat (nat (sint n))" by simp
  have "nat (sint n) < 2 ^ 64" using sint_less [of n] by simp
  then show ?thesis unfolding e by (intro unat_of_nat_small) simp
qed

text \<open>
  C6: \<^verbatim>\<open>growproc\<close> keeps the memory of the process in step with its size. It never panics; after it the
  page table maps exactly the pages below the recorded size, and no physical page is lost. Growing
  either succeeds with the requested size or returns \<open>-1\<close> and changes neither size nor contents;
  shrinking by more than the size leaves the size as it is.
\<close>

theorem growproc_keeps_space:
  fixes s :: "'a pstate_scheme"
  assumes "curproc s = Some p" and "uspace s (p_pagetable (procs s p)) (npg (p_sz (procs s p)))"
  defines "a \<equiv> p_pagetable (procs s p)" and "sz \<equiv> p_sz (procs s p)"
  shows "\<exists>r t. growproc n s = Ok (r, t) \<and> p_pagetable (procs t p) = a \<and> uspace t a (npg (p_sz (procs t p)))
    \<and> owned t a (npg (p_sz (procs t p))) \<union> free_pages t = owned s a (npg sz) \<union> free_pages s
    \<and> (r = 0 \<and> p_sz (procs t p) = (if sint n < 0 \<and> sz \<le> sz + scast n then sz else sz + scast n)
       \<or> r = -1 \<and> 0 < sint n \<and> p_sz (procs t p) = sz \<and> uext a (npg sz) s t)"
proof -
  note us = assms(2) [folded a_def sz_def]
  have np: "npg sz \<le> 32768" by (rule uspace_small [OF us])
  have up: "uspace (updp p f t) a k = uspace t a k" "free_pages (updp p f t) = free_pages t" "owned (updp p f t) a k = owned t a k"
    for f k and t :: "'a pstate_scheme" using uspace_procs [of "updp p f t" t] by auto
  consider (grow) "0 < sint n" | (shrink) "sint n < 0" | (none) "sint n = 0" by linarith
  then show ?thesis
  proof cases
    case grow
    have b: "unat sz \<le> 4096 * 32768" using np by (simp add: npg_def)
    have n: "unat (scast n :: uint64) = nat (sint n)" "sint n < 2 ^ 31" using grow unat_scast_pos [of n] sint_less [of n] by auto
    then have sum: "unat (sz + scast n) = unat sz + nat (sint n)" using b by (subst unat_add_small) simp_all
    have le: "sz \<le> sz + scast n" "sz + scast n \<noteq> 0" using sum grow by (auto simp: word_le_nat_alt word_unat_eq_iff)
    have top: "npg (sz + scast n) \<le> utop" using sum b n(2) by (simp add: npg_def)
    have perm: "unat (scast (ucast PTE_W :: cint) :: uint64) < 2 ^ 10" by simp
    obtain r t where t: "uvmalloc a sz (sz + scast n) (ucast PTE_W) s = Ok (r, t)" "uext a (npg sz) s t"
      "r = sz + scast n \<and> uspace t a (npg (sz + scast n)) \<and> owned t a (npg (sz + scast n)) \<union> free_pages t = owned s a (npg sz) \<union> free_pages s
       \<or> r = 0 \<and> uspace t a (npg sz) \<and> owned t a (npg sz) \<union> free_pages t = owned s a (npg sz) \<union> free_pages s"
      using uvmalloc_pages [OF us le(1) top perm] by blast
    have sr: "same_rest s t" using t(2) by (simp add: uext_def)
    have pr: "procs t = procs s" using same_rest_proc(1) [OF sr] .
    let ?t = "if r = 0 then t else updp p (\<lambda>q. q\<lparr>p_sz := r\<rparr>) t"
    have "growproc n s = Ok (if r = 0 then -1 else 0, ?t)"
      using assms(1) grow t(1) by (simp add: growproc_def myproc_def Let_def a_def [symmetric] sz_def [symmetric])
    then show ?thesis
      using t(2,3) le grow pr up by (intro exI [of _ "if r = 0 then -1 else 0"] exI [of _ ?t]) (auto simp: a_def [symmetric] sz_def [symmetric])
  next
    case shrink
    let ?new = "sz + scast n" let ?r = "if sz \<le> ?new then sz else ?new"
    obtain t where t: "uvmdealloc a sz ?new s = Ok (?r, t)" "same_rest s t" "uspace t a (npg ?r)"
      "owned t a (npg ?r) \<union> free_pages t = owned s a (npg sz) \<union> free_pages s"
    proof (cases "sz \<le> ?new")
      case True
      then show ?thesis using that [of s] us by (simp add: uvmdealloc_def)
    next
      case False
      then have lt: "?new < sz" by simp
      obtain u where "uvmdealloc a sz ?new s = Ok (?new, u)" "uspace u a (npg ?new)" "same_rest s u"
        "owned u a (npg ?new) \<union> free_pages u = owned s a (npg sz) \<union> free_pages s"
        using uvmdealloc_pages [OF us refl lt] by (auto simp: vm_unmap_def)
      with that [of u] False show ?thesis by simp
    qed
    have "procs t = procs s" using same_rest_proc(1) [OF t(2)] .
    moreover have "growproc n s = Ok (0, updp p (\<lambda>q. q\<lparr>p_sz := ?r\<rparr>) t)"
      using assms(1) shrink t(1) by (simp add: growproc_def myproc_def Let_def a_def [symmetric] sz_def [symmetric])
    ultimately show ?thesis
      using t(3,4) shrink up by (intro exI [of _ 0] exI [of _ "updp p (\<lambda>q. q\<lparr>p_sz := ?r\<rparr>) t"]) (simp add: a_def [symmetric])
  next
    case none
    have "n = 0" using arg_cong [OF none, of "of_int :: int \<Rightarrow> cint"] by simp
    then show ?thesis
      using assms(1) us up by (intro exI [of _ 0] exI [of _ "updp p (\<lambda>q. q\<lparr>p_sz := sz\<rparr>) s"])
        (simp add: growproc_def myproc_def Let_def a_def [symmetric] sz_def [symmetric])
  qed
qed

theorem growproc_keeps_space_witness:
  "\<exists>r t. growproc 8192 (busy\<lparr>procs := (procs busy)(0 := (procs busy 0)\<lparr>p_pagetable := 0x80108000\<rparr>)\<rparr>) = Ok (r, t)
    \<and> uspace t 0x80108000 (npg (p_sz (procs t 0)))"
proof -
  let ?s = "busy\<lparr>procs := (procs busy)(0 := (procs busy 0)\<lparr>p_pagetable := 0x80108000\<rparr>)\<rparr>"
  have p: "p_pagetable (procs ?s 0) = 0x80108000" "p_sz (procs ?s 0) = 0" "curproc ?s = Some 0"
    by (simp_all add: busy_def proc0_def)
  have "uspace ?s 0x80108000 0"
    using demo_uspace uspace_procs(1) [of ?s demo] by (simp add: busy_def idle_def demo_def)
  with growproc_keeps_space [of ?s 0 8192] p show ?thesis by (auto simp: npg_def)
qed

end
