(* ===== verification/Copyspec.thy ===== *)
theory Copyspec
  imports Growspec
begin

text \<open>
  \<^verbatim>\<open>uvmcopy\<close>, with which \<^verbatim>\<open>fork\<close> gives the child its memory: a copy of every page with the same
  permissions, or nothing at all.
\<close>

declare uvmcopy_loop.simps [simp del]

section \<open>Two address spaces\<close>

text \<open>Pages of another owner keep their content while the space \<open>b\<close> grows or shrinks.\<close>

lemma other_space:
  assumes a: "vm_inv s0 a" and s: "uext b 0 s0 s" "kmem_inv s"
    and d: "tables (mem s0) a \<inter> (tables (mem s0) b \<union> free_pages s0) = {}"
  shows "vm_inv s a" "leafn (mem s) a j = leafn (mem s0) a j" "tables (mem s) a = tables (mem s0) a"
proof -
  have E: "same_rest s0 s" "tables (mem s) b \<union> free_pages s \<subseteq> tables (mem s0) b \<union> free_pages s0"
    "\<And>p. page_aligned p \<Longrightarrow> p \<notin> tables (mem s0) b \<union> free_pages s0 \<Longrightarrow> same_page (mem s0) (mem s) p"
    using s(1) by (simp_all add: uext_def)
  have "tree_ok (mem s0) a" using a by (simp add: vm_inv_def)
  then have sp: "p \<in> tables (mem s0) a \<Longrightarrow> same_page (mem s0) (mem s) p" for p
    using E(3) [of p] d tables_aligned [of "mem s0" a p] by auto
  have "free_pages s \<inter> tables (mem s0) a = {}" using E(2) d by auto
  note F = vm_inv_frame [OF a s(2) same_rest_kpages [OF E(1)] this sp]
  show "vm_inv s a" "leafn (mem s) a j = leafn (mem s0) a j" "tables (mem s) a = tables (mem s0) a" by (rule F; assumption)+
qed

lemma flags_small: "unat (PTE_FLAGS e) < 2 ^ 10"
proof -
  have "PTE_FLAGS e = take_bit 10 e" by (simp add: PTE_FLAGS_def take_bit_eq_mask mask_eq_exp_minus_1)
  then show ?thesis by (metis take_bit_nat_less_exp unsigned_take_bit_eq)
qed

lemma flags_perm:
  assumes "e AND PTE_V \<noteq> 0" "PTE_FLAGS e \<noteq> PTE_V"
  defines "f \<equiv> scast (ucast (PTE_FLAGS e) :: cint) :: uint64"
  shows "f = PTE_FLAGS e" "unat f < 2 ^ 10" "f OR PTE_V = PTE_FLAGS e" "f OR PTE_V \<noteq> PTE_V"
proof -
  have "unat (PTE_FLAGS e) < 2 ^ 31" using flags_small [of e] by simp
  then show f: "f = PTE_FLAGS e" unfolding f_def by (rule int_roundtrip)
  show "unat f < 2 ^ 10" unfolding f by (rule flags_small)
  have "bit e 0" using assms(1) by (simp add: bit_0 and_one_eq even_iff_mod_2_eq_zero)
  then show v: "f OR PTE_V = PTE_FLAGS e"
    unfolding f by (intro bit_word_eqI) (auto simp: PTE_FLAGS_def bit_simps)
  show "f OR PTE_V \<noteq> PTE_V" unfolding v by (rule assms(2))
qed

text \<open>The first \<open>i\<close> pages of \<open>b\<close> in \<open>t\<close> are copies of those of \<open>a\<close> in \<open>s\<close>.\<close>

definition copied :: "bytes \<Rightarrow> uint64 \<Rightarrow> bytes \<Rightarrow> uint64 \<Rightarrow> nat \<Rightarrow> bool" where
  "copied m a m' b i \<longleftrightarrow> (\<forall>j<i. PTE_FLAGS (leafn m' b j) = PTE_FLAGS (leafn m a j)
     \<and> (\<forall>k<4096. m' (frame m' b j + of_nat k) = m (frame m a j + of_nat k)))"

lemma copied_keep:
  assumes "copied m a (mem s) b i" "uspace s b i" "uext b i s t"
  shows "copied m a (mem t) b i"
  unfolding copied_def
proof (intro allI impI)
  fix j assume j: "j < i"
  note F = uext_frames [OF assms(2,3) j]
  have "leafn (mem t) b j = leafn (mem s) b j" using assms(3) j by (simp add: uext_def)
  moreover have "mem t (frame (mem s) b j + of_nat k) = mem s (frame (mem s) b j + of_nat k)" if "k < 4096" for k
    using F(2) in_range_add [OF that, of "frame (mem s) b j"] by (simp add: same_page_def)
  ultimately show "PTE_FLAGS (leafn (mem t) b j) = PTE_FLAGS (leafn m a j)
     \<and> (\<forall>k<4096. mem t (frame (mem t) b j + of_nat k) = m (frame m a j + of_nat k))"
    using assms(1) j F(1) by (simp add: copied_def)
qed

lemma copy_undo:
  assumes us0: "uspace s0 b 0" and us: "uspace s b i" and ext: "uext b 0 s0 s"
    and own: "owned s b i \<union> free_pages s = owned s0 b 0 \<union> free_pages s0" and va: "unat va = 4096 * i"
  shows "\<exists>t. uvmunmap b 0 (va div PGSIZE) True s = Ok t \<and> uspace t b 0 \<and> uext b 0 s0 t
    \<and> owned t b 0 \<union> free_pages t = owned s0 b 0 \<union> free_pages s0"
proof -
  have np: "unat (va div PGSIZE) = i - 0" using va by (simp add: unat_div)
  have z: "unat (0 :: uint64) = 4096 * 0" by simp
  obtain t where t: "uvmunmap b 0 (va div PGSIZE) True s = Ok t" "uspace t b 0"
    "vm_unmap b (frame (mem s) b ` {0..<i}) s t" "owned t b 0 \<union> free_pages t = owned s b i \<union> free_pages s"
    using uspace_unmap [OF us le0 z np] by blast
  from uvm_undo [OF us0 us ext le0 own t(2,3) _ t(4)] t(1,2) show ?thesis by blast
qed

section \<open>The loop\<close>

text \<open>The content of a page that was allocated, filled and then copied.\<close>

lemma copy_page:
  assumes "kmem_inv s" "kalloc s = Ok (q, s1)" "q \<noteq> 0" "f \<in> kpages s" "f \<notin> free_pages s" "k < 4096"
  shows "memmove (mem s1) q f 4096 = blit (mem s1) q (mem s1) f 4096"
    "blit (mem s1) q (mem s1) f 4096 (q + of_nat k) = mem s (f + of_nat k)"
proof -
  note K = kalloc_page [OF assms(1-3)]
  have b: "unat p + 4096 \<le> 2 ^ 64" if "p \<in> kpages s" for p
    using that by (simp add: kpages_def kpage_def word_less_nat_alt)
  show "memmove (mem s1) q f 4096 = blit (mem s1) q (mem s1) f 4096"
    using b [OF K(8)] b [OF assms(4)] by (subst memmove_blit) simp_all
  have r: "in_range (q + of_nat k) q 4096" "in_range (f + of_nat k) f 4096" using assms(6) by (auto intro: in_range_add)
  have "\<not> in_range (f + of_nat k) q 4096"
    using pages_disjoint [OF kpages_aligned [OF assms(4)] K(7) r(2)] K(4) assms(5) by auto
  then show "blit (mem s1) q (mem s1) f 4096 (q + of_nat k) = mem s (f + of_nat k)"
    using r(1) K(2) by (simp add: blit_apply fill_apply)
qed

lemma copied_Suc:
  assumes "copied m a (mem s) b i" "uspace s b i" "uext b i s t" "PTE_FLAGS (leafn (mem t) b i) = PTE_FLAGS (leafn m a i)"
    and "\<And>k. k < 4096 \<Longrightarrow> mem t (frame (mem t) b i + of_nat k) = m (frame m a i + of_nat k)"
  shows "copied m a (mem t) b (Suc i)"
  using copied_keep [OF assms(1-3)] assms(4,5) by (simp add: copied_def less_Suc_eq)

lemma uvmcopy_loop_pages:
  assumes "uspace s b i" "uext b 0 s0 s" "owned s b i \<union> free_pages s = owned s0 b 0 \<union> free_pages s0"
    "copied (mem s0) a (mem s) b i" "unat va = 4096 * i" "i \<le> npg sz"
    and us0: "uspace s0 b 0" and ua: "uspace s0 a (npg sz)"
    and d: "owned s0 a (npg sz) \<inter> (tables (mem s0) b \<union> free_pages s0) = {}"
  shows "\<exists>r t. uvmcopy_loop a b va sz s = Ok (r, t) \<and> uext b 0 s0 t \<and>
    (r = 0 \<and> uspace t b (npg sz) \<and> owned t b (npg sz) \<union> free_pages t = owned s0 b 0 \<union> free_pages s0
       \<and> copied (mem s0) a (mem t) b (npg sz)
     \<or> r = -1 \<and> uspace t b 0 \<and> owned t b 0 \<union> free_pages t = owned s0 b 0 \<union> free_pages s0)"
  using assms(1-6)
proof (induction "npg sz - i" arbitrary: i va s)
  case 0
  then have i: "i = npg sz" by simp
  then have "uvmcopy_loop a b va sz s = Ok (0, s)"
    using less_iff_npg [OF "0.prems"(5), of sz] by (subst uvmcopy_loop.simps) simp
  with 0 i show ?case by auto
next
  case (Suc c)
  note A = Suc.prems
  have i: "i < npg sz" "c = npg sz - Suc i" using Suc.hyps(2) by auto
  have nu: "npg sz \<le> utop" "vm_inv s0 a" using ua by (simp_all add: uspace_def)
  then have iu: "i < utop" "i < mpages" using i(1) by simp_all
  have lt: "va < sz" using i less_iff_npg [OF A(5)] by simp
  have k: "kmem_inv s" using A(1) by (simp add: uspace_def vm_inv_def)
  have da: "tables (mem s0) a \<inter> (tables (mem s0) b \<union> free_pages s0) = {}" using d by (auto simp: owned_def)
  note O = other_space [OF nu(2) A(2) k da]
  let ?e = "leafn (mem s0) a i" let ?f = "frame (mem s0) a i"
  have e: "?e AND PTE_V \<noteq> 0" "PTE_FLAGS ?e \<noteq> PTE_V" "?f \<in> kpages s0" "?f \<notin> tables (mem s0) b \<union> free_pages s0"
    using ua i(1) d by (auto simp: uspace_def owned_def)
  note P = flags_perm [OF e(1,2)]
  have "leafn (mem s) a i \<noteq> 0" using e(1) O(2) by auto
  then obtain pte where w: "walk a va False s = Ok (pte, s)" "pte \<noteq> 0" "load64 (mem s) pte = ?e"
    using walk_leaf [OF O(1) _ iu(2), of va] A(5) O(2) by (metis nonzero_mult_div_cancel_left zero_neq_numeral)
  note undo = copy_undo [OF us0 _ _ _ A(5)]
  from k show ?case
  proof (cases rule: kalloc_cases)
    case 1
    then have "uvmcopy_loop a b va sz s = rbind (uvmunmap b 0 (va div PGSIZE) True s) (\<lambda>s. Ok (-1, s))"
      using lt w e(1) by (subst uvmcopy_loop.simps) (simp add: Let_def)
    with undo [OF A(1-3)] show ?thesis by auto
  next
    case (2 q s1)
    let ?m = "blit (mem s1) q (mem s1) ?f 4096" let ?perm = "ucast (PTE_FLAGS ?e) :: cint"
    have sr: "same_rest s0 s" "tables (mem s) b \<union> free_pages s \<subseteq> tables (mem s0) b \<union> free_pages s0"
      "same_page (mem s0) (mem s) ?f"
      using A(2) e(3,4) kpages_aligned [of ?f s0] by (simp_all add: uext_def)
    have fs: "?f \<in> kpages s" "?f \<notin> free_pages s" using e(3,4) sr(2) same_rest_kpages [OF sr(1)] by auto
    note C = copy_page [OF k 2 fs]
    have q: "page_aligned q" using kalloc_page(7) [OF k 2] .
    then have m: "\<forall>p. page_aligned p \<longrightarrow> p \<noteq> q \<longrightarrow> same_page (mem s1) ?m p" using same_page_blit by blast
    have head: "uvmcopy_loop a b va sz s = rbind (mappages b va PGSIZE q ?perm (s1\<lparr>mem := ?m\<rparr>)) (\<lambda>(r, s).
        if r \<noteq> 0 then rbind (kfree q s) (\<lambda>s. rbind (uvmunmap b 0 (va div PGSIZE) True s) (\<lambda>s. Ok (-1, s)))
        else uvmcopy_loop a b (va + PGSIZE) sz s)"
      using lt w e(1) 2 C(1) [of 0] by (subst uvmcopy_loop.simps) (simp add: Let_def frame_def)
    from A(1) iu(1) A(5) 2 m P(2,4) show ?thesis
    proof (cases rule: user_map_page)
      case (1 t u)
      have "uext b 0 s0 u" using A(2) 1(4) by (blast intro: uext_trans uext_mono)
      moreover have "owned u b i \<union> free_pages u = owned s0 b 0 \<union> free_pages s0" using 1(5) A(3) by simp
      ultimately show ?thesis using undo [OF 1(3)] head 1(1,2) by auto
    next
      case t: (2 t)
      have ext: "uext b 0 s0 t" using A(2) t(3) by (blast intro: uext_trans uext_mono)
      have fl: "frame (mem t) b i = q" "PTE_FLAGS (leafn (mem t) b i) = PTE_FLAGS ?e"
        using t(4) pte_perm [OF q P(2,4)] P(3) by (simp_all add: frame_def)
      have "mem t (q + of_nat j) = mem s0 (?f + of_nat j)" if "j < 4096" for j
        using t(5) C(2) [OF that] sr(3) in_range_add [OF that, of q] in_range_add [OF that, of ?f] by (simp add: same_page_def)
      then have cp: "copied (mem s0) a (mem t) b (Suc i)"
        by (intro copied_Suc [OF A(4,1) t(3)]) (simp_all add: fl)
      have "unat (va + PGSIZE) = 4096 * Suc i" by (rule vpage_next [OF A(5) iu(2)])
      moreover have "owned t b (Suc i) \<union> free_pages t = owned s0 b 0 \<union> free_pages s0" using t(6) A(3) by simp
      ultimately show ?thesis using Suc.hyps(1) [OF i(2) t(2) ext _ cp] i(1) head t(1) by simp
    qed
  qed
qed

text \<open>
  C4: \<^verbatim>\<open>uvmcopy\<close> gives a new address space a copy of every page of the old one, in frames of its own,
  with the same contents and permissions, or returns \<open>-1\<close> and leaves the new space empty. In both
  cases the old space is unchanged and the pages the new space owns together with the free pages
  are those from before.
\<close>

theorem uvmcopy_duplicates:
  assumes "uspace s a (npg sz)" and "uspace s b 0"
    and "owned s a (npg sz) \<inter> (owned s b 0 \<union> free_pages s) = {}"
  shows "\<exists>r t. uvmcopy a b sz s = Ok (r, t) \<and> uspace t a (npg sz) \<and> copied (mem s) a (mem t) a (npg sz)
    \<and> (r = 0 \<and> uspace t b (npg sz) \<and> owned t b (npg sz) \<union> free_pages t = owned s b 0 \<union> free_pages s
         \<and> copied (mem s) a (mem t) b (npg sz)
       \<or> r = -1 \<and> uspace t b 0 \<and> owned t b 0 \<union> free_pages t = owned s b 0 \<union> free_pages s)"
proof -
  have d: "owned s a (npg sz) \<inter> (tables (mem s) b \<union> free_pages s) = {}" using assms(3) by (simp add: owned_def)
  have "copied (mem s) a (mem s) b 0" by (simp add: copied_def)
  from uvmcopy_loop_pages [OF assms(2) uext_refl refl this _ le0 assms(2,1) d, of 0] obtain r t where
    t: "uvmcopy a b sz s = Ok (r, t)" "uext b 0 s t"
    "r = 0 \<and> uspace t b (npg sz) \<and> owned t b (npg sz) \<union> free_pages t = owned s b 0 \<union> free_pages s
         \<and> copied (mem s) a (mem t) b (npg sz)
       \<or> r = -1 \<and> uspace t b 0 \<and> owned t b 0 \<union> free_pages t = owned s b 0 \<union> free_pages s"
    by (auto simp: uvmcopy_def)
  have k: "kmem_inv t" using t(3) by (auto simp: uspace_def vm_inv_def)
  have va: "vm_inv s a" using assms(1) by (simp add: uspace_def)
  have "tables (mem s) a \<inter> (tables (mem s) b \<union> free_pages s) = {}" using d by (auto simp: owned_def)
  note O = other_space [OF va t(2) k this]
  have E: "same_rest s t" "tables (mem t) b \<union> free_pages t \<subseteq> tables (mem s) b \<union> free_pages s"
    "\<And>p. page_aligned p \<Longrightarrow> p \<notin> tables (mem s) b \<union> free_pages s \<Longrightarrow> same_page (mem s) (mem t) p"
    using t(2) by (simp_all add: uext_def)
  have fr: "frame (mem t) a = frame (mem s) a" by (simp add: fun_eq_iff frame_def O(2))
  have sp: "same_page (mem s) (mem t) (frame (mem s) a j)" if "j < npg sz" for j
    using that assms(1) d kpages_aligned [of "frame (mem s) a j" s] by (intro E(3)) (auto simp: uspace_def owned_def)
  have "copied (mem s) a (mem t) a (npg sz)"
    using sp in_range_add [of _ 4096] by (auto simp: copied_def O(2) fr same_page_def)
  moreover have "uspace t a (npg sz)"
    using assms(1) O E(2) d same_rest_kpages [OF E(1)] by (auto simp: uspace_def fr owned_def)
  ultimately show ?thesis using t(1,3) by blast
qed

theorem uvmcopy_duplicates_witness:
  "\<exists>r t. uvmcopy 0x80108000 0x8010c000 4096 (udemo demo) = Ok (r, t) \<and> uspace t 0x80108000 1
    \<and> copied (mem (udemo demo)) 0x80108000 (mem t) 0x80108000 1"
proof -
  have h: "KmemLock \<notin> held demo" by (simp add: demo_def)
  note D = udemo_space [of demo, OF refl refl refl h] and U = udemo_uspace [of demo, OF refl refl refl h]
  have z: "zero_page (mem (udemo demo)) 0x8010c000"
    unfolding udemo_def demo_def one_page_def kmem.select_convs kmem.simps
    by (intro zero_page_store) (simp_all add: zero_page_def pte_at_def)
  have pg: "0x8010c000 \<in> kpages (udemo demo) - free_pages (udemo demo)"
    unfolding D(4) by (simp add: demo_pages_def demo_def udemo_def kpages_def kpage_def page_aligned_def)
  have k: "kmem_inv (udemo demo)" using D(1) by (simp add: uaccess_def vm_inv_def)
  note E = uspace_empty [OF k pg z]
  have n: "npg 4096 = 1" by (simp add: npg_def)
  have "owned (udemo demo) 0x80108000 1 \<inter> (owned (udemo demo) 0x8010c000 0 \<union> free_pages (udemo demo)) = {}"
    using D(3,4,5) E(2) by (auto simp: owned_def demo_pages_def)
  with uvmcopy_duplicates [of "udemo demo" "0x80108000" 4096 "0x8010c000"] U E(1) n show ?thesis by auto
qed

end
