(* ===== verification/Filespec.thy ===== *)
theory Filespec
  imports Demo
begin

text \<open>
  Open files: \<^verbatim>\<open>filealloc\<close> and \<^verbatim>\<open>fdalloc\<close> hand out the lowest free slot, and the reference count of a
  file follows the descriptors that \<^verbatim>\<open>dup\<close> and \<^verbatim>\<open>close\<close> add and remove.
\<close>

declare filealloc_from.simps [simp del] fdalloc_from.simps [simp del]

lemma updf_simps [simp]:
  "files (updf i f s) = (files s)(i := f (files s i))" "held (updf i f s) = held s" "procs (updf i f s) = procs s"
  "curproc (updf i f s) = curproc s" "mem (updf i f s) = mem s"
  by (simp_all add: updf_def)

lemma updp_files [simp]: "files (updp i f s) = files s"
  by (simp add: updp_def)

lemma find_upt_Suc: "i < n \<Longrightarrow> find P [i..<n] = (if P i then Some i else find P [Suc i..<n])"
  by (subst upt_conv_Cons) simp_all

section \<open>Lowest free slot\<close>

lemma filealloc_from_eq:
  assumes "FtableLock \<in> held s"
  shows "filealloc_from i s = Ok (case find (\<lambda>f. f_ref (files s f) = 0) [i..<NFILE] of
      Some f \<Rightarrow> (Some f, (updf f (\<lambda>q. q\<lparr>f_ref := 1\<rparr>) s)\<lparr>held := held s - {FtableLock}\<rparr>)
    | None \<Rightarrow> (None, s\<lparr>held := held s - {FtableLock}\<rparr>))"
proof (induction "NFILE - i" arbitrary: i)
  case 0
  then show ?case using assms by (subst filealloc_from.simps) (simp add: run_simps)
next
  case (Suc n)
  then have i: "i < NFILE" and IH: "f_ref (files s i) \<noteq> 0 \<Longrightarrow> filealloc_from (Suc i) s =
      Ok (case find (\<lambda>f. f_ref (files s f) = 0) [Suc i..<NFILE] of
        Some f \<Rightarrow> (Some f, (updf f (\<lambda>q. q\<lparr>f_ref := 1\<rparr>) s)\<lparr>held := held s - {FtableLock}\<rparr>)
      | None \<Rightarrow> (None, s\<lparr>held := held s - {FtableLock}\<rparr>))" by auto
  then show ?case using assms unfolding find_upt_Suc [OF i]
    by (subst filealloc_from.simps) (simp add: run_simps)
qed

lemma fdalloc_from_eq:
  "fdalloc_from i p f s = (case find (\<lambda>fd. p_ofile (procs s p) fd = None) [i..<NOFILE] of
      Some fd \<Rightarrow> (Some fd, updp p (\<lambda>q. q\<lparr>p_ofile := (p_ofile q)(fd := Some f)\<rparr>) s)
    | None \<Rightarrow> (None, s))"
proof (induction "NOFILE - i" arbitrary: i)
  case 0
  then show ?case by (subst fdalloc_from.simps) simp
next
  case (Suc n)
  then have i: "i < NOFILE" and IH: "fdalloc_from (Suc i) p f s =
      (case find (\<lambda>fd. p_ofile (procs s p) fd = None) [Suc i..<NOFILE] of
        Some fd \<Rightarrow> (Some fd, updp p (\<lambda>q. q\<lparr>p_ofile := (p_ofile q)(fd := Some f)\<rparr>) s)
      | None \<Rightarrow> (None, s))" by auto
  then show ?case unfolding find_upt_Suc [OF i] by (subst fdalloc_from.simps) simp
qed

section \<open>Reference counts\<close>

lemma filedup_eq:
  assumes "FtableLock \<notin> held s" and "1 \<le> sint (f_ref (files s f))"
  shows "filedup f s = Ok (f, updf f (\<lambda>q. q\<lparr>f_ref := f_ref q + 1\<rparr>) s)"
proof -
  have "(updf f (\<lambda>q. q\<lparr>f_ref := f_ref q + 1\<rparr>) (s\<lparr>held := insert FtableLock (held s)\<rparr>))\<lparr>held := held s\<rparr>
      = updf f (\<lambda>q. q\<lparr>f_ref := f_ref q + 1\<rparr>) s"
    by (rule kstate.equality) (simp_all add: updf_def)
  with assms show ?thesis by (simp add: filedup_def run_simps)
qed

lemma fileclose_shared:
  assumes "FtableLock \<notin> held s" and "2 \<le> sint (f_ref (files s f))"
  shows "fileclose E f s = Ok (updf f (\<lambda>q. q\<lparr>f_ref := f_ref q - 1\<rparr>) s)"
proof -
  have "sint (f_ref (files s f) - 1) = sint (f_ref (files s f)) - 1"
    using assms(2) sint_less [of "f_ref (files s f)"] by (simp add: sint_word_ariths signed_take_bit_int_eq_self)
  moreover have "(updf f (\<lambda>q. q\<lparr>f_ref := f_ref q - 1\<rparr>) (s\<lparr>held := insert FtableLock (held s)\<rparr>))\<lparr>held := held s\<rparr>
      = updf f (\<lambda>q. q\<lparr>f_ref := f_ref q - 1\<rparr>) s"
    by (rule kstate.equality) (simp_all add: updf_def)
  ultimately show ?thesis using assms by (simp add: fileclose_def run_simps Let_def)
qed

lemma argfd_eq:
  assumes "curproc s = Some p"
  shows "argfd 0 s = (let fd = ucast (tf_get p tf_a0 s) :: cint in
    Ok (if 0 \<le> sint fd \<and> sint fd < int NOFILE then map_option (Pair (unat fd)) (p_ofile (procs s p) (unat fd)) else None))"
  using assms by (auto simp: argfd_def argint_def argraw_def myproc_def Let_def tf_get_def)

text \<open>
  C18: \<^verbatim>\<open>dup\<close> returns the lowest unused descriptor, which then refers to the same file, and counts it;
  without an unused descriptor it fails and changes nothing. Closing the new descriptor restores
  both the descriptor table and the file table.
\<close>

theorem dup_close:
  fixes s :: "'a sstate_scheme"
  assumes "curproc s = Some p" "FtableLock \<notin> held s" "ucast (tf_get p tf_a0 s) = (of_nat fd :: cint)" "fd < NOFILE"
    and "p_ofile (procs s p) fd = Some f" "1 \<le> sint (f_ref (files s f))" "sint (f_ref (files s f)) < 2 ^ 31 - 1"
  shows "case find (\<lambda>fd. p_ofile (procs s p) fd = None) [0..<NOFILE] of
      None \<Rightarrow> sys_dup s = Ok (-1, s)
    | Some nfd \<Rightarrow> \<exists>t. sys_dup s = Ok (of_nat nfd, t) \<and> p_ofile (procs t p) = (p_ofile (procs s p))(nfd := Some f)
        \<and> files t = (files s)(f := (files s f)\<lparr>f_ref := f_ref (files s f) + 1\<rparr>)
        \<and> (\<exists>u. sys_close E (tf_set p tf_a0 (of_nat nfd) t) = Ok (0, u)
             \<and> p_ofile (procs u p) = p_ofile (procs s p) \<and> files u = files s)"
proof -
  have small: "sint (of_nat k :: cint) = int k" "unat (of_nat k :: cint) = k" if "k < NOFILE" for k
    using that by (simp_all add: signed_of_nat signed_take_bit_int_eq_self unat_of_nat)
  have a: "argfd 0 s = Ok (Some (fd, f))"
    using assms(3-5) small [OF assms(4)] by (simp add: argfd_eq [OF assms(1)] Let_def)
  show ?thesis
  proof (cases "find (\<lambda>fd. p_ofile (procs s p) fd = None) [0..<NOFILE]")
    case None
    then show ?thesis using a assms(1) by (simp add: sys_dup_def fdalloc_def myproc_def fdalloc_from_eq)
  next
    case (Some nfd)
    then have n: "nfd < NOFILE" "p_ofile (procs s p) nfd = None" by (auto simp: find_Some_iff)
    let ?t = "updf f (\<lambda>q. q\<lparr>f_ref := f_ref q + 1\<rparr>) (updp p (\<lambda>q. q\<lparr>p_ofile := (p_ofile q)(nfd := Some f)\<rparr>) s)"
    have dup: "sys_dup s = Ok (of_nat nfd, ?t)"
      using a assms(1,2,6) Some by (simp add: sys_dup_def fdalloc_def myproc_def fdalloc_from_eq filedup_eq)
    let ?v = "tf_set p tf_a0 (of_nat nfd) ?t"
    have v: "curproc ?v = Some p" "held ?v = held s" "procs ?v = procs ?t" "files ?v = files ?t" "tf_get p tf_a0 ?v = of_nat nfd"
      using assms(1) by (simp_all add: tf_set_def tf_get_def)
    have "ucast (of_nat nfd :: uint64) = (of_nat nfd :: cint)"
      using n(1) by (simp add: unsigned_of_nat take_bit_nat_eq_self)
    then have av: "argfd 0 ?v = Ok (Some (nfd, f))"
      using n(1) small [OF n(1)] by (simp only: argfd_eq [OF v(1)] v(3,5)) (simp add: Let_def)
    have "2 \<le> sint (f_ref (files (clear_fd p nfd ?v) f))" "FtableLock \<notin> held (clear_fd p nfd ?v)"
      using assms(2,6,7) v(2,4) sint_plus_1 [of "f_ref (files s f)"] by (simp_all add: clear_fd_def)
    from fileclose_shared [OF this(2,1), of E] av v(1)
    have "sys_close E ?v = Ok (0, updf f (\<lambda>q. q\<lparr>f_ref := f_ref q - 1\<rparr>) (clear_fd p nfd ?v))"
      by (simp add: sys_close_def myproc_def)
    moreover have "(p_ofile (procs s p))(nfd := None) = p_ofile (procs s p)" using n(2) by auto
    ultimately show ?thesis using Some dup v by (auto simp: clear_fd_def)
  qed
qed

theorem dup_close_witness:
  "\<exists>t. sys_dup (umach\<lparr>procs := (procs umach)(0 := (procs umach 0)\<lparr>p_ofile := [0 \<mapsto> 4, 1 \<mapsto> 5], p_trapframe := 0x8010b000\<rparr>),
     files := (\<lambda>_. file0\<lparr>f_ref := 1\<rparr>)\<rparr>) = Ok (of_nat 2, t) \<and> f_ref (files t 4) = 2"
proof -
  let ?s = "umach\<lparr>procs := (procs umach)(0 := (procs umach 0)\<lparr>p_ofile := [0 \<mapsto> 4, 1 \<mapsto> 5], p_trapframe := 0x8010b000\<rparr>),
     files := (\<lambda>_. file0\<lparr>f_ref := 1\<rparr>)\<rparr>"
  have z: "load64 (mem umach) 0x8010b070 = 0"
    by (simp add: umach_def udemo_def one_page_def busy_def idle_def demo_def pte_at_def load64_store64_far load64_zero)
  have fd: "find (\<lambda>fd. p_ofile (procs ?s 0) fd = None) [0..<NOFILE] = Some 2" by (simp add: upt_rec)
  have "tf_get 0 tf_a0 ?s = 0" using z by (simp add: tf_get_def)
  with dup_close [of ?s 0 0 4 "(0, Ok)"] fd show ?thesis by auto
qed

end
