(* ===== verification/Logtrans.thy ===== *)
theory Logtrans
  imports Demo Procspec
begin

text \<open>
  The space of the log. \<^verbatim>\<open>begin_op\<close> admits a system call only if the log has room for \<^verbatim>\<open>MAXOPBLOCKS\<close> blocks of
  every system call in progress. With a log area of more than \<^verbatim>\<open>LOGSIZE\<close> blocks this keeps \<^verbatim>\<open>log_write\<close> from
  running out of it; with the log area that \<^verbatim>\<open>mkfs\<close> lays out, of exactly \<^verbatim>\<open>LOGSIZE\<close> blocks, it does not.
\<close>

declare log_index.simps [simp del]

section \<open>Logged blocks\<close>

definition logged :: "'a lstate_scheme \<Rightarrow> uint list" where
  "logged s = map (lh_block s) [0..<nat (sint (lh_n s))]"

lemma log_index_spec:
  assumes "i \<le> n" "n = nat (sint (lh_n s))"
  shows "i \<le> log_index i bno s \<and> log_index i bno s \<le> n \<and> (log_index i bno s < n \<longrightarrow> lh_block s (log_index i bno s) = bno)
    \<and> (\<forall>k. i \<le> k \<longrightarrow> k < log_index i bno s \<longrightarrow> lh_block s k \<noteq> bno)"
  using assms
proof (induction i bno s rule: log_index.induct)
  case (1 i bno s)
  show ?case
  proof (cases "int i < sint (lh_n s) \<and> lh_block s i \<noteq> bno")
    case True
    then have "log_index i bno s = log_index (Suc i) bno s" by (subst log_index.simps) simp
    moreover have "Suc i \<le> n" using True "1.prems" by linarith
    ultimately show ?thesis using "1.IH" [OF True] "1.prems"(2) True by (metis Suc_leD le_antisym not_less_eq_eq)
  next
    case False
    then have "log_index i bno s = i" by (subst log_index.simps) auto
    then show ?thesis using False "1.prems" by auto
  qed
qed

text \<open>The state after a block has been appended to the log and its buffer pinned.\<close>

definition appended :: "nat \<Rightarrow> 'a lstate_scheme \<Rightarrow> 'a lstate_scheme" where
  "appended b s = s\<lparr>bufs := (bufs s)(b := (bufs s b)\<lparr>b_refcnt := b_refcnt (bufs s b) + 1\<rparr>),
     lh_block := (lh_block s)(nat (sint (lh_n s)) := b_blockno (bufs s b)), lh_n := lh_n s + 1\<rparr>"

definition log_free :: "'a lstate_scheme \<Rightarrow> bool" where
  "log_free s = (held s = {} \<and> 0 \<le> sint (lh_n s) \<and> sint (lh_n s) < int LOGSIZE \<and> sint (lh_n s) < sint (log_size s - 1)
     \<and> 1 \<le> sint (log_outstanding s))"

lemma log_write_eq:
  assumes "log_free s"
  shows "log_write b s = Ok (if b_blockno (bufs s b) \<in> set (logged s) then s else appended b s)"
proof -
  let ?bno = "b_blockno (bufs s b)" and ?n = "nat (sint (lh_n s))"
  let ?t = "s\<lparr>held := {LogLock}\<rparr>"
  define i where "i = log_index 0 ?bno ?t"
  have h: "held s = {}" "0 \<le> sint (lh_n s)" using assms by (simp_all add: log_free_def)
  have l: "lh_block ?t = lh_block s" "?n = nat (sint (lh_n ?t))" by simp_all
  have spec: "i \<le> ?n" "i < ?n \<Longrightarrow> lh_block s i = ?bno" "\<And>k. k < i \<Longrightarrow> lh_block s k \<noteq> ?bno"
    using log_index_spec [of 0 ?n ?t ?bno, OF _ l(2)] unfolding l(1) i_def by blast+
  have run: "log_write b s = rbind (if int i = sint (lh_n s)
      then rbind (bpin b (?t\<lparr>lh_block := (lh_block s)(i := ?bno)\<rparr>)) (\<lambda>s. Ok (s\<lparr>lh_n := lh_n s + 1\<rparr>))
      else Ok (?t\<lparr>lh_block := (lh_block s)(i := ?bno)\<rparr>)) (lk_release LogLock)"
    using assms h(1) unfolding i_def by (simp add: log_write_def run_simps log_free_def Let_def)
  show ?thesis
  proof (cases "i < ?n")
    case True
    then have "?bno \<in> lh_block s ` {0..<?n}" using spec(2) [OF True] by force
    then have "?bno \<in> set (logged s)" by (simp add: logged_def)
    moreover have "(lh_block s)(i := ?bno) = lh_block s" using spec(2) [OF True] by (intro fun_upd_idem)
    moreover have "int i \<noteq> sint (lh_n s)" using True by simp
    ultimately show ?thesis using h(1) by (simp add: run run_simps)
  next
    case False
    then have i: "i = ?n" using spec(1) by simp
    then have "\<forall>k < ?n. lh_block s k \<noteq> ?bno" using spec(3) by simp
    then have "?bno \<notin> set (logged s)" by (auto simp: logged_def)
    then show ?thesis using h i by (simp add: run run_simps bpin_def updb_def appended_def)
  qed
qed

lemma logged_appended:
  assumes "log_free s"
  shows "logged (appended b s) = logged s @ [b_blockno (bufs s b)]" and "sint (lh_n (appended b s)) = sint (lh_n s) + 1"
proof -
  have n: "0 \<le> sint (lh_n s)" "sint (lh_n s) < 30" using assms by (simp_all add: log_free_def)
  show s: "sint (lh_n (appended b s)) = sint (lh_n s) + 1"
    using n by (simp add: appended_def sint_plus_1)
  show "logged (appended b s) = logged s @ [b_blockno (bufs s b)]"
    using s n by (simp add: logged_def nat_add_distrib) (simp add: appended_def)
qed

section \<open>Interleaved system calls\<close>

text \<open>
  Each system call in progress has a budget of calls of \<^verbatim>\<open>log_write\<close>. A call of \<^verbatim>\<open>begin_op\<close> that has to sleep makes
  no step; it tries again when it is woken. The last \<^verbatim>\<open>end_op\<close>, which commits, ends the transaction. In
  between, everything but the log may change in any way.
\<close>

definition log_fields :: "'a lstate_scheme \<Rightarrow> lockid set \<times> cint \<times> cint \<times> bool \<times> cint \<times> (nat \<Rightarrow> cint)" where
  "log_fields s = (held s, log_size s, log_outstanding s, log_committing s, lh_n s, lh_block s)"

inductive log_step :: "nat list \<times> 'a lstate_scheme \<Rightarrow> nat list \<times> 'a lstate_scheme \<Rightarrow> bool" where
  begins: "begin_op (0, \<lambda>_. Stop (Sleeps ChLog)) s = Ok s' \<Longrightarrow> log_step (ops, s) (ops @ [MAXOPBLOCKS], s')"
| writes: "i < length ops \<Longrightarrow> 0 < ops ! i \<Longrightarrow> log_write b s = Ok s' \<Longrightarrow> log_step (ops, s) (ops[i := ops ! i - 1], s')"
| ends: "i < length ops \<Longrightarrow> 2 \<le> length ops \<Longrightarrow> end_op E s = Ok s' \<Longrightarrow> log_step (ops, s) (take i ops @ drop (Suc i) ops, s')"
| others: "log_fields s' = log_fields s \<Longrightarrow> log_step (ops, s) (ops, s')"

text \<open>The budgets that are left fit into the log, and no block is logged twice.\<close>

definition log_room :: "nat list \<Rightarrow> 'a lstate_scheme \<Rightarrow> bool" where
  "log_room ops s = (held s = {} \<and> \<not> log_committing s \<and> sint (log_outstanding s) = int (length ops) \<and> length ops \<le> 3
     \<and> 0 \<le> sint (lh_n s) \<and> sint (lh_n s) + int (sum_list ops) \<le> int LOGSIZE \<and> (\<forall>n \<in> set ops. n \<le> MAXOPBLOCKS)
     \<and> distinct (logged s))"

lemma sleep_stop: "sleep (\<lambda>_. Stop e) ch lk s \<noteq> Ok s'"
  by (auto simp: sleep_def sched_def rbind_Ok_iff Let_def split: if_splits)

lemma begin_op_room:
  assumes "log_room ops s"
  shows "sint (lh_n s + (log_outstanding s + 1) * of_nat MAXOPBLOCKS) = sint (lh_n s) + (int (length ops) + 1) * int MAXOPBLOCKS"
proof -
  have r: "0 \<le> sint (lh_n s)" "sint (lh_n s) \<le> 30" "sint (log_outstanding s) = int (length ops)" "length ops \<le> 3"
    using assms by (auto simp: log_room_def)
  then have o: "sint (log_outstanding s + 1) = int (length ops) + 1" by (subst sint_plus_1) simp_all
  define m :: cint where "m = (log_outstanding s + 1) * of_nat MAXOPBLOCKS"
  have "sint m = (int (length ops) + 1) * 10"
    unfolding m_def sint_word_ariths(3) o using r(4) by (simp add: signed_take_bit_int_eq_self)
  then have "sint (lh_n s + m) = sint (lh_n s) + (int (length ops) + 1) * 10"
    unfolding sint_word_ariths(1) using r by (simp add: signed_take_bit_int_eq_self)
  then show ?thesis by (simp add: m_def)
qed

lemma begin_op_eq:
  assumes "log_room ops s" "sint (lh_n s) + (int (length ops) + 1) * int MAXOPBLOCKS \<le> int LOGSIZE"
  shows "begin_op E s = Ok (s\<lparr>log_outstanding := log_outstanding s + 1\<rparr>)"
  using assms begin_op_room [OF assms(1)] by (simp add: begin_op_def run_simps log_room_def)

lemma begin_op_Ok:
  assumes "log_room ops s" "begin_op (0, \<lambda>_. Stop (Sleeps ChLog)) s = Ok s'"
  shows "sint (lh_n s) + (int (length ops) + 1) * int MAXOPBLOCKS \<le> int LOGSIZE"
  using assms begin_op_room [OF assms(1)]
  by (auto simp: begin_op_def run_simps log_room_def rbind_Ok_iff sleep_stop split: if_splits)

lemma sum_list_budgets: "\<forall>n \<in> set ops. n \<le> k \<Longrightarrow> sum_list ops \<le> length ops * (k :: nat)"
  by (induction ops) auto

lemma log_room_begin:
  assumes "log_room ops s" "sint (lh_n s) + (int (length ops) + 1) * int MAXOPBLOCKS \<le> int LOGSIZE"
  shows "log_room (ops @ [MAXOPBLOCKS]) (s\<lparr>log_outstanding := log_outstanding s + 1\<rparr>)"
proof -
  have "sint (log_outstanding s + 1) = int (length ops) + 1"
    using assms(1) by (subst sint_plus_1) (auto simp: log_room_def)
  moreover have "sum_list ops \<le> length ops * 10"
    using assms(1) by (intro sum_list_budgets) (auto simp: log_room_def)
  ultimately show ?thesis using assms by (auto simp: log_room_def logged_def)
qed

lemma log_room_write:
  assumes r: "log_room ops s" and i: "i < length ops" "0 < ops ! i" and z: "log_free s"
  shows "log_room (ops[i := ops ! i - 1]) (if b_blockno (bufs s b) \<in> set (logged s) then s else appended b s)"
proof -
  have le: "ops ! i \<le> sum_list ops" using i(1) by (simp add: elem_le_sum_list)
  then have sum: "int (sum_list (ops[i := ops ! i - 1])) = int (sum_list ops) - 1" using i by (simp add: sum_list_update)
  have "ops ! i \<le> MAXOPBLOCKS" using r nth_mem [OF i(1)] unfolding log_room_def by blast
  then have "\<forall>n \<in> set (ops[i := ops ! i - 1]). n \<le> MAXOPBLOCKS"
    using r set_update_subset_insert [of ops i "ops ! i - 1"] by (auto simp: log_room_def)
  then show ?thesis
    using r sum logged_appended [OF z, of b] by (auto simp: log_room_def) (simp_all add: appended_def)
qed

lemma log_room_free:
  assumes "log_room ops s" "i < length ops" "0 < ops ! i" "sint (lh_n s) < sint (log_size s - 1)"
  shows "log_free s"
proof -
  have "ops ! i \<le> sum_list ops" using assms(2) by (simp add: elem_le_sum_list)
  moreover have "length ops \<noteq> 0" using assms(2) by auto
  ultimately show ?thesis using assms by (auto simp: log_room_def log_free_def)
qed

lemma log_write_free:
  assumes "log_room ops s" "i < length ops" "0 < ops ! i" "log_write b s = Ok s'"
  shows "log_free s"
proof (rule log_room_free [OF assms(1-3)])
  show "sint (lh_n s) < sint (log_size s - 1)"
    using assms(1,4) by (auto simp: log_write_def log_room_def run_simps not_le split: if_splits)
qed

lemma log_write_full:
  assumes "log_room ops s" "sint (log_size s - 1) \<le> sint (lh_n s)"
  shows "log_write b s = Stop (Panic ''too big a transaction'')"
  using assms by (simp add: log_write_def log_room_def run_simps)

lemma sint_pred: "0 < sint (w :: cint) \<Longrightarrow> sint (w - 1) = sint w - 1"
  unfolding sint_word_ariths(2) using sint_lt [of w] by (simp add: signed_take_bit_int_eq_self)

lemma end_op_eq:
  assumes "log_room ops s" "2 \<le> length ops"
  shows "\<exists>P. end_op E s = Ok (s\<lparr>log_outstanding := log_outstanding s - 1, procs := P\<rparr>) \<and>
    sint (log_outstanding s - 1) = int (length ops) - 1"
proof -
  have r: "held s = {}" "\<not> log_committing s" "sint (log_outstanding s) = int (length ops)" "length ops \<le> 3"
    using assms(1) by (auto simp: log_room_def)
  have o: "sint (log_outstanding s - 1) = int (length ops) - 1"
    unfolding sint_word_ariths(2) using r(3,4) assms(2) by (simp add: signed_take_bit_int_eq_self)
  then have nz: "log_outstanding s - 1 \<noteq> 0" using assms(2) by (metis of_nat_1 of_nat_eq_iff not_one_le_zero
        one_le_numeral order_trans sint_0 eq_iff_diff_eq_0 Suc_1 Suc_n_not_le_n One_nat_def)
  let ?t = "s\<lparr>held := {LogLock}, log_outstanding := log_outstanding s - 1\<rparr>"
  have "no_proc_lock ?t" by (simp add: no_proc_lock_def)
  then obtain P where "wakeup ChLog ?t = Ok (?t\<lparr>procs := P\<rparr>)" using wakeup_some by blast
  then have "end_op E s = Ok (s\<lparr>log_outstanding := log_outstanding s - 1, procs := P\<rparr>)"
    using r nz by (simp add: end_op_def run_simps)
  then show ?thesis using o by blast
qed

lemma log_room_end:
  assumes r: "log_room ops s" and i: "i < length ops" "2 \<le> length ops"
    and o: "sint (log_outstanding s - 1) = int (length ops) - 1"
  shows "log_room (take i ops @ drop (Suc i) ops) (s\<lparr>log_outstanding := log_outstanding s - 1, procs := P\<rparr>)"
proof -
  have "ops = take i ops @ ops ! i # drop (Suc i) ops" using i(1) by (rule id_take_nth_drop)
  then have "sum_list ops = sum_list (take i ops) + (ops ! i + sum_list (drop (Suc i) ops))"
    by (metis sum_list.Cons sum_list_append)
  moreover have "set (take i ops) \<union> set (drop (Suc i) ops) \<subseteq> set ops" using set_take_subset set_drop_subset by fast
  ultimately show ?thesis using r i o by (auto simp: log_room_def logged_def subset_iff)
qed

lemma log_step_room:
  assumes "log_step (ops, s) (ops', s')" "log_room ops s"
  shows "log_room ops' s' \<and> log_size s' = log_size s"
  using assms(1)
proof cases
  case begins
  then show ?thesis
    using begin_op_Ok [OF assms(2)] begin_op_eq [OF assms(2)] log_room_begin [OF assms(2)] by auto
next
  case (writes i b)
  then have "log_free s" using log_write_free assms(2) by blast
  then show ?thesis using writes log_room_write [OF assms(2)] log_write_eq [of s b] by (auto simp: appended_def)
next
  case (ends i E)
  then show ?thesis using end_op_eq [OF assms(2), of E] log_room_end [OF assms(2)] by auto
next
  case others
  then show ?thesis using assms(2) by (auto simp: log_room_def log_fields_def logged_def)
qed

section \<open>Room and the lack of it\<close>

text \<open>The log between two transactions.\<close>

definition log_idle :: "'a lstate_scheme \<Rightarrow> bool" where
  "log_idle s = (held s = {} \<and> \<not> log_committing s \<and> log_outstanding s = 0 \<and> lh_n s = 0)"

lemma log_idle_room: "log_idle s \<Longrightarrow> log_room [] s"
  by (simp add: log_idle_def log_room_def logged_def)

lemma log_run_room:
  assumes "log_step\<^sup>*\<^sup>* ([], s0) (ops, s)" "log_idle s0"
  shows "log_room ops s \<and> log_size s = log_size s0"
  using assms(1)
proof (induction "(ops, s)" arbitrary: ops s rule: rtranclp_induct)
  case base
  then show ?case using log_idle_room [OF assms(2)] by simp
next
  case (step y)
  obtain o1 s1 where y: "y = (o1, s1)" by (cases y)
  then show ?case using step.hyps(3) [OF y] log_step_room [of o1 s1 ops s] step.hyps(2) by simp
qed

text \<open>
  C11: the space of the log. Take any interleaving of system calls that start with \<^verbatim>\<open>begin_op\<close>, call \<^verbatim>\<open>log_write\<close> at
  most \<^verbatim>\<open>MAXOPBLOCKS\<close> times each and finish with \<^verbatim>\<open>end_op\<close>, up to the \<^verbatim>\<open>end_op\<close> that commits, on a log area of any
  size. No block is logged twice, and there are never more blocks in the log than \<^verbatim>\<open>LOGSIZE\<close>. A further \<^verbatim>\<open>log_write\<close> of a
  system call with calls left succeeds exactly if the area has a block besides the header and those in the log:
  a block that is logged already takes no further space, another one is appended and its buffer pinned.
  Otherwise it panics. So the reservation of \<^verbatim>\<open>begin_op\<close> is sufficient if the area has more than
  \<^verbatim>\<open>LOGSIZE\<close> blocks.
\<close>

theorem log_write_has_room:
  assumes "log_step\<^sup>*\<^sup>* ([], s0) (ops, s)" "log_idle s0" "0 < sint (log_size s0)" "i < length ops" "0 < ops ! i"
  shows "distinct (logged s) \<and> length (logged s) < LOGSIZE \<and>
    (if int (length (logged s)) + 1 < sint (log_size s0)
     then \<exists>s'. log_write b s = Ok s' \<and> distinct (logged s') \<and>
       (if b_blockno (bufs s b) \<in> set (logged s) then s' = s
        else logged s' = logged s @ [b_blockno (bufs s b)] \<and> b_refcnt (bufs s' b) = b_refcnt (bufs s b) + 1)
     else log_write b s = Stop (Panic ''too big a transaction''))"
proof -
  have r: "log_room ops s" "log_size s = log_size s0" using log_run_room [OF assms(1,2)] by simp_all
  have n: "int (length (logged s)) = sint (lh_n s)" using r(1) by (simp add: logged_def log_room_def)
  have sz: "sint (log_size s - 1) = sint (log_size s0) - 1" using sint_pred assms(3) r(2) by simp
  have "ops ! i \<le> sum_list ops" using assms(4) by (simp add: elem_le_sum_list)
  then have l: "distinct (logged s)" "length (logged s) < LOGSIZE" using r(1) n assms(5) by (auto simp: log_room_def)
  show ?thesis
  proof (cases "int (length (logged s)) + 1 < sint (log_size s0)")
    case True
    then have z: "log_free s" using log_room_free [OF r(1) assms(4,5)] n sz by simp
    let ?s = "if b_blockno (bufs s b) \<in> set (logged s) then s else appended b s"
    have "distinct (logged ?s)" using log_room_write [OF r(1) assms(4,5) z, of b] by (simp add: log_room_def)
    then have "\<exists>s'. log_write b s = Ok s' \<and> distinct (logged s') \<and>
       (if b_blockno (bufs s b) \<in> set (logged s) then s' = s
        else logged s' = logged s @ [b_blockno (bufs s b)] \<and> b_refcnt (bufs s' b) = b_refcnt (bufs s b) + 1)"
      using log_write_eq [OF z, of b] logged_appended [OF z, of b] by (intro exI [of _ ?s]) (simp add: appended_def)
    with True l show ?thesis by simp
  next
    case False
    then show ?thesis using log_write_full [OF r(1)] n sz l by simp
  qed
qed

text \<open>A machine on the image of \<^verbatim>\<open>mkfs\<close>, with \<^verbatim>\<open>nlog = LOGSIZE\<close>; buffer \<open>i\<close> holds block \<open>i\<close>.\<close>

definition mkfs_machine :: tstate where
  "mkfs_machine = idle\<lparr>bufs := (\<lambda>i. buf0\<lparr>b_blockno := of_nat i\<rparr>)\<rparr>"

theorem log_write_has_room_witness:
  "\<exists>s'. log_write 7 (mkfs_machine\<lparr>log_outstanding := 1\<rparr>) = Ok s' \<and> logged s' = [7]"
proof -
  let ?s = "mkfs_machine" and ?t = "mkfs_machine\<lparr>log_outstanding := 1\<rparr>"
  have i: "log_idle ?s" by (simp add: log_idle_def mkfs_machine_def idle_def)
  have l: "logged ?t = []" "log_size ?s = 30" "b_blockno (bufs ?t 7) = 7" by (simp_all add: logged_def mkfs_machine_def idle_def)
  have "begin_op (0, \<lambda>_. Stop (Sleeps ChLog)) ?s = Ok ?t"
    using begin_op_eq [OF log_idle_room [OF i]] by (simp add: mkfs_machine_def idle_def)
  then have r: "log_step\<^sup>*\<^sup>* ([], ?s) ([MAXOPBLOCKS], ?t)" using log_step.begins [of ?s ?t "[]"] by auto
  show ?thesis using log_write_has_room [OF r i, of 0 7] l by auto
qed

lemma mkfs_begins:
  "\<exists>s. log_step\<^sup>*\<^sup>* ([], mkfs_machine) ([10, 10, 10], s) \<and> log_room [10, 10, 10] s \<and> logged s = [] \<and> log_size s = 30 \<and>
     bufs s = bufs mkfs_machine"
proof -
  let ?s = "\<lambda>n. mkfs_machine\<lparr>log_outstanding := n\<rparr>"
  have r0: "log_room [] (?s 0)" by (simp add: log_room_def logged_def mkfs_machine_def idle_def)
  have l: "sint (lh_n (?s n)) = 0" for n by (simp add: mkfs_machine_def idle_def)
  have go: "log_step (ops, ?s n) (ops @ [10], ?s (n + 1)) \<and> log_room (ops @ [10]) (?s (n + 1))"
    if "log_room ops (?s n)" "length ops \<le> 2" for ops n
    using log_step.begins [of "?s n" "?s (n + 1)" ops] begin_op_eq [OF that(1)] log_room_begin [OF that(1)] that(2) l [of n]
    by simp
  have 1: "log_step ([], ?s 0) ([10], ?s 1)" "log_room [10] (?s 1)" using go [OF r0] by simp_all
  have 2: "log_step ([10], ?s 1) ([10, 10], ?s 2)" "log_room [10, 10] (?s 2)" using go [OF 1(2)] by simp_all
  have 3: "log_step ([10, 10], ?s 2) ([10, 10, 10], ?s 3)" "log_room [10, 10, 10] (?s 3)" using go [OF 2(2)] by simp_all
  have "log_step\<^sup>*\<^sup>* ([], ?s 0) ([10, 10, 10], ?s 3)" using 1(1) 2(1) 3(1) by (meson converse_rtranclp_into_rtranclp rtranclp.rtrancl_refl)
  moreover have "?s 0 = mkfs_machine" by (simp add: mkfs_machine_def idle_def)
  ultimately show ?thesis using 3(2) by (intro exI [of _ "?s 3"]) (simp add: logged_def mkfs_machine_def idle_def)
qed

lemma mkfs_fills:
  "k \<le> 29 \<Longrightarrow> \<exists>ops s. log_step\<^sup>*\<^sup>* ([], mkfs_machine) (ops, s) \<and> log_room ops s \<and> logged s = map of_nat [0..<k] \<and>
     log_size s = 30 \<and> sum_list ops = 30 - k \<and> (\<forall>i. b_blockno (bufs s i) = of_nat i)"
proof (induction k)
  case 0
  obtain s where "log_step\<^sup>*\<^sup>* ([], mkfs_machine) ([10, 10, 10], s)" "log_room [10, 10, 10] s" "logged s = []" "log_size s = 30"
    "bufs s = bufs mkfs_machine" using mkfs_begins by blast
  then show ?case by (intro exI [of _ "[10, 10, 10]"] exI [of _ s]) (simp add: mkfs_machine_def)
next
  case (Suc k)
  then obtain ops s where s: "log_step\<^sup>*\<^sup>* ([], mkfs_machine) (ops, s)" "log_room ops s" "logged s = map of_nat [0..<k]"
    "log_size s = 30" "sum_list ops = 30 - k" "\<forall>i. b_blockno (bufs s i) = of_nat i" by auto
  then have "sum_list ops \<noteq> 0" using Suc.prems by simp
  then obtain i where i: "i < length ops" "0 < ops ! i" by (metis gr0I in_set_conv_nth sum_list_eq_0_iff)
  have "length (logged s) = k" using s(3) by simp
  then have "sint (lh_n s) = int k" using s(2) by (auto simp: log_room_def logged_def)
  then have z: "log_free s" using log_room_free [OF s(2) i] s(4) Suc.prems by simp
  have "inj_on (of_nat :: nat \<Rightarrow> uint) {..<30}" by (auto simp: inj_on_def word_of_nat_eq_iff take_bit_nat_eq_self)
  then have "(of_nat k :: uint) \<notin> of_nat ` {0..<k}" using Suc.prems by (auto dest: inj_onD)
  then have n: "b_blockno (bufs s k) \<notin> set (logged s)" using s(3,6) by simp
  let ?s = "appended k s" and ?ops = "ops[i := ops ! i - 1]"
  have "log_step (ops, s) (?ops, ?s)" using log_step.writes [OF i] log_write_eq [OF z, of k] n by simp
  then have "log_step\<^sup>*\<^sup>* ([], mkfs_machine) (?ops, ?s)" using s(1) by (rule rtranclp.rtrancl_into_rtrancl [rotated])
  moreover have "log_room ?ops ?s" using log_room_write [OF s(2) i z, of k] n by simp
  moreover have "logged ?s = map of_nat [0..<Suc k]" using logged_appended(1) [OF z] s(3,6) by simp
  moreover have "sum_list ?ops = 30 - Suc k" using i s(5) elem_le_sum_list [OF i(1)] by (simp add: sum_list_update)
  moreover have "log_size ?s = 30" "\<forall>i. b_blockno (bufs ?s i) = of_nat i" using s(4,6) by (simp_all add: appended_def)
  ultimately show ?case by blast
qed

text \<open>
  C26: with the log area that \<^verbatim>\<open>mkfs\<close> lays out, of \<^verbatim>\<open>LOGSIZE\<close> blocks of which one is the header, the reservation of
  \<^verbatim>\<open>begin_op\<close> is one block too generous. Three system calls are admitted and log 29 different blocks, within
  their \<^verbatim>\<open>MAXOPBLOCKS\<close> calls each; the next \<^verbatim>\<open>log_write\<close> of one of them, of any block, panics although that system
  call has calls left.
\<close>

theorem log_area_too_small:
  "sb_nlog (fs_sb mkfs_machine) = of_nat LOGSIZE \<and> log_size mkfs_machine = sb_nlog (fs_sb mkfs_machine) \<and>
   (\<exists>ops s. log_step\<^sup>*\<^sup>* ([], mkfs_machine) (ops, s) \<and> (\<exists>i. i < length ops \<and> 0 < ops ! i) \<and>
     (\<forall>b. log_write b s = Stop (Panic ''too big a transaction'')))"
proof -
  obtain ops s where s: "log_step\<^sup>*\<^sup>* ([], mkfs_machine) (ops, s)" "log_room ops s" "logged s = map of_nat [0..<29]"
    "log_size s = 30" "sum_list ops = 1" using mkfs_fills [of 29] by auto
  have "length (logged s) = 29" using s(3) by simp
  then have "sint (lh_n s) = 29" using s(2) by (auto simp: log_room_def logged_def)
  then have "\<forall>b. log_write b s = Stop (Panic ''too big a transaction'')"
    using s(2,4) by (simp add: log_write_def run_simps log_room_def)
  moreover have "\<exists>i. i < length ops \<and> 0 < ops ! i" using s(5) by (metis gr0I in_set_conv_nth sum_list_eq_0_iff zero_neq_one)
  ultimately show ?thesis using s(1) by (auto simp: mkfs_machine_def idle_def)
qed

end
