(* ===== verification/Diskspec.thy ===== *)
theory Diskspec
  imports Demo
begin

text \<open>
  The disk driver against a device that serves requests as the virtio specification says: a
  request returns, the block is transferred, and the driver is quiescent again. The device is a
  parameter; \<open>disk_device\<close> is what the driver relies on, and \<open>disk_driver\<close> is the interface the block
  cache and the log are verified against.
\<close>

declare alloc_desc_from.simps [simp del]

section \<open>The device\<close>

definition block_at :: "bytes \<Rightarrow> uint64 \<Rightarrow> nat \<Rightarrow> uchar" where
  "block_at m a = (\<lambda>i. if i < BSIZE then m (a + of_nat i) else 0)"

definition put_block :: "bytes \<Rightarrow> uint64 \<Rightarrow> (nat \<Rightarrow> uchar) \<Rightarrow> bytes" where
  "put_block m a v = (\<lambda>x. if unat (x - a) < BSIZE then v (unat (x - a)) else m x)"

text \<open>
  The next request in the available ring: the chain of descriptors starting at \<open>h\<close> has a header in
  \<^verbatim>\<open>disk.ops[h]\<close>, one block of data and the status byte of \<^verbatim>\<open>disk.info[h]\<close>; the device writes to the
  data only when the request is a read.
\<close>

definition request_at :: "nat \<Rightarrow> 'a vstate_scheme \<Rightarrow> bool" where
  "request_at h s \<longleftrightarrow> vd_used_hw s \<noteq> vd_avail_idx s \<and> h < NUM
     \<and> unat (vd_avail s (unat (vd_used_hw s) mod NUM)) = h
     \<and> (let d0 = vd_desc s h; d1 = vd_desc s (unat (vq_next d0)); d2 = vd_desc s (unat (vq_next d1))
        in vq_addr d0 = vd_ops_addr s h \<and> vq_len d0 = 16 \<and> vq_flags d0 = VRING_DESC_F_NEXT
         \<and> vq_len d1 = of_nat BSIZE
         \<and> vq_flags d1 = (if vr_out (vd_ops s h) then VRING_DESC_F_NEXT else VRING_DESC_F_WRITE OR VRING_DESC_F_NEXT)
         \<and> vq_addr d2 = vd_status_addr s h \<and> vq_len d2 = 1 \<and> vq_flags d2 = VRING_DESC_F_WRITE
         \<and> even (unat (vr_sector (vd_ops s h))))"

definition served :: "nat \<Rightarrow> 'a vstate_scheme \<Rightarrow> 'a vstate_scheme" where
  "served h s =
     (let a = vq_addr (vd_desc s (unat (vq_next (vd_desc s h))));
          k = unat (vr_sector (vd_ops s h)) div 2;
          s = (if vr_out (vd_ops s h)
               then s\<lparr>platter := (platter s)(k := block_at (mem s) a), disk_log := disk_log s @ [(k, block_at (mem s) a)]\<rparr>
               else s\<lparr>mem := put_block (mem s) a (platter s k)\<rparr>)
      in s\<lparr>vd_status := (vd_status s)(h := 0),
           vd_used := (vd_used s)(unat (vd_used_hw s) mod NUM := of_nat h),
           vd_used_hw := vd_used_hw s + 1\<rparr>)"

definition disk_device :: "('a vstate_scheme \<Rightarrow> 'a vstate_scheme) \<Rightarrow> bool" where
  "disk_device dev \<longleftrightarrow> (\<forall>h s. request_at h s \<longrightarrow> dev s = served h s)"

text \<open>
  What happens while the caller sleeps: the scheduler releases the lock of the process, the device
  serves a request and raises its interrupt, and the scheduler runs the process again, provided
  that it has been made runnable.
\<close>

definition disk_others :: "(uint \<Rightarrow> uint) \<Rightarrow> ('a vstate_scheme \<Rightarrow> 'a vstate_scheme) \<Rightarrow> 'a vstate_scheme
    \<Rightarrow> 'a vstate_scheme result" where
  "disk_others R dev s =
     rbind (myproc s) (\<lambda>p.
     rbind (lk_release (ProcLock p) s) (\<lambda>s.
     rbind (virtio_disk_intr R (dev (s\<lparr>curproc := None\<rparr>))) (\<lambda>s.
     rbind (lk_acquire (ProcLock p) s) (\<lambda>s.
     if p_state (procs s p) = RUNNABLE
     then Ok ((updp p (\<lambda>q. q\<lparr>p_state := RUNNING\<rparr>) s)\<lparr>curproc := Some p\<rparr>) else Stop Spinning))))"

section \<open>Quiescence and transfer\<close>

definition disk_quiet :: "'a vstate_scheme \<Rightarrow> bool" where
  "disk_quiet s \<longleftrightarrow> held s = {} \<and> (\<exists>p < NPROC. curproc s = Some p) \<and> (\<forall>i < NUM. vd_free s i)
     \<and> vd_used_idx s = vd_avail_idx s \<and> vd_used_hw s = vd_avail_idx s"

text \<open>What no operation of the driver changes.\<close>

definition vframe :: "'a vstate_scheme \<Rightarrow> 'a vstate_scheme \<Rightarrow> bool" where
  "vframe s t \<longleftrightarrow> slks t = slks s \<and> vstate.more t = vstate.more s \<and> curproc t = curproc s
     \<and> freelist t = freelist s \<and> (\<forall>q. p_pid (procs t q) = p_pid (procs s q))"

definition moved :: "bool \<Rightarrow> nat \<Rightarrow> uint64 \<Rightarrow> 'a vstate_scheme \<Rightarrow> 'a vstate_scheme \<Rightarrow> bool" where
  "moved write k a s t \<longleftrightarrow>
     (if write then mem t = mem s \<and> platter t = (platter s)(k := block_at (mem s) a)
        \<and> disk_log t = disk_log s @ [(k, block_at (mem s) a)]
      else mem t = put_block (mem s) a (platter s k) \<and> platter t = platter s \<and> disk_log t = disk_log s)"

definition transfer :: "nat \<Rightarrow> bool \<Rightarrow> 'a vstate_scheme \<Rightarrow> 'a vstate_scheme \<Rightarrow> bool" where
  "transfer b write s t \<longleftrightarrow> disk_quiet t \<and> vframe s t
     \<and> bufs t = (bufs s)(b := (bufs s b)\<lparr>b_disk := False\<rparr>)
     \<and> moved write (unat (b_blockno (bufs s b))) (b_data (bufs s b)) s t"

lemma vframe_refl [simp]: "vframe s s"
  by (simp add: vframe_def)

lemma vframe_trans [trans]: "vframe s t \<Longrightarrow> vframe t u \<Longrightarrow> vframe s u"
  by (simp add: vframe_def)

section \<open>The driver\<close>

lemma alloc3_quiet:
  assumes "\<forall>i < NUM. vd_free s i"
  shows "alloc3_desc s = Ok (Some [0, 1, 2], s\<lparr>vd_free := (vd_free s)(0 := False, 1 := False, 2 := False)\<rparr>)"
proof -
  have "vd_free s 0" "vd_free s 1" "vd_free s 2" using assms by simp_all
  then show ?thesis
    by (simp add: alloc3_desc_def numeral_3_eq_3 alloc_desc_def
        alloc_desc_from.simps [of 0] alloc_desc_from.simps [of "Suc 0"] alloc_desc_from.simps [of "Suc (Suc 0)"]
        numeral_2_eq_2)
qed

text \<open>The request after \<^verbatim>\<open>virtio_submit\<close>, with what is needed to finish it.\<close>

definition in_flight :: "nat \<Rightarrow> 'a vstate_scheme \<Rightarrow> bool" where
  "in_flight b s \<longleftrightarrow> request_at 0 s \<and> vd_info_b s 0 = Some b \<and> vd_used_hw s = vd_used_idx s
     \<and> vd_avail_idx s = vd_used_idx s + 1 \<and> vq_next (vd_desc s 0) = 1 \<and> vq_next (vd_desc s 1) = 2
     \<and> vq_addr (vd_desc s 1) = b_data (bufs s b)
     \<and> vr_sector (vd_ops s 0) = ucast (b_blockno (bufs s b) * 2)
     \<and> \<not> vd_free s 0 \<and> \<not> vd_free s 1 \<and> \<not> vd_free s 2 \<and> (\<forall>i < NUM. 2 < i \<longrightarrow> vd_free s i)"

lemma in_flight_upd [simp]:
  "in_flight b (s\<lparr>held := H\<rparr>) = in_flight b s" "in_flight b (s\<lparr>curproc := c\<rparr>) = in_flight b s"
  "in_flight b (s\<lparr>procs := P\<rparr>) = in_flight b s" "in_flight b (updp p f s) = in_flight b s"
  by (simp_all add: in_flight_def request_at_def updp_def)

lemma submit_in_flight:
  fixes s :: "'a vstate_scheme" and H :: "lockid set" and wr :: bool
  assumes "disk_quiet s" and "unat (b_blockno (bufs s b)) < 2 ^ 31"
  defines "u \<equiv> virtio_submit 0 (virtio_format b wr [0, 1, 2]
      (s\<lparr>held := H, vd_free := (vd_free s)(0 := False, 1 := False, 2 := False)\<rparr>))"
  shows "in_flight b u" "vr_out (vd_ops u 0) = wr" "vframe s u" "held u = H" "mem u = mem s" "platter u = platter s"
    "disk_log u = disk_log s" "bufs u = (bufs s)(b := (bufs s b)\<lparr>b_disk := True\<rparr>)" "procs u = procs s"
proof -
  have e: "even (unat (ucast (b_blockno (bufs s b) * 2) :: uint64))"
    using assms(2) by (simp add: unsigned_ucast_eq unat_word_ariths)
  show "in_flight b u"
    using assms(1) e by (simp add: u_def in_flight_def disk_quiet_def virtio_submit_def virtio_format_def request_at_def
        mmio_write_def updb_def Let_def)
qed (simp_all add: u_def virtio_submit_def virtio_format_def mmio_write_def updb_def vframe_def)

lemma served_in_flight:
  fixes s :: "'a vstate_scheme"
  assumes "in_flight b s" and "unat (b_blockno (bufs s b)) < 2 ^ 31"
  defines "u \<equiv> served 0 s"
  shows "moved (vr_out (vd_ops s 0)) (unat (b_blockno (bufs s b))) (b_data (bufs s b)) s u"
    and "vd_used_hw u = vd_used_idx u + 1" "vd_status u 0 = 0" "vd_used u (unat (vd_used_idx u) mod NUM) = 0"
    and "vd_info_b u = vd_info_b s" "vd_free u = vd_free s" "vd_desc u = vd_desc s" "bufs u = bufs s" "vframe s u"
    and "held u = held s" "procs u = procs s" "vd_avail_idx u = vd_used_idx u + 1" "curproc u = curproc s"
proof -
  have k: "unat (ucast (b_blockno (bufs s b) * 2) :: uint64) div 2 = unat (b_blockno (bufs s b))"
    using assms(2) by (simp add: unsigned_ucast_eq unat_word_ariths)
  show "moved (vr_out (vd_ops s 0)) (unat (b_blockno (bufs s b))) (b_data (bufs s b)) s u"
    using assms(1) k by (auto simp: u_def served_def moved_def in_flight_def Let_def)
qed (use assms(1) in \<open>auto simp: u_def served_def in_flight_def vframe_def Let_def\<close>)

lemma disk_others_in_flight:
  assumes dev: "disk_device dev" and f: "in_flight b s" and h: "held s = {ProcLock p}" and p: "curproc s = Some p" "p < NPROC"
    and z: "p_state (procs s p) = SLEEPING" "p_chan (procs s p) = ChDiskBuf b" and k: "unat (b_blockno (bufs s b)) < 2 ^ 31"
  shows "\<exists>t. disk_others R dev s = Ok t \<and> held t = {ProcLock p} \<and> vframe s t
    \<and> bufs t = (bufs s)(b := (bufs s b)\<lparr>b_disk := False\<rparr>)
    \<and> moved (vr_out (vd_ops s 0)) (unat (b_blockno (bufs s b))) (b_data (bufs s b)) s t
    \<and> vd_free t = vd_free s \<and> vd_desc t = vd_desc s \<and> vd_used_idx t = vd_avail_idx t \<and> vd_used_hw t = vd_avail_idx t"
proof -
  let ?s = "s\<lparr>held := {}, curproc := None\<rparr>"
  have f': "in_flight b ?s" using f by simp
  then have d: "dev ?s = served 0 ?s" using dev by (simp add: disk_device_def in_flight_def)
  define u where "u = served 0 ?s"
  note u = served_in_flight [OF f', folded u_def, simplified, OF k [simplified]]
  let ?v = "updb b (\<lambda>q. q\<lparr>b_disk := False\<rparr>) (mmio_write 100 (R 96 AND 3) (u\<lparr>held := {DiskLock}\<rparr>))"
  have nl: "no_proc_lock ?v" by (simp add: no_proc_lock_def updb_def mmio_write_def)
  have i: "vd_info_b u 0 = Some b" using f' u(5) by (simp add: in_flight_def)
  have one: "unat (1 :: ushort) = Suc 0" by simp
  obtain P where P: "wakeup (ChDiskBuf b) ?v = Ok (?v\<lparr>procs := P\<rparr>)" "P p = (procs s p)\<lparr>p_state := RUNNABLE\<rparr>"
    "\<And>q. p_pid (P q) = p_pid (procs s q)"
    using wakeup_eq [OF nl, of "ChDiskBuf b"] p z u by (auto simp: wakes_def updb_def mmio_write_def)
  have "virtio_disk_intr R u = Ok (?v\<lparr>procs := P, vd_used_idx := vd_used_idx u + 1, held := {}\<rparr>)"
    using u i P(1) by (simp add: virtio_disk_intr_def run_simps one intr_one_def updb_def mmio_write_def)
  then have "disk_others R dev s = Ok ((updp p (\<lambda>q. q\<lparr>p_state := RUNNING\<rparr>)
      (?v\<lparr>procs := P, vd_used_idx := vd_used_idx u + 1, held := {ProcLock p}\<rparr>))\<lparr>curproc := Some p\<rparr>)"
    using h p d P(2) u by (simp add: disk_others_def myproc_def run_simps u_def [symmetric])
  then show ?thesis
    using u p P(3) by (auto simp: vframe_def moved_def updb_def updp_def mmio_write_def)
qed

text \<open>\<^verbatim>\<open>sleep\<close> with the lock \<open>lk\<close> as the only one held, when the surroundings come back with the process lock.\<close>

lemma sleep_returns:
  assumes "held s = {lk}" "curproc s = Some p" "lk \<noteq> ProcLock p"
    and "others (updp p (\<lambda>q. q\<lparr>p_chan := ch, p_state := SLEEPING\<rparr>) (s\<lparr>held := {ProcLock p}\<rparr>)) = Ok u"
    and "held u = {ProcLock p}"
  shows "sleep others ch lk s = Ok ((updp p (\<lambda>q. q\<lparr>p_chan := ChNone\<rparr>) u)\<lparr>held := {lk}\<rparr>)"
  using assms by (simp add: sleep_def sched_def myproc_def run_simps insert_Diff_if)

lemma free_desc_eq:
  assumes "i < NUM" "\<not> vd_free s i" "no_proc_lock s"
  obtains P where "free_desc i s = Ok (s\<lparr>vd_desc := (vd_desc s)(i := desc0), vd_free := (vd_free s)(i := True), procs := P\<rparr>)"
    "\<And>q. p_pid (P q) = p_pid (procs s q)"
proof -
  let ?s = "s\<lparr>vd_desc := (vd_desc s)(i := desc0), vd_free := (vd_free s)(i := True)\<rparr>"
  have "no_proc_lock ?s" using assms(3) by (simp add: no_proc_lock_def)
  then obtain P where P: "wakeup ChDiskFree ?s = Ok (?s\<lparr>procs := P\<rparr>)"
    "\<And>i. P i = procs ?s i \<or> P i = (procs ?s i)\<lparr>p_state := RUNNABLE\<rparr>"
    using wakeup_some by blast
  have "p_pid (P q) = p_pid (procs s q)" for q using P(2) [of q] by auto
  with that [of P] P(1) assms(1,2) show ?thesis by (simp add: free_desc_def desc0_def)
qed

lemma free_chain_3:
  assumes "\<not> vd_free s 0" "\<not> vd_free s 1" "\<not> vd_free s 2" "no_proc_lock s"
    and "vq_flags (vd_desc s 0) = 1" "vq_next (vd_desc s 0) = 1" "vq_flags (vd_desc s 1) AND 1 \<noteq> 0"
    and "vq_next (vd_desc s 1) = 2" "vq_flags (vd_desc s 2) = 2"
  obtains P D where "free_chain 0 s = Ok (s\<lparr>vd_desc := D, vd_free := (vd_free s)(0 := True, 1 := True, 2 := True), procs := P\<rparr>)"
    "\<And>q. p_pid (P q) = p_pid (procs s q)"
proof -
  have nl: "no_proc_lock (s\<lparr>vd_desc := D, vd_free := F, procs := P\<rparr>)" for D F P
    using assms(4) by (simp add: no_proc_lock_def)
  obtain P0 where P0: "free_desc 0 s = Ok (s\<lparr>vd_desc := (vd_desc s)(0 := desc0), vd_free := (vd_free s)(0 := True), procs := P0\<rparr>)"
    (is "_ = Ok ?a") "\<And>q. p_pid (P0 q) = p_pid (procs s q)"
    using free_desc_eq [of 0 s] assms(1,4) by auto
  obtain P1 where P1: "free_desc 1 ?a = Ok (?a\<lparr>vd_desc := (vd_desc ?a)(1 := desc0), vd_free := (vd_free ?a)(1 := True), procs := P1\<rparr>)"
    (is "_ = Ok ?b") "\<And>q. p_pid (P1 q) = p_pid (procs ?a q)"
    using free_desc_eq [of 1 ?a] assms(2) nl by auto
  obtain P2 where P2: "free_desc 2 ?b = Ok (?b\<lparr>vd_desc := (vd_desc ?b)(2 := desc0), vd_free := (vd_free ?b)(2 := True), procs := P2\<rparr>)"
    (is "_ = Ok ?c") "\<And>q. p_pid (P2 q) = p_pid (procs ?b q)"
    using free_desc_eq [of 2 ?b] assms(3) nl by auto
  have "free_chain_loop (Suc (Suc (Suc n))) 0 s = Ok ?c" for n
    using P0(1) P1(1) P2(1) assms(5-9) by simp
  from this [of 6] have "free_chain 0 s = Ok ?c" by (simp add: free_chain_def)
  with that [of P2 "vd_desc ?c"] P0(2) P1(2) P2(2) show ?thesis by (simp add: fun_upd_twist)
qed

section \<open>A request\<close>

lemma finish_request:
  assumes f: "vd_used_idx s = vd_avail_idx s" "vd_used_hw s = vd_avail_idx s" "\<forall>i < NUM. 2 < i \<longrightarrow> vd_free s i"
    "\<not> vd_free s 0" "\<not> vd_free s 1" "\<not> vd_free s 2"
    and d: "vq_flags (vd_desc s 0) = 1" "vq_next (vd_desc s 0) = 1" "vq_flags (vd_desc s 1) AND 1 \<noteq> 0"
      "vq_next (vd_desc s 1) = 2" "vq_flags (vd_desc s 2) = 2"
    and p: "held s = {DiskLock}" "curproc s = Some p" "p < NPROC"
  shows "\<exists>t. rbind (free_chain 0 (s\<lparr>vd_info_b := I\<rparr>)) (lk_release DiskLock) = Ok t \<and> disk_quiet t \<and> vframe s t
    \<and> bufs t = bufs s \<and> mem t = mem s \<and> platter t = platter s \<and> disk_log t = disk_log s"
proof -
  let ?s = "s\<lparr>vd_info_b := I\<rparr>"
  have "no_proc_lock ?s" using p by (simp add: no_proc_lock_def)
  with f(4-6) d obtain P D where P: "free_chain 0 ?s =
      Ok (?s\<lparr>vd_desc := D, vd_free := (vd_free ?s)(0 := True, 1 := True, 2 := True), procs := P\<rparr>)" (is "_ = Ok ?t")
    "\<And>q. p_pid (P q) = p_pid (procs ?s q)"
    using free_chain_3 [of ?s] by auto
  have "rbind (free_chain 0 ?s) (lk_release DiskLock) = Ok (?t\<lparr>held := {}\<rparr>)"
    using P(1) p(1) by (simp add: run_simps)
  moreover have "\<forall>i < NUM. vd_free (?t\<lparr>held := {}\<rparr>) i"
    using f(3) by auto
  ultimately show ?thesis using P(2) f(1,2) p(2,3) by (auto simp: disk_quiet_def vframe_def)
qed

lemma virtio_disk_rw_ok:
  assumes "disk_device dev" and q: "disk_quiet s" and k: "unat (b_blockno (bufs s b)) < 2 ^ 31"
  shows "\<exists>t. virtio_disk_rw (Suc n, disk_others R dev) b write s = Ok t \<and> transfer b write s t"
proof -
  obtain p where p: "curproc s = Some p" "p < NPROC" and h: "held s = {}" and fr: "\<forall>i < NUM. vd_free s i"
    using q by (auto simp: disk_quiet_def)
  let ?F = "(vd_free s)(0 := False, 1 := False, 2 := False)"
  let ?a = "s\<lparr>held := {DiskLock}, vd_free := ?F\<rparr>"
  define u where "u = virtio_submit 0 (virtio_format b write [0, 1, 2] ?a)"
  note u = submit_in_flight [OF q k, of "write" "{DiskLock}", folded u_def]
  let ?z = "updp p (\<lambda>q. q\<lparr>p_chan := ChDiskBuf b, p_state := SLEEPING\<rparr>) (u\<lparr>held := {ProcLock p}\<rparr>)"
  have cu: "curproc u = Some p" using u(3) p by (simp add: vframe_def)
  have z: "bufs ?z = bufs u" "mem ?z = mem u" "platter ?z = platter u" "disk_log ?z = disk_log u" "vd_ops ?z = vd_ops u"
    "vframe u ?z" "vd_free ?z = vd_free u" "vd_desc ?z = vd_desc u" by (simp_all add: updp_def vframe_def)
  have "unat (b_blockno (bufs ?z b)) < 2 ^ 31" using k by (simp add: z u)
  with disk_others_in_flight [OF assms(1), of b ?z p R] u(1) cu p(2) z
  obtain v where v: "disk_others R dev ?z = Ok v" "held v = {ProcLock p}" "vframe ?z v"
    "bufs v = (bufs u)(b := (bufs u b)\<lparr>b_disk := False\<rparr>)"
    "moved write (unat (b_blockno (bufs u b))) (b_data (bufs u b)) ?z v"
    "vd_free v = vd_free u" "vd_desc v = vd_desc u" "vd_used_idx v = vd_avail_idx v" "vd_used_hw v = vd_avail_idx v"
    by (auto simp: u(2))
  let ?v = "(updp p (\<lambda>q. q\<lparr>p_chan := ChNone\<rparr>) v)\<lparr>held := {DiskLock}\<rparr>"
  have sl: "sleep (disk_others R dev) (ChDiskBuf b) DiskLock u = Ok ?v"
    by (rule sleep_returns) (use u(4) cu v in simp_all)
  have v': "bufs ?v = bufs v" "mem ?v = mem v" "platter ?v = platter v" "disk_log ?v = disk_log v" "vframe v ?v"
    "vd_free ?v = vd_free v" "vd_desc ?v = vd_desc v" "vd_used_idx ?v = vd_used_idx v" "vd_used_hw ?v = vd_used_hw v"
    "vd_avail_idx ?v = vd_avail_idx v" "curproc ?v = curproc v" by (simp_all add: updp_def vframe_def)
  have f: "vframe s ?v" using u(3) z(6) v(3) v'(5) by (blast intro: vframe_trans)
  have fl: "in_flight b u" "vr_out (vd_ops u 0) = write" by (fact u)+
  have "\<exists>t. rbind (free_chain 0 (?v\<lparr>vd_info_b := I\<rparr>)) (lk_release DiskLock) = Ok t \<and> disk_quiet t \<and> vframe ?v t
    \<and> bufs t = bufs ?v \<and> mem t = mem ?v \<and> platter t = platter ?v \<and> disk_log t = disk_log ?v" for I
    by (rule finish_request [where p = p])
      (use fl v f p in \<open>auto simp: v' in_flight_def request_at_def vframe_def Let_def split: if_splits\<close>)
  then obtain t where t: "rbind (free_chain 0 (?v\<lparr>vd_info_b := (vd_info_b ?v)(0 := None)\<rparr>)) (lk_release DiskLock) = Ok t"
    "disk_quiet t" "vframe ?v t" "bufs t = bufs v" "mem t = mem v" "platter t = platter v" "disk_log t = disk_log v"
    by (auto simp: v')
  have w: "virtio_wait (Suc n) (disk_others R dev) b u = Ok ?v"
    using sl by (cases n) (simp_all add: u(8) v(4) v'(1))
  have al: "alloc3_desc (s\<lparr>held := {DiskLock}\<rparr>) = Ok (Some [0, 1, 2], ?a)"
    using alloc3_quiet [of "s\<lparr>held := {DiskLock}\<rparr>"] fr by simp
  have "virtio_disk_rw (Suc n, disk_others R dev) b write s = Ok t"
    using h al w t(1) by (simp add: virtio_disk_rw_def run_simps u_def Let_def del: virtio_wait.simps)
  moreover have "transfer b write s t"
    using t f v(4,5) u z by (auto simp: transfer_def moved_def intro: vframe_trans)
  ultimately show ?thesis by blast
qed

text \<open>
  C2: the disk driver completes every request. With a device that serves requests as specified, a
  read or write of a block on a quiescent driver sets up a well-formed request, sleeps, is woken
  by the interrupt handler and returns: a write has put the contents of the buffer on the disk,
  a read has filled the buffer from it, nothing else in memory or on the disk has changed, and
  the driver is quiescent again with all descriptors free.
\<close>

theorem disk_rw_transfers:
  assumes "disk_device dev" and "disk_quiet s" and "unat (b_blockno (bufs s b)) < 2 ^ 31"
  shows "\<exists>t. virtio_disk_rw (Suc n, disk_others R dev) b write s = Ok t \<and> transfer b write s t"
  using assms by (rule virtio_disk_rw_ok)

text \<open>A device that takes the next request of the available ring.\<close>

definition ring_device :: "'a vstate_scheme \<Rightarrow> 'a vstate_scheme" where
  "ring_device s = served (unat (vd_avail s (unat (vd_used_hw s) mod NUM))) s"

lemma disk_device_ring: "disk_device ring_device"
  by (simp add: disk_device_def ring_device_def request_at_def)

text \<open>Process 0 of \<open>busy\<close> writes the buffer 3, which holds block 7.\<close>

theorem disk_rw_transfers_witness:
  "\<exists>t. virtio_disk_rw (Suc 0, disk_others (\<lambda>_. 0) ring_device) 3 True
       (busy\<lparr>bufs := (bufs busy)(3 := buf0\<lparr>b_blockno := 7, b_data := 0x80020c00\<rparr>), mem := (\<lambda>_. 9)\<rparr>) = Ok t
     \<and> platter t 7 1000 = 9 \<and> platter t 8 1000 = 0 \<and> \<not> b_disk (bufs t 3) \<and> vd_free t 0"
proof -
  let ?s = "busy\<lparr>bufs := (bufs busy)(3 := buf0\<lparr>b_blockno := 7, b_data := 0x80020c00\<rparr>), mem := (\<lambda>_. 9)\<rparr>"
  have q: "disk_quiet ?s" "unat (b_blockno (bufs ?s 3)) < 2 ^ 31" by (simp_all add: disk_quiet_def busy_def idle_def)
  obtain t where t: "virtio_disk_rw (Suc 0, disk_others (\<lambda>_. 0) ring_device) 3 True ?s = Ok t" "transfer 3 True ?s t"
    using disk_rw_transfers [OF disk_device_ring q, of 0 "\<lambda>_. 0" True] by blast
  then have "platter t 7 1000 = 9 \<and> platter t 8 1000 = 0 \<and> \<not> b_disk (bufs t 3) \<and> vd_free t 0"
    by (auto simp: transfer_def moved_def disk_quiet_def block_at_def busy_def idle_def)
  with t(1) show ?thesis by blast
qed

section \<open>The interface of the driver\<close>

locale disk_driver =
  fixes E :: "'a vstate_scheme env"
  assumes rw: "disk_quiet s \<Longrightarrow> unat (b_blockno (bufs s b)) < 2 ^ 31 \<Longrightarrow>
    \<exists>t. virtio_disk_rw E b write s = Ok t \<and> transfer b write s t"

lemma disk_driver_device: "disk_device dev \<Longrightarrow> disk_driver (Suc n, disk_others R dev)"
  by unfold_locales (rule virtio_disk_rw_ok)

interpretation ring: disk_driver "(Suc n, disk_others R ring_device)" for n R
  by (rule disk_driver_device) (rule disk_device_ring)

end
