(* ===== verification/Biospec.thy ===== *)
theory Biospec
  imports Diskspec
begin

text \<open>
  The block cache on top of the disk driver. The ring of buffers is a list, most recently used
  first. Seen from outside, the cache is a store of blocks: \<open>content\<close> is what a reader of a block
  gets, \<open>refs\<close> how often it is referenced, \<open>blocked\<close> which blocks are locked. The locale \<open>block_store\<close> is
  this interface; the log is verified against it.
\<close>

section \<open>The ring\<close>

primrec chain :: "nat \<Rightarrow> nat list \<Rightarrow> nat \<Rightarrow> (nat \<Rightarrow> buf) \<Rightarrow> bool" where
  "chain a [] z B \<longleftrightarrow> b_next (B a) = z \<and> b_prev (B z) = a"
| "chain a (x # xs) z B \<longleftrightarrow> b_next (B a) = x \<and> b_prev (B x) = a \<and> chain x xs z B"

definition ring :: "nat list \<Rightarrow> 'a vstate_scheme \<Rightarrow> bool" where
  "ring l s \<longleftrightarrow> chain bhead l bhead (bufs s) \<and> distinct l \<and> set l = {0..<NBUF}"

lemma chain_append: "chain a (xs @ x # ys) z B \<longleftrightarrow> chain a xs x B \<and> chain x ys z B"
  by (induction xs arbitrary: a) auto

lemma chain_cong:
  assumes "\<And>x. x \<in> insert a (set xs) \<Longrightarrow> b_next (B' x) = b_next (B x)" "\<And>x. x \<in> insert z (set xs) \<Longrightarrow> b_prev (B' x) = b_prev (B x)"
  shows "chain a xs z B' \<longleftrightarrow> chain a xs z B"
  using assms by (induction xs arbitrary: a) auto

lemma chain_ends: "chain a xs z B \<Longrightarrow> b_next (B a) = hd (xs @ [z]) \<and> b_prev (B z) = last (a # xs)"
  by (induction xs arbitrary: a) auto

lemma bget_cached_eq:
  assumes "chain a l bhead (bufs s)" "bhead \<notin> set l" "length l < fuel"
  shows "bget_cached fuel dev k (b_next (bufs s a)) s = Ok (find (\<lambda>b. b_dev (bufs s b) = dev \<and> b_blockno (bufs s b) = k) l)"
  using assms
proof (induction l arbitrary: a fuel)
  case Nil
  then show ?case by (cases fuel) auto
next
  case (Cons x l)
  then show ?case by (cases fuel) auto
qed

lemma bget_unused_eq:
  assumes "chain bhead l z (bufs s)" "bhead \<notin> set l" "length l < fuel"
  shows "bget_unused fuel (b_prev (bufs s z)) s = Ok (find (\<lambda>b. b_refcnt (bufs s b) = 0) (rev l))"
  using assms
proof (induction l arbitrary: z fuel rule: rev_induct)
  case Nil
  then show ?case by (cases fuel) auto
next
  case (snoc x l)
  then show ?case by (cases fuel) (auto simp: chain_append)
qed

text \<open>Taking a buffer out of the ring and putting it in behind the head.\<close>

definition unlink :: "nat \<Rightarrow> (nat \<Rightarrow> buf) \<Rightarrow> nat \<Rightarrow> buf" where
  "unlink b B = (let B = B(b_next (B b) := (B (b_next (B b)))\<lparr>b_prev := b_prev (B b)\<rparr>)
     in B(b_prev (B b) := (B (b_prev (B b)))\<lparr>b_next := b_next (B b)\<rparr>))"

lemma unlink_links:
  assumes "b_next (B b) \<noteq> b"
  shows "b_next (unlink b B w) = (if w = b_prev (B b) then b_next (B b) else b_next (B w))"
    "b_prev (unlink b B w) = (if w = b_next (B b) then b_prev (B b) else b_prev (B w))"
  using assms by (auto simp: unlink_def Let_def)

lemma chain_unlink:
  assumes "chain a (xs @ b # ys) z B" "distinct (a # xs @ b # ys)" "z = a \<or> z \<notin> set (a # xs @ b # ys)"
  shows "chain a (xs @ ys) z (unlink b B)"
proof -
  have c: "chain a xs b B" "chain b ys z B" using assms(1) by (simp_all add: chain_append)
  note e = chain_ends [OF c(1)] chain_ends [OF c(2)]
  have "b_next (B b) \<noteq> b" using e assms(2,3) by (cases ys) auto
  note u = unlink_links [where B = B, OF this]
  have "chain a xs n (unlink b B)" if "n = b_next (B b)" for n
  proof (cases xs rule: rev_cases)
    case Nil
    then show ?thesis using e that by (simp add: u)
  next
    case (snoc xs' x)
    have "chain a xs' x (unlink b B) = chain a xs' x B"
      by (rule chain_cong) (use assms(2,3) snoc e in \<open>cases ys; auto simp: u\<close>)+
    with snoc c(1) e that show ?thesis by (simp add: chain_append u)
  qed
  moreover have "chain y ys' z (unlink b B)" if y: "ys = y # ys'" for y ys'
  proof -
    have "chain y ys' z (unlink b B) = chain y ys' z B"
      by (rule chain_cong) (use assms(2,3) y e in \<open>cases xs rule: rev_cases; auto simp: u\<close>)+
    with c(2) y show ?thesis by simp
  qed
  ultimately show ?thesis using e by (cases ys) (auto simp: chain_append)
qed

lemma chain_link:
  assumes "chain a xs a (bufs s)" "distinct (a # xs)" "b \<notin> set (a # xs)" "a = bhead"
  shows "chain a (b # xs) a (bufs (link_front b s))"
proof (cases xs)
  case Nil
  then show ?thesis using assms by (simp add: link_front_def updb_def Let_def)
next
  case (Cons y ys)
  then have "chain y ys a (bufs (link_front b s)) = chain y ys a (bufs s)"
    using assms by (intro chain_cong) (auto simp: link_front_def updb_def Let_def)
  with Cons assms show ?thesis by (auto simp: link_front_def updb_def Let_def)
qed

section \<open>The cache as a store of blocks\<close>

definition lookup :: "uint \<Rightarrow> uint \<Rightarrow> 'a vstate_scheme \<Rightarrow> nat option" where
  "lookup d k s = find (\<lambda>b. b_dev (bufs s b) = d \<and> b_blockno (bufs s b) = k) [0..<NBUF]"

definition refs :: "uint \<Rightarrow> 'a vstate_scheme \<Rightarrow> uint \<Rightarrow> nat" where
  "refs d s k = (case lookup d k s of Some b \<Rightarrow> unat (b_refcnt (bufs s b)) | None \<Rightarrow> 0)"

definition content :: "uint \<Rightarrow> 'a vstate_scheme \<Rightarrow> uint \<Rightarrow> nat \<Rightarrow> uchar" where
  "content d s k = (case lookup d k s of
      Some b \<Rightarrow> if b_valid (bufs s b) then block_at (mem s) (b_data (bufs s b)) else platter s (unat k)
    | None \<Rightarrow> platter s (unat k))"

definition blocked :: "uint \<Rightarrow> 'a vstate_scheme \<Rightarrow> uint set" where
  "blocked d s = {k. \<exists>b < NBUF. b_dev (bufs s b) = d \<and> b_blockno (bufs s b) = k \<and> sl_locked (slks s (BufLock b)) \<noteq> 0}"

text \<open>The calling process has buffer \<open>b\<close>, which holds block \<open>k\<close>, locked.\<close>

definition holds :: "uint \<Rightarrow> 'a vstate_scheme \<Rightarrow> nat \<Rightarrow> uint \<Rightarrow> bool" where
  "holds d s b k \<longleftrightarrow> b < NBUF \<and> b_dev (bufs s b) = d \<and> b_blockno (bufs s b) = k \<and> b_valid (bufs s b)
     \<and> sl_locked (slks s (BufLock b)) \<noteq> 0
     \<and> (\<exists>p. curproc s = Some p \<and> sl_pid (slks s (BufLock b)) = p_pid (procs s p))"

definition in_buf :: "'a vstate_scheme \<Rightarrow> nat \<Rightarrow> uint64 \<Rightarrow> bool" where
  "in_buf s b x \<longleftrightarrow> unat (x - b_data (bufs s b)) < BSIZE"

text \<open>
  The invariant of the cache for the blocks of device \<open>d\<close>: one buffer per block, data areas that do
  not overlap, and a buffer nobody references has nothing that is not on the disk.
\<close>

definition cache_inv :: "uint \<Rightarrow> 'a vstate_scheme \<Rightarrow> bool" where
  "cache_inv d s \<longleftrightarrow> disk_quiet s \<and> d \<noteq> 0 \<and> (\<exists>l. ring l s)
     \<and> (\<forall>b < NBUF. \<forall>c < NBUF. b_dev (bufs s b) = d \<and> b_dev (bufs s c) = d \<and> b_blockno (bufs s b) = b_blockno (bufs s c) \<longrightarrow> b = c)
     \<and> (\<forall>b < NBUF. \<forall>c < NBUF. \<forall>x. in_buf s b x \<and> in_buf s c x \<longrightarrow> b = c)
     \<and> (\<forall>k i. BSIZE \<le> i \<longrightarrow> platter s k i = 0) \<and> (\<forall>b < NBUF. unat (b_data (bufs s b)) + BSIZE \<le> 2 ^ 64)
     \<and> (\<forall>b < NBUF. (b_refcnt (bufs s b) \<noteq> 0 \<longrightarrow> b_dev (bufs s b) = d)
          \<and> (sl_locked (slks s (BufLock b)) \<noteq> 0 \<longrightarrow> b_refcnt (bufs s b) \<noteq> 0)
          \<and> (b_dev (bufs s b) = d \<and> b_valid (bufs s b) \<and> b_refcnt (bufs s b) = 0
              \<longrightarrow> block_at (mem s) (b_data (bufs s b)) = platter s (unat (b_blockno (bufs s b)))))"

lemma cache_inv_dest:
  assumes "cache_inv d s"
  shows "disk_quiet s" "d \<noteq> 0" "\<exists>l. ring l s" "\<And>k i. BSIZE \<le> i \<Longrightarrow> platter s k i = 0"
    and "\<And>b c. b < NBUF \<Longrightarrow> c < NBUF \<Longrightarrow> b_dev (bufs s b) = d \<Longrightarrow> b_dev (bufs s c) = d \<Longrightarrow>
      b_blockno (bufs s b) = b_blockno (bufs s c) \<Longrightarrow> b = c"
    and "\<And>b c x. b < NBUF \<Longrightarrow> c < NBUF \<Longrightarrow> in_buf s b x \<Longrightarrow> in_buf s c x \<Longrightarrow> b = c"
    and "\<And>b. b < NBUF \<Longrightarrow> b_refcnt (bufs s b) \<noteq> 0 \<Longrightarrow> b_dev (bufs s b) = d"
    and "\<And>b. b < NBUF \<Longrightarrow> sl_locked (slks s (BufLock b)) \<noteq> 0 \<Longrightarrow> b_refcnt (bufs s b) \<noteq> 0"
    and "\<And>b. b < NBUF \<Longrightarrow> b_dev (bufs s b) = d \<Longrightarrow> b_valid (bufs s b) \<Longrightarrow> b_refcnt (bufs s b) = 0 \<Longrightarrow>
      block_at (mem s) (b_data (bufs s b)) = platter s (unat (b_blockno (bufs s b)))"
    and "\<And>b. b < NBUF \<Longrightarrow> unat (b_data (bufs s b)) + BSIZE \<le> 2 ^ 64"
  using assms unfolding cache_inv_def by blast+

lemma lookup_Some:
  assumes "cache_inv d s" "b < NBUF" "b_dev (bufs s b) = d"
  shows "lookup d (b_blockno (bufs s b)) s = Some b"
proof -
  have "\<not> (b_dev (bufs s j) = d \<and> b_blockno (bufs s j) = b_blockno (bufs s b))" if "j < b" for j
    using cache_inv_dest(5) [OF assms(1), of j b] assms(2,3) that by auto
  with assms(2,3) show ?thesis unfolding lookup_def find_Some_iff
    by (intro exI [of _ b]) (auto simp del: upt.simps)
qed

lemma lookup_None:
  "lookup d k s = None \<longleftrightarrow> (\<forall>b < NBUF. \<not> (b_dev (bufs s b) = d \<and> b_blockno (bufs s b) = k))"
  unfolding lookup_def find_None_iff by auto

lemma lookup_SomeD: "lookup d k s = Some b \<Longrightarrow> b < NBUF \<and> b_dev (bufs s b) = d \<and> b_blockno (bufs s b) = k"
  unfolding lookup_def find_Some_iff by auto

lemma holds_facts:
  assumes "cache_inv d s" "holds d s b k"
  shows "lookup d k s = Some b" "refs d s k = unat (b_refcnt (bufs s b))" "0 < refs d s k"
    "content d s k = block_at (mem s) (b_data (bufs s b))" "k \<in> blocked d s"
  using lookup_Some [OF assms(1), of b] cache_inv_dest(8) [OF assms(1), of b] assms(2)
  by (auto simp: holds_def refs_def content_def blocked_def unat_gt_0)

text \<open>The ring as a list and the lookup by key find the same buffer.\<close>

lemma find_ring:
  assumes "ring l s" "cache_inv d s"
  shows "find (\<lambda>b. b_dev (bufs s b) = d \<and> b_blockno (bufs s b) = k) l = lookup d k s"
proof (cases "lookup d k s")
  case None
  then have "find (\<lambda>b. b_dev (bufs s b) = d \<and> b_blockno (bufs s b) = k) l = None"
    using assms(1) by (auto simp: lookup_None find_None_iff ring_def)
  with None show ?thesis by simp
next
  case (Some b)
  obtain c where c: "find (\<lambda>b. b_dev (bufs s b) = d \<and> b_blockno (bufs s b) = k) l = Some c"
    using lookup_SomeD [OF Some] assms(1) by (cases "find (\<lambda>b. b_dev (bufs s b) = d \<and> b_blockno (bufs s b) = k) l")
      (auto simp: find_None_iff ring_def)
  then have "c \<in> set l" "b_dev (bufs s c) = d \<and> b_blockno (bufs s c) = k" by (auto simp: find_Some_iff)
  with lookup_SomeD [OF Some] assms c show ?thesis
    using cache_inv_dest(5) [OF assms(2), of b c] Some by (auto simp: ring_def)
qed

lemma unused_buffer:
  assumes "cache_inv d s" "card {k. 0 < refs d s k} < NBUF"
  shows "\<exists>b < NBUF. b_refcnt (bufs s b) = 0"
proof (rule ccontr)
  assume "\<not> ?thesis"
  then have nz: "b_refcnt (bufs s b) \<noteq> 0" if "b < NBUF" for b using that by blast
  let ?k = "\<lambda>b. b_blockno (bufs s b)"
  have "?k ` {0..<NBUF} \<subseteq> {k. 0 < refs d s k}"
    using nz lookup_Some [OF assms(1)] cache_inv_dest(7) [OF assms(1)] by (auto simp: refs_def unat_gt_0)
  moreover have "inj_on ?k {0..<NBUF}"
    using nz cache_inv_dest(5,7) [OF assms(1)] by (auto simp: inj_on_def)
  ultimately have "card {0..<NBUF} \<le> card {k. 0 < refs d s k}" by (intro card_inj_on_le) auto
  with assms(2) show False by simp
qed

section \<open>Locks of buffers\<close>

lemma acquiresleep_free:
  assumes "held s = {}" "sl_locked (slks s lk) = 0" "curproc s = Some p"
  shows "acquiresleep E lk s = Ok (s\<lparr>slks := (slks s)(lk := \<lparr>sl_locked = 1, sl_pid = p_pid (procs s p)\<rparr>)\<rparr>)"
proof -
  have "s\<lparr>held := {slk_lk lk}, slks := L, held := {}\<rparr> = s\<lparr>slks := L\<rparr>" for L
    using assms(1) by (intro slstate.equality) simp_all
  moreover have "acquiresleep_loop n f lk (s\<lparr>held := {slk_lk lk}\<rparr>) = Ok (s\<lparr>held := {slk_lk lk}\<rparr>)" for n f
    using assms(2) by (cases n) simp_all
  ultimately show ?thesis using assms by (simp add: acquiresleep_def myproc_def run_simps)
qed

lemma holdingsleep_mine:
  assumes "held s = {}" "sl_locked (slks s lk) \<noteq> 0" "curproc s = Some p" "sl_pid (slks s lk) = p_pid (procs s p)"
  shows "holdingsleep lk s = Ok (True, s)"
proof -
  have "s\<lparr>held := {}\<rparr> = s" using assms(1) by simp
  then show ?thesis using assms by (simp add: holdingsleep_def myproc_def run_simps)
qed

lemma releasesleep_ok:
  assumes "held s = {}"
  obtains P where "releasesleep lk s = Ok (s\<lparr>slks := (slks s)(lk := \<lparr>sl_locked = 0, sl_pid = 0\<rparr>), procs := P\<rparr>)"
    "\<And>q. p_pid (P q) = p_pid (procs s q)"
proof -
  let ?s = "s\<lparr>held := {slk_lk lk}, slks := (slks s)(lk := \<lparr>sl_locked = 0, sl_pid = 0\<rparr>)\<rparr>"
  have "no_proc_lock ?s" by (cases lk) (simp_all add: no_proc_lock_def)
  then obtain P where P: "wakeup (slk_chan lk) ?s = Ok (?s\<lparr>procs := P\<rparr>)"
    "\<And>i. P i = procs ?s i \<or> P i = (procs ?s i)\<lparr>p_state := RUNNABLE\<rparr>"
    using wakeup_some by blast
  have "p_pid (P q) = p_pid (procs s q)" for q using P(2) [of q] by auto
  moreover have "?s\<lparr>procs := P, held := {}\<rparr> = s\<lparr>slks := (slks s)(lk := \<lparr>sl_locked = 0, sl_pid = 0\<rparr>), procs := P\<rparr>"
    using assms by (intro slstate.equality) simp_all
  ultimately show ?thesis using that [of P] P(1) assms by (simp add: releasesleep_def run_simps)
qed

section \<open>Finding a buffer\<close>

lemma bget_ok:
  assumes inv: "cache_inv d s" and k: "k \<notin> blocked d s" and av: "0 < refs d s k \<or> card {j. 0 < refs d s j} < NBUF"
    and p: "curproc s = Some p"
  obtains b q where "bget E d k s = Ok (b, s\<lparr>bufs := (bufs s)(b := q),
      slks := (slks s)(BufLock b := \<lparr>sl_locked = 1, sl_pid = p_pid (procs s p)\<rparr>)\<rparr>)" "b < NBUF"
    "lookup d k s = Some b \<and> q = (bufs s b)\<lparr>b_refcnt := b_refcnt (bufs s b) + 1\<rparr>
     \<or> lookup d k s = None \<and> b_refcnt (bufs s b) = 0 \<and> q = (bufs s b)\<lparr>b_dev := d, b_blockno := k, b_valid := False, b_refcnt := 1\<rparr>"
proof -
  have h: "held s = {}" using cache_inv_dest(1) [OF inv] by (simp add: disk_quiet_def)
  obtain l where l: "ring l s" using cache_inv_dest(3) [OF inv] ..
  then have len: "length l < Suc NBUF" "bhead \<notin> set l" "chain bhead l bhead (bufs s)"
    using distinct_card [of l] by (auto simp: ring_def)
  let ?a = "s\<lparr>held := {BcacheLock}\<rparr>"
  have hit: "bget_cached (Suc NBUF) d k (b_next (bufs ?a bhead)) ?a = Ok (lookup d k s)"
    using bget_cached_eq [of bhead l ?a "Suc NBUF" d k] len find_ring [OF l inv, of k] by simp
  have unl: "s\<lparr>bufs := B, held := {}\<rparr> = s\<lparr>bufs := B\<rparr>" for B
    using h by (intro vstate.equality) simp_all
  show ?thesis
  proof (cases "lookup d k s")
    case (Some b)
    note b = lookup_SomeD [OF Some]
    then have "sl_locked (slks s (BufLock b)) = 0" using k by (auto simp: blocked_def)
    then have "acquiresleep E (BufLock b) (s\<lparr>bufs := B\<rparr>) = Ok (s\<lparr>bufs := B,
        slks := (slks s)(BufLock b := \<lparr>sl_locked = 1, sl_pid = p_pid (procs s p)\<rparr>)\<rparr>)" for B
      using acquiresleep_free [of "s\<lparr>bufs := B\<rparr>" "BufLock b" p E] h p by simp
    with hit Some b h show ?thesis
      by (intro that [of b "(bufs s b)\<lparr>b_refcnt := b_refcnt (bufs s b) + 1\<rparr>"])
        (simp_all add: bget_def run_simps updb_def unl)
  next
    case None
    then have "refs d s k = 0" by (simp add: refs_def)
    with unused_buffer [OF inv] av obtain c where c: "c < NBUF" "b_refcnt (bufs s c) = 0" by auto
    obtain b where fb: "find (\<lambda>b. b_refcnt (bufs s b) = 0) (rev l) = Some b"
      using c l by (cases "find (\<lambda>b. b_refcnt (bufs s b) = 0) (rev l)") (auto simp: find_None_iff ring_def)
    then have "b \<in> set (rev l)" and z: "b_refcnt (bufs s b) = 0"
      unfolding find_Some_iff using nth_mem [of _ "rev l"] by auto
    then have b: "b < NBUF" using l by (simp add: ring_def)
    have un: "bget_unused (Suc NBUF) (b_prev (bufs ?a bhead)) ?a = Ok (Some b)"
      using bget_unused_eq [of l bhead ?a "Suc NBUF"] len fb by simp
    have "sl_locked (slks s (BufLock b)) = 0" using cache_inv_dest(8) [OF inv b] z by auto
    then have "acquiresleep E (BufLock b) (s\<lparr>bufs := B\<rparr>) = Ok (s\<lparr>bufs := B,
        slks := (slks s)(BufLock b := \<lparr>sl_locked = 1, sl_pid = p_pid (procs s p)\<rparr>)\<rparr>)" for B
      using acquiresleep_free [of "s\<lparr>bufs := B\<rparr>" "BufLock b" p E] h p by simp
    with hit None un b z h show ?thesis
      by (intro that [of b "(bufs s b)\<lparr>b_dev := d, b_blockno := k, b_valid := False, b_refcnt := 1\<rparr>"])
        (simp_all add: bget_def run_simps updb_def unl)
  qed
qed

section \<open>A step on one buffer\<close>

text \<open>
  Every operation of the cache changes one buffer, which holds block \<open>k\<close> afterwards and before either
  held it too or was not in use. The effect on the store of blocks follows from that alone.
\<close>

definition same_buf :: "buf \<Rightarrow> buf \<Rightarrow> bool" where
  "same_buf p q \<longleftrightarrow> b_valid q = b_valid p \<and> b_dev q = b_dev p \<and> b_blockno q = b_blockno p \<and> b_refcnt q = b_refcnt p
     \<and> b_data q = b_data p"

definition cache_step :: "uint \<Rightarrow> nat \<Rightarrow> uint \<Rightarrow> 'a vstate_scheme \<Rightarrow> 'a vstate_scheme \<Rightarrow> bool" where
  "cache_step d b k s t \<longleftrightarrow> cache_inv d s \<and> b < NBUF \<and> disk_quiet t \<and> (\<exists>l. ring l t)
     \<and> (\<forall>c. c \<noteq> b \<longrightarrow> same_buf (bufs s c) (bufs t c) \<and> slks t (BufLock c) = slks s (BufLock c))
     \<and> b_data (bufs t b) = b_data (bufs s b) \<and> b_dev (bufs t b) = d \<and> b_blockno (bufs t b) = k
     \<and> (\<forall>x. \<not> in_buf s b x \<longrightarrow> mem t x = mem s x)
     \<and> (\<forall>j i. BSIZE \<le> i \<longrightarrow> platter t j i = 0) \<and> (\<forall>j. j \<noteq> unat k \<longrightarrow> platter t j = platter s j)
     \<and> (lookup d k s = Some b \<or> lookup d k s = None \<and> b_refcnt (bufs s b) = 0)
     \<and> (sl_locked (slks t (BufLock b)) \<noteq> 0 \<longrightarrow> b_refcnt (bufs t b) \<noteq> 0)
     \<and> (b_valid (bufs t b) \<and> b_refcnt (bufs t b) = 0 \<longrightarrow> block_at (mem t) (b_data (bufs t b)) = platter t (unat k))"

lemma block_at_cong: "(\<And>x. unat (x - a) < BSIZE \<Longrightarrow> m' x = m x) \<Longrightarrow> block_at m' a = block_at m a"
  by (auto simp: block_at_def fun_eq_iff unat_of_nat)

lemma cache_step_other:
  assumes "cache_step d b k s t" "c < NBUF" "c \<noteq> b"
  shows "block_at (mem t) (b_data (bufs s c)) = block_at (mem s) (b_data (bufs s c))"
    "b_dev (bufs s c) = d \<Longrightarrow> b_blockno (bufs s c) \<noteq> k"
proof -
  have inv: "cache_inv d s" and b: "b < NBUF" and m: "\<And>x. \<not> in_buf s b x \<Longrightarrow> mem t x = mem s x"
    and l: "lookup d k s = Some b \<or> lookup d k s = None"
    using assms(1) by (auto simp: cache_step_def)
  show "block_at (mem t) (b_data (bufs s c)) = block_at (mem s) (b_data (bufs s c))"
    by (rule block_at_cong) (use m cache_inv_dest(6) [OF inv b assms(2)] assms(3) in \<open>auto simp: in_buf_def\<close>)
  show "b_blockno (bufs s c) \<noteq> k" if "b_dev (bufs s c) = d"
    using l lookup_Some [OF inv assms(2) that] assms(3) by auto
qed

lemma cache_step_inv:
  assumes st: "cache_step d b k s t"
  shows "cache_inv d t"
proof -
  have inv: "cache_inv d s" and b: "b < NBUF" and q: "disk_quiet t" "\<exists>l. ring l t"
    and o: "\<And>c. c \<noteq> b \<Longrightarrow> same_buf (bufs s c) (bufs t c) \<and> slks t (BufLock c) = slks s (BufLock c)"
    and tb: "b_data (bufs t b) = b_data (bufs s b)" "b_dev (bufs t b) = d" "b_blockno (bufs t b) = k"
    and pl: "\<And>j i. BSIZE \<le> i \<Longrightarrow> platter t j i = 0" "\<And>j. j \<noteq> unat k \<Longrightarrow> platter t j = platter s j"
    and rc: "sl_locked (slks t (BufLock b)) \<noteq> 0 \<Longrightarrow> b_refcnt (bufs t b) \<noteq> 0"
      "b_valid (bufs t b) \<Longrightarrow> b_refcnt (bufs t b) = 0 \<Longrightarrow> block_at (mem t) (b_data (bufs t b)) = platter t (unat k)"
    using st unfolding cache_step_def by blast+
  have dat: "b_data (bufs t c) = b_data (bufs s c)" for c using o [of c] tb by (cases "c = b") (auto simp: same_buf_def)
  have key: "b_dev (bufs t c) = b_dev (bufs s c)" "b_blockno (bufs t c) = b_blockno (bufs s c)"
    "b_refcnt (bufs t c) = b_refcnt (bufs s c)" "b_valid (bufs t c) = b_valid (bufs s c)" if "c \<noteq> b" for c
    using o [OF that] by (simp_all add: same_buf_def)
  have ne: "b_blockno (bufs t c) \<noteq> k" if "c < NBUF" "c \<noteq> b" "b_dev (bufs t c) = d" for c
    using cache_step_other(2) [OF st that(1,2)] that key by simp
  have "c = c'" if "c < NBUF" "c' < NBUF" "b_dev (bufs t c) = d" "b_dev (bufs t c') = d" "b_blockno (bufs t c) = b_blockno (bufs t c')" for c c'
  proof (cases "c = b \<or> c' = b")
    case True
    then show ?thesis using ne [OF that(1) _ that(3)] ne [OF that(2) _ that(4)] that(5) tb(3) by metis
  next
    case False
    then show ?thesis using cache_inv_dest(5) [OF inv that(1,2)] that(3-5) key by simp
  qed
  moreover have "c = c'" if "c < NBUF" "c' < NBUF" "in_buf t c x" "in_buf t c' x" for c c' x
    using cache_inv_dest(6) [OF inv that(1,2), of x] that(3,4) by (simp add: in_buf_def dat)
  moreover have "b_dev (bufs t c) = d" if "c < NBUF" "b_refcnt (bufs t c) \<noteq> 0" for c
    using that o [of c] tb cache_inv_dest(7) [OF inv, of c] by (cases "c = b") (auto simp: same_buf_def)
  moreover have "b_refcnt (bufs t c) \<noteq> 0" if "c < NBUF" "sl_locked (slks t (BufLock c)) \<noteq> 0" for c
    using that o [of c] rc(1) cache_inv_dest(8) [OF inv, of c] by (cases "c = b") (auto simp: same_buf_def)
  moreover have "block_at (mem t) (b_data (bufs t c)) = platter t (unat (b_blockno (bufs t c)))"
    if "c < NBUF" "b_dev (bufs t c) = d" "b_valid (bufs t c)" "b_refcnt (bufs t c) = 0" for c
  proof (cases "c = b")
    case True
    then show ?thesis using that rc(2) tb by simp
  next
    case False
    with ne that have "platter t (unat (b_blockno (bufs t c))) = platter s (unat (b_blockno (bufs s c)))"
      using pl(2) key(2) by (simp add: word_unat_eq_iff)
    with False that show ?thesis
      using cache_inv_dest(9) [OF inv that(1)] cache_step_other(1) [OF st that(1)] key by (simp add: dat)
  qed
  moreover have "unat (b_data (bufs t c)) + BSIZE \<le> 2 ^ 64" if "c < NBUF" for c
    using cache_inv_dest(10) [OF inv that] by (simp add: dat)
  ultimately show ?thesis
    using q pl(1) cache_inv_dest(2) [OF inv] unfolding cache_inv_def by blast
qed

lemma cache_step_away:
  assumes st: "cache_step d b k s t" and j: "j \<noteq> k"
  shows "refs d t j = refs d s j \<and> content d t j = content d s j \<and> (j \<in> blocked d t \<longleftrightarrow> j \<in> blocked d s)"
proof -
  have inv: "cache_inv d s" and b: "b < NBUF"
    and o: "\<And>c. c \<noteq> b \<Longrightarrow> same_buf (bufs s c) (bufs t c) \<and> slks t (BufLock c) = slks s (BufLock c)"
    and tb: "b_data (bufs t b) = b_data (bufs s b)" "b_dev (bufs t b) = d" "b_blockno (bufs t b) = k"
    and pl: "platter t (unat j) = platter s (unat j)"
    and old: "lookup d k s = Some b \<or> b_refcnt (bufs s b) = 0"
    using st j unfolding cache_step_def by (auto simp: word_unat_eq_iff)
  note invt = cache_step_inv [OF st]
  have bl: "j \<in> blocked d t \<longleftrightarrow> (\<exists>c < NBUF. c \<noteq> b \<and> b_dev (bufs s c) = d \<and> b_blockno (bufs s c) = j \<and> sl_locked (slks s (BufLock c)) \<noteq> 0)"
    using o tb j by (auto simp: blocked_def same_buf_def) metis+
  show ?thesis
  proof (cases "b_dev (bufs s b) = d \<and> b_blockno (bufs s b) = j")
    case True
    then have ls: "lookup d j s = Some b" using lookup_Some [OF inv b] by simp
    then have z: "b_refcnt (bufs s b) = 0" using old j lookup_SomeD [of d k s b] True by auto
    have "lookup d j t = None"
      unfolding lookup_None
    proof (intro allI impI notI)
      fix c assume c: "c < NBUF" "b_dev (bufs t c) = d \<and> b_blockno (bufs t c) = j"
      then have "c \<noteq> b" using tb j by auto
      with o [of c] c lookup_Some [OF inv c(1)] ls show False by (auto simp: same_buf_def)
    qed
    moreover have "j \<notin> blocked d s"
      using True z cache_inv_dest(5,8) [OF inv] b unfolding blocked_def by blast
    moreover have "content d s j = platter s (unat j)"
      using ls z True cache_inv_dest(9) [OF inv b] by (auto simp: content_def)
    ultimately show ?thesis using ls z pl bl by (auto simp: refs_def content_def blocked_def)
  next
    case False
    have "lookup d j t = lookup d j s"
      unfolding lookup_def
    proof (rule find_cong [OF refl])
      fix c assume "c \<in> set [0..<NBUF]"
      then show "(b_dev (bufs t c) = d \<and> b_blockno (bufs t c) = j) = (b_dev (bufs s c) = d \<and> b_blockno (bufs s c) = j)"
        using o [of c] tb j False by (cases "c = b") (auto simp: same_buf_def)
    qed
    moreover have "c < NBUF \<and> c \<noteq> b" if "lookup d j s = Some c" for c using lookup_SomeD [OF that] False by auto
    moreover have "(j \<in> blocked d t) = (j \<in> blocked d s)" using bl False by (auto simp: blocked_def)
    ultimately show ?thesis
      using o pl cache_step_other(1) [OF st] by (auto simp: refs_def content_def same_buf_def split: option.splits)
  qed
qed

lemma cache_step_view:
  assumes st: "cache_step d b k s t"
  shows "refs d t = (refs d s)(k := unat (b_refcnt (bufs t b)))"
    and "content d t = (content d s)(k := if b_valid (bufs t b) then block_at (mem t) (b_data (bufs s b)) else platter t (unat k))"
    and "blocked d t = (if sl_locked (slks t (BufLock b)) \<noteq> 0 then insert k (blocked d s) else blocked d s - {k})"
proof -
  have b: "b < NBUF" and tb: "b_data (bufs t b) = b_data (bufs s b)" "b_dev (bufs t b) = d" "b_blockno (bufs t b) = k"
    using st by (auto simp: cache_step_def)
  note inv = cache_step_inv [OF st] and aw = cache_step_away [OF st]
  have l: "lookup d k t = Some b" using lookup_Some [OF inv b tb(2)] tb(3) by simp
  have kb: "k \<in> blocked d t \<longleftrightarrow> sl_locked (slks t (BufLock b)) \<noteq> 0"
  proof
    assume "k \<in> blocked d t"
    then obtain c where c: "c < NBUF" "b_dev (bufs t c) = d" "b_blockno (bufs t c) = k" "sl_locked (slks t (BufLock c)) \<noteq> 0"
      unfolding blocked_def by blast
    then have "c = b" using cache_inv_dest(5) [OF inv c(1) b c(2) tb(2)] tb(3) by simp
    with c show "sl_locked (slks t (BufLock b)) \<noteq> 0" by simp
  next
    assume "sl_locked (slks t (BufLock b)) \<noteq> 0"
    with b tb show "k \<in> blocked d t" unfolding blocked_def by blast
  qed
  show "refs d t = (refs d s)(k := unat (b_refcnt (bufs t b)))" using aw l by (auto simp: refs_def fun_eq_iff)
  show "content d t = (content d s)(k := if b_valid (bufs t b) then block_at (mem t) (b_data (bufs s b)) else platter t (unat k))"
    using aw l tb(1) by (auto simp: content_def fun_eq_iff)
  show "blocked d t = (if sl_locked (slks t (BufLock b)) \<noteq> 0 then insert k (blocked d s) else blocked d s - {k})"
  proof (rule set_eqI)
    fix j show "j \<in> blocked d t \<longleftrightarrow> j \<in> (if sl_locked (slks t (BufLock b)) \<noteq> 0 then insert k (blocked d s) else blocked d s - {k})"
      using aw [of j] kb by (cases "j = k") auto
  qed
qed

end
