(* ===== verification/Blockstore.thy ===== *)
theory Blockstore
  imports Biospec
begin

text \<open>
  The operations of the block cache as operations on a store of blocks, and the interface
  \<open>block_store\<close> they provide to the log.
\<close>

section \<open>Operations\<close>

text \<open>What the log relies on to stay the same: its own fields, the caller and where buffers are.\<close>

definition keep :: "'a vstate_scheme \<Rightarrow> 'a vstate_scheme \<Rightarrow> bool" where
  "keep s t \<longleftrightarrow> vstate.more t = vstate.more s \<and> curproc t = curproc s \<and> (\<forall>q. p_pid (procs t q) = p_pid (procs s q))
     \<and> (\<forall>c. b_data (bufs t c) = b_data (bufs s c))"

lemma ring_cong: "(\<And>c. b_next (bufs t c) = b_next (bufs s c)) \<Longrightarrow> (\<And>c. b_prev (bufs t c) = b_prev (bufs s c)) \<Longrightarrow> ring l t = ring l s"
  using chain_cong [of bhead l "bufs t" "bufs s" bhead] by (simp add: ring_def)

lemma holds_other:
  assumes "cache_step d b k s t" "keep s t" "holds d s c j" "c \<noteq> b"
  shows "holds d t c j"
  using assms by (auto simp: cache_step_def keep_def holds_def same_buf_def)

lemma holds_inj: "cache_inv d s \<Longrightarrow> holds d s b k \<Longrightarrow> holds d s c k \<Longrightarrow> b = c"
  using cache_inv_dest(5) by (auto simp: holds_def)

lemma block_at_put: "(\<And>i. BSIZE \<le> i \<Longrightarrow> v i = 0) \<Longrightarrow> block_at (put_block m a v) a = v"
  by (auto simp: block_at_def put_block_def fun_eq_iff unat_of_nat)

lemma unat_inc: "unat (x :: uint) < 2 ^ 32 - 1 \<Longrightarrow> unat (x + 1) = unat x + 1"
  by (simp add: unat_word_ariths)

lemma unat_dec: "x \<noteq> 0 \<Longrightarrow> unat (x - 1 :: uint) = unat x - 1"
  by (rule unat_minus_one)

context disk_driver
begin

lemma bread_ok:
  assumes inv: "cache_inv d s" and k: "k \<notin> blocked d s" "unat k < 2 ^ 31" "refs d s k < 2 ^ 32 - 1"
    and av: "0 < refs d s k \<or> card {j. 0 < refs d s j} < NBUF"
  shows "\<exists>b t. bread E d k s = Ok (b, t) \<and> cache_step d b k s t \<and> keep s t \<and> holds d t b k
    \<and> b_valid (bufs t b) \<and> unat (b_refcnt (bufs t b)) = refs d s k + 1 \<and> sl_locked (slks t (BufLock b)) \<noteq> 0
    \<and> sl_locked (slks s (BufLock b)) = 0
    \<and> platter t = platter s \<and> disk_log t = disk_log s \<and> block_at (mem t) (b_data (bufs s b)) = content d s k"
proof -
  have q: "disk_quiet s" by (rule cache_inv_dest(1) [OF inv])
  then obtain p where p: "curproc s = Some p" by (auto simp: disk_quiet_def)
  obtain b q where g: "bget E d k s = Ok (b, s\<lparr>bufs := (bufs s)(b := q),
      slks := (slks s)(BufLock b := \<lparr>sl_locked = 1, sl_pid = p_pid (procs s p)\<rparr>)\<rparr>)" (is "_ = Ok (b, ?u)") and b: "b < NBUF"
    and c: "lookup d k s = Some b \<and> q = (bufs s b)\<lparr>b_refcnt := b_refcnt (bufs s b) + 1\<rparr>
     \<or> lookup d k s = None \<and> b_refcnt (bufs s b) = 0 \<and> q = (bufs s b)\<lparr>b_dev := d, b_blockno := k, b_valid := False, b_refcnt := 1\<rparr>"
    by (rule bget_ok [OF inv k(1) av p, of E])
  have qk: "b_dev q = d" "b_blockno q = k" "b_data q = b_data (bufs s b)" "unat (b_refcnt q) = refs d s k + 1"
    "b_next q = b_next (bufs s b)" "b_prev q = b_prev (bufs s b)" "b_refcnt q \<noteq> 0"
    "lookup d k s = Some b \<or> lookup d k s = None \<and> b_refcnt (bufs s b) = 0"
    using c lookup_SomeD [of d k s b] k(3) unat_inc [of "b_refcnt (bufs s b)"]
    by (auto simp: refs_def)
  have unl: "sl_locked (slks s (BufLock b)) = 0"
    using qk(8) k(1) lookup_SomeD [of d k s b] cache_inv_dest(8) [OF inv b] by (auto simp: blocked_def)
  have qu: "disk_quiet ?u" using q by (simp add: disk_quiet_def)
  have step: "cache_step d b k s t \<and> keep s t \<and> holds d t b k"
    if "disk_quiet t" "vframe ?u t" "platter t = platter s" "bufs t = (bufs s)(b := q')"
      "b_dev q' = d" "b_blockno q' = k" "b_data q' = b_data (bufs s b)" "b_valid q'" "b_refcnt q' = b_refcnt q"
      "b_next q' = b_next (bufs s b)" "b_prev q' = b_prev (bufs s b)" "\<And>x. \<not> in_buf s b x \<Longrightarrow> mem t x = mem s x" for t q'
  proof -
    obtain l where "ring l s" using cache_inv_dest(3) [OF inv] ..
    then have "ring l t" by (subst ring_cong [of t s]) (use that in simp_all)
    then have r: "\<exists>l. ring l t" ..
    have sl: "slks t = (slks s)(BufLock b := \<lparr>sl_locked = 1, sl_pid = p_pid (procs s p)\<rparr>)"
      and fr: "vstate.more t = vstate.more s" "curproc t = Some p" "\<And>q. p_pid (procs t q) = p_pid (procs s q)"
      using that(2) p by (simp_all add: vframe_def)
    have "cache_step d b k s t"
      unfolding cache_step_def using inv b that(1,3-9,12) r qk(7,8) cache_inv_dest(4) [OF inv]
      by (simp add: same_buf_def sl)
    moreover have "keep s t" using fr that(4,7) p by (simp add: keep_def)
    moreover have "holds d t b k" using b that(4-8) fr by (simp add: holds_def sl)
    ultimately show ?thesis by simp
  qed
  show ?thesis
  proof (cases "b_valid q")
    case True
    then have h: "lookup d k s = Some b" "b_valid (bufs s b)" using c by auto
    then have "block_at (mem s) (b_data (bufs s b)) = content d s k" by (simp add: content_def)
    with step [of ?u q] True qk g qu unl show ?thesis by (auto simp: bread_def vframe_def)
  next
    case False
    have ct: "content d s k = platter s (unat k)" using c False by (auto simp: content_def)
    obtain v where v: "virtio_disk_rw E b False ?u = Ok v" "transfer b False ?u v"
      using rw [OF qu, of b False] k(2) qk(2) by auto
    let ?t = "updb b (\<lambda>q. q\<lparr>b_valid := True\<rparr>) v"
    have r: "bread E d k s = Ok (b, ?t)" using g v(1) False by (simp add: bread_def)
    have t: "disk_quiet ?t" "vframe ?u ?t" "platter ?t = platter s" "disk_log ?t = disk_log s"
      "bufs ?t = (bufs s)(b := q\<lparr>b_disk := False, b_valid := True\<rparr>)"
      "mem ?t = put_block (mem s) (b_data (bufs s b)) (platter s (unat k))" "slks ?t = slks ?u"
      using v(2) qk by (auto simp: transfer_def moved_def vframe_def updb_def disk_quiet_def)
    have "mem ?t x = mem s x" if "\<not> in_buf s b x" for x using that t(6) by (simp add: in_buf_def put_block_def)
    with step [OF t(1-3,5)] qk have "cache_step d b k s ?t \<and> keep s ?t \<and> holds d ?t b k" by simp
    moreover have "block_at (mem ?t) (b_data (bufs s b)) = content d s k"
      unfolding t(6) ct by (rule block_at_put) (rule cache_inv_dest(4) [OF inv])
    ultimately show ?thesis using r t qk unl by auto
  qed
qed

lemma bwrite_ok:
  assumes inv: "cache_inv d s" and h: "holds d s b k" and k: "unat k < 2 ^ 31"
  shows "\<exists>t. bwrite E b s = Ok t \<and> cache_step d b k s t \<and> keep s t \<and> holds d t b k
    \<and> b_refcnt (bufs t b) = b_refcnt (bufs s b) \<and> slks t = slks s \<and> mem t = mem s
    \<and> platter t = (platter s)(unat k := content d s k) \<and> disk_log t = disk_log s @ [(unat k, content d s k)]"
proof -
  note q = cache_inv_dest(1) [OF inv] and hf = holds_facts [OF inv h]
  from h obtain p where p: "curproc s = Some p" "sl_pid (slks s (BufLock b)) = p_pid (procs s p)" "sl_locked (slks s (BufLock b)) \<noteq> 0"
    and hb: "b < NBUF" "b_dev (bufs s b) = d" "b_blockno (bufs s b) = k" "b_valid (bufs s b)" by (auto simp: holds_def)
  have "holdingsleep (BufLock b) s = Ok (True, s)"
    by (rule holdingsleep_mine) (use q p in \<open>auto simp: disk_quiet_def\<close>)
  moreover obtain t where t: "virtio_disk_rw E b True s = Ok t" "transfer b True s t"
    using rw [OF q, of b True] k hb(3) by auto
  ultimately have w: "bwrite E b s = Ok t" by (simp add: bwrite_def)
  have f: "disk_quiet t" "vframe s t" "bufs t = (bufs s)(b := (bufs s b)\<lparr>b_disk := False\<rparr>)" "mem t = mem s"
    "platter t = (platter s)(unat k := content d s k)" "disk_log t = disk_log s @ [(unat k, content d s k)]"
    using t(2) hb hf(4) by (simp_all add: transfer_def moved_def)
  obtain l where "ring l s" using cache_inv_dest(3) [OF inv] ..
  then have r: "ring l t" by (subst ring_cong [of t s]) (simp_all add: f)
  have z: "content d s k i = 0" if "BSIZE \<le> i" for i using that hf(4) by (simp add: block_at_def)
  have "cache_step d b k s t"
    unfolding cache_step_def using inv f r hb hf z cache_inv_dest(4) [OF inv] cache_inv_dest(8) [OF inv hb(1)] p(3)
    by (auto simp: same_buf_def vframe_def)
  with w f hb p show ?thesis by (auto simp: keep_def vframe_def holds_def)
qed

end

text \<open>The links of the ring are all that \<^verbatim>\<open>brelse\<close> changes in the other buffers.\<close>

definition linkf :: "nat \<Rightarrow> (nat \<Rightarrow> buf) \<Rightarrow> nat \<Rightarrow> buf" where
  "linkf b B =
     (let B = B(b := (B b)\<lparr>b_next := b_next (B bhead)\<rparr>);
          B = B(b := (B b)\<lparr>b_prev := bhead\<rparr>);
          B = B(b_next (B bhead) := (B (b_next (B bhead)))\<lparr>b_prev := b\<rparr>)
      in B(bhead := (B bhead)\<lparr>b_next := b\<rparr>))"

lemma link_front_eq: "link_front b s = s\<lparr>bufs := linkf b (bufs s)\<rparr>"
  by (simp add: linkf_def link_front_def updb_def Let_def)

lemma unlink_eq:
  "(let s = updb (b_next (bufs s b)) (\<lambda>q. q\<lparr>b_prev := b_prev (bufs s b)\<rparr>) s;
        s = updb (b_prev (bufs s b)) (\<lambda>q. q\<lparr>b_next := b_next (bufs s b)\<rparr>) s in f s) = f (s\<lparr>bufs := unlink b (bufs s)\<rparr>)"
  by (simp add: unlink_def updb_def Let_def)

lemma same_buf_upd:
  assumes "\<And>c. same_buf (B c) (B' c)"
  shows "same_buf (B c) ((B'(i := (B' i)\<lparr>b_next := x\<rparr>)) c)" "same_buf (B c) ((B'(i := (B' i)\<lparr>b_prev := x\<rparr>)) c)"
  using assms [of c] by (auto simp: same_buf_def)

lemma same_buf_unlink: "same_buf (B c) (unlink b B c)"
  unfolding unlink_def Let_def by (intro same_buf_upd) (simp add: same_buf_def)

lemma same_buf_links: "same_buf (B c) (linkf b (unlink b B) c)"
  unfolding linkf_def Let_def by (intro same_buf_upd same_buf_unlink)

lemma ring_front:
  assumes "ring l s" "b < NBUF" "bufs t = linkf b (unlink b B)"
    "\<And>c. b_next (B c) = b_next (bufs s c)" "\<And>c. b_prev (B c) = b_prev (bufs s c)"
  shows "\<exists>l'. ring l' t"
proof -
  obtain xs ys where l: "l = xs @ b # ys" using assms(1,2) split_list [of b l] by (auto simp: ring_def)
  have c: "chain bhead l bhead B" "distinct (bhead # l)" "set l = {0..<NBUF}"
    using assms(1) chain_cong [of bhead l B "bufs s" bhead] assms(4,5) by (simp_all add: ring_def)
  have "chain bhead (xs @ ys) bhead (unlink b B)"
    by (rule chain_unlink) (use c in \<open>simp_all add: l\<close>)
  then have "chain bhead (b # xs @ ys) bhead (linkf b (unlink b B))"
    using chain_link [of bhead "xs @ ys" "idle\<lparr>bufs := unlink b B\<rparr>" b] c(2) by (simp add: link_front_eq l)
  with c(2,3) assms(3) have "ring (b # xs @ ys) t" by (auto simp: ring_def l)
  then show ?thesis ..
qed

lemma brelse_eq:
  "brelse b s =
     rbind (holdingsleep (BufLock b) s) (\<lambda>(h, s).
     if \<not> h then Stop (Panic ''brelse'')
     else rbind (releasesleep (BufLock b) s) (\<lambda>s.
          rbind (lk_acquire BcacheLock s) (\<lambda>s.
          let s = updb b (\<lambda>q. q\<lparr>b_refcnt := b_refcnt q - 1\<rparr>) s
          in lk_release BcacheLock
               (if b_refcnt (bufs s b) = 0 then s\<lparr>bufs := linkf b (unlink b (bufs s))\<rparr> else s))))"
  unfolding brelse_def unlink_eq link_front_eq by (simp add: Let_def cong: if_cong)

lemma brelse_ok:
  assumes inv: "cache_inv d s" and h: "holds d s b k" and cl: "refs d s k = 1 \<Longrightarrow> content d s k = platter s (unat k)"
  shows "\<exists>t. brelse b s = Ok t \<and> cache_step d b k s t \<and> keep s t \<and> b_valid (bufs t b)
    \<and> unat (b_refcnt (bufs t b)) = refs d s k - 1 \<and> sl_locked (slks t (BufLock b)) = 0
    \<and> mem t = mem s \<and> platter t = platter s \<and> disk_log t = disk_log s"
proof -
  note q = cache_inv_dest(1) [OF inv] and hf = holds_facts [OF inv h]
  from h obtain p where p: "curproc s = Some p" "sl_pid (slks s (BufLock b)) = p_pid (procs s p)" "sl_locked (slks s (BufLock b)) \<noteq> 0"
    and hb: "b < NBUF" "b_dev (bufs s b) = d" "b_blockno (bufs s b) = k" "b_valid (bufs s b)" by (auto simp: holds_def)
  have he: "held s = {}" using q by (simp add: disk_quiet_def)
  have hs: "holdingsleep (BufLock b) s = Ok (True, s)"
    by (rule holdingsleep_mine) (use he p in auto)
  obtain P where P: "releasesleep (BufLock b) s = Ok (s\<lparr>slks := (slks s)(BufLock b := \<lparr>sl_locked = 0, sl_pid = 0\<rparr>), procs := P\<rparr>)"
    (is "_ = Ok ?s") "\<And>q. p_pid (P q) = p_pid (procs s q)" using releasesleep_ok [OF he] by blast
  let ?B = "(bufs s)(b := (bufs s b)\<lparr>b_refcnt := b_refcnt (bufs s b) - 1\<rparr>)"
  define B where "B = (if b_refcnt (bufs s b) = 1 then linkf b (unlink b ?B) else ?B)"
  let ?t = "?s\<lparr>held := {BcacheLock}, bufs := B, held := {}\<rparr>"
  have e: "brelse b s = Ok ?t"
    using hs P(1) he by (simp add: brelse_eq run_simps updb_def B_def Let_def)
  have same: "same_buf (?B c) (B c)" for c
    using same_buf_links [of ?B c b] by (auto simp: B_def same_buf_def)
  have nz: "b_refcnt (bufs s b) \<noteq> 0" using hf(2,3) by auto
  have r: "unat (b_refcnt (B b)) = refs d s k - 1"
    using same [of b] unat_dec [OF nz] hf(2) by (simp add: same_buf_def)
  obtain l where l: "ring l s" using cache_inv_dest(3) [OF inv] ..
  have "\<exists>l. ring l ?t"
  proof (cases "b_refcnt (bufs s b) = 1")
    case True
    show ?thesis by (rule ring_front [OF l hb(1), where B = ?B]) (use True in \<open>simp_all add: B_def\<close>)
  next
    case False
    then have "ring l ?t" by (subst ring_cong [of ?t s]) (use l in \<open>simp_all add: B_def\<close>)
    then show ?thesis ..
  qed
  moreover have "disk_quiet ?t" using q by (simp add: disk_quiet_def)
  moreover have "block_at (mem s) (b_data (bufs s b)) = platter s (unat k)" if "b_refcnt (B b) = 0"
    using cl r that hf(3,4) by (simp add: unat_eq_zero)
  ultimately have "cache_step d b k s ?t"
    unfolding cache_step_def using inv hb same hf(1) cache_inv_dest(4) [OF inv] by (simp add: same_buf_def)
  then show ?thesis using e r same [of b] hb P(2) same by (auto simp: keep_def same_buf_def)
qed

lemma same_step:
  assumes inv: "cache_inv d s" and h: "holds d s b k" and t: "disk_quiet t" "slks t = slks s" "platter t = platter s"
    "bufs t = (bufs s)(b := (bufs s b)\<lparr>b_refcnt := r\<rparr>)" "r \<noteq> 0" "\<And>x. \<not> in_buf s b x \<Longrightarrow> mem t x = mem s x"
  shows "cache_step d b k s t"
proof -
  have hb: "b < NBUF" "b_dev (bufs s b) = d" "b_blockno (bufs s b) = k" using h by (simp_all add: holds_def)
  obtain l where "ring l s" using cache_inv_dest(3) [OF inv] ..
  then have "ring l t" by (subst ring_cong [of t s]) (use t in simp_all)
  then have "\<exists>l. ring l t" ..
  then show ?thesis
    unfolding cache_step_def using inv hb t holds_facts(1) [OF inv h] cache_inv_dest(4) [OF inv] by (simp add: same_buf_def)
qed

lemma bunpin_ok:
  assumes inv: "cache_inv d s" and h: "holds d s b k" and r: "2 \<le> refs d s k"
  shows "\<exists>t. bunpin b s = Ok t \<and> cache_step d b k s t \<and> keep s t \<and> holds d t b k
    \<and> unat (b_refcnt (bufs t b)) = refs d s k - 1 \<and> slks t = slks s
    \<and> mem t = mem s \<and> platter t = platter s \<and> disk_log t = disk_log s"
proof -
  note q = cache_inv_dest(1) [OF inv] and hf = holds_facts [OF inv h]
  have he: "held s = {}" using q by (simp add: disk_quiet_def)
  let ?t = "updb b (\<lambda>q. q\<lparr>b_refcnt := b_refcnt q - 1\<rparr>) s"
  have nz: "b_refcnt (bufs s b) \<noteq> 0" using hf(2,3) by auto
  have u: "unat (b_refcnt (bufs s b) - 1) = refs d s k - 1" using unat_dec [OF nz] hf(2) by simp
  have "s\<lparr>bufs := B, held := {}\<rparr> = s\<lparr>bufs := B\<rparr>" for B using he by (intro vstate.equality) simp_all
  then have "bunpin b s = Ok ?t" using he by (simp add: bunpin_def run_simps updb_def)
  moreover have "b_refcnt (bufs s b) - 1 \<noteq> 0" using u r by (auto simp: unat_eq_zero)
  then have "cache_step d b k s ?t"
    by (intro same_step [OF inv h]) (use q in \<open>auto simp: updb_def disk_quiet_def\<close>)
  ultimately show ?thesis using u h by (auto simp: updb_def keep_def holds_def)
qed

lemma store_ok:
  assumes inv: "cache_inv d s" and h: "holds d s b k" and m: "\<And>x. \<not> in_buf s b x \<Longrightarrow> m x = mem s x"
  shows "cache_step d b k s (s\<lparr>mem := m\<rparr>)"
  using holds_facts(2,3) [OF inv h] cache_inv_dest(1) [OF inv]
  by (intro same_step [OF inv h, where r = "b_refcnt (bufs s b)"]) (auto simp: disk_quiet_def m)

section \<open>The interface of the cache\<close>

text \<open>What every operation of the cache leaves alone in the state of the log, and the data areas.\<close>

definition same_log :: "'a lstate_scheme \<Rightarrow> 'a lstate_scheme \<Rightarrow> bool" where
  "same_log s t \<longleftrightarrow> vstate.more t = vstate.more s \<and> (\<forall>c. data_of c t = data_of c s)"

definition buf_area :: "'a vstate_scheme \<Rightarrow> nat \<Rightarrow> uint64 \<Rightarrow> bool" where
  "buf_area s b x \<longleftrightarrow> in_range x (data_of b s) BSIZE"

locale block_store =
  fixes E :: "'a lstate_scheme env" and d :: uint
    and ok :: "'a lstate_scheme \<Rightarrow> bool"
    and view :: "'a lstate_scheme \<Rightarrow> uint \<Rightarrow> nat \<Rightarrow> uchar"
    and pins :: "'a lstate_scheme \<Rightarrow> uint \<Rightarrow> nat"
    and busyb :: "'a lstate_scheme \<Rightarrow> uint set"
    and own :: "'a lstate_scheme \<Rightarrow> nat \<Rightarrow> uint \<Rightarrow> bool"
  assumes own_view: "ok s \<Longrightarrow> own s b k \<Longrightarrow> view s k = block_at (mem s) (data_of b s) \<and> k \<in> busyb s \<and> 0 < pins s k"
    and own_area: "ok s \<Longrightarrow> own s b k \<Longrightarrow> own s c j \<Longrightarrow> j \<noteq> k \<Longrightarrow> \<not> (buf_area s b x \<and> buf_area s c x)"
    and own_wrap: "ok s \<Longrightarrow> own s b k \<Longrightarrow> unat (data_of b s) + BSIZE \<le> 2 ^ 64"
    and view_end: "ok s \<Longrightarrow> BSIZE \<le> i \<Longrightarrow> view s k i = 0"
    and view_disk: "ok s \<Longrightarrow> pins s k = 0 \<Longrightarrow> view s k = platter s (unat k)"
    and bread: "ok s \<Longrightarrow> k \<notin> busyb s \<Longrightarrow> unat k < 2 ^ 31 \<Longrightarrow> pins s k < 2 ^ 32 - 1 \<Longrightarrow>
      0 < pins s k \<or> card {j. 0 < pins s j} < NBUF \<Longrightarrow>
      \<exists>b t. bread E d k s = Ok (b, t) \<and> ok t \<and> same_log s t \<and> own t b k \<and> (\<forall>c j. own s c j \<longrightarrow> own t c j)
        \<and> view t = view s \<and> pins t = (pins s)(k := pins s k + 1) \<and> busyb t = insert k (busyb s)
        \<and> platter t = platter s \<and> disk_log t = disk_log s"
    and bwrite: "ok s \<Longrightarrow> own s b k \<Longrightarrow> unat k < 2 ^ 31 \<Longrightarrow>
      \<exists>t. bwrite E b s = Ok t \<and> ok t \<and> same_log s t \<and> own t = own s
        \<and> view t = view s \<and> pins t = pins s \<and> busyb t = busyb s
        \<and> platter t = (platter s)(unat k := view s k) \<and> disk_log t = disk_log s @ [(unat k, view s k)]"
    and brelse: "ok s \<Longrightarrow> own s b k \<Longrightarrow> (pins s k = 1 \<Longrightarrow> view s k = platter s (unat k)) \<Longrightarrow>
      \<exists>t. brelse b s = Ok t \<and> ok t \<and> same_log s t \<and> (\<forall>c j. j \<noteq> k \<longrightarrow> own s c j \<longrightarrow> own t c j)
        \<and> view t = view s \<and> pins t = (pins s)(k := pins s k - 1) \<and> busyb t = busyb s - {k}
        \<and> platter t = platter s \<and> disk_log t = disk_log s"
    and bunpin: "ok s \<Longrightarrow> own s b k \<Longrightarrow> 2 \<le> pins s k \<Longrightarrow>
      \<exists>t. bunpin b s = Ok t \<and> ok t \<and> same_log s t \<and> own t = own s
        \<and> view t = view s \<and> pins t = (pins s)(k := pins s k - 1) \<and> busyb t = busyb s
        \<and> platter t = platter s \<and> disk_log t = disk_log s"
    and store: "ok s \<Longrightarrow> own s b k \<Longrightarrow> (\<And>x. \<not> buf_area s b x \<Longrightarrow> m x = mem s x) \<Longrightarrow>
      ok (s\<lparr>mem := m\<rparr>) \<and> own (s\<lparr>mem := m\<rparr>) = own s \<and> pins (s\<lparr>mem := m\<rparr>) = pins s \<and> busyb (s\<lparr>mem := m\<rparr>) = busyb s
        \<and> view (s\<lparr>mem := m\<rparr>) = (view s)(k := block_at m (data_of b s))"
    and header: "ok (s\<lparr>lh_n := n\<rparr>) = ok s \<and> own (s\<lparr>lh_n := n\<rparr>) = own s \<and> pins (s\<lparr>lh_n := n\<rparr>) = pins s
      \<and> busyb (s\<lparr>lh_n := n\<rparr>) = busyb s \<and> view (s\<lparr>lh_n := n\<rparr>) = view s"
    and header_blocks: "ok (s\<lparr>lh_block := B\<rparr>) = ok s \<and> own (s\<lparr>lh_block := B\<rparr>) = own s \<and> pins (s\<lparr>lh_block := B\<rparr>) = pins s
      \<and> busyb (s\<lparr>lh_block := B\<rparr>) = busyb s \<and> view (s\<lparr>lh_block := B\<rparr>) = view s"

section \<open>The cache provides it\<close>

lemma holds_same:
  assumes "cache_step d b k s t" "keep s t" "slks t = slks s" "b_valid (bufs t b) = b_valid (bufs s b)"
    "b_dev (bufs s b) = d" "b_blockno (bufs s b) = k"
  shows "holds d t = holds d s"
proof (intro ext)
  fix c j show "holds d t c j = holds d s c j"
    using assms by (cases "c = b") (simp_all add: cache_step_def keep_def holds_def same_buf_def)
qed

lemma keep_same_log: "keep s t \<Longrightarrow> same_log s t"
  by (simp add: keep_def same_log_def data_of_def)

lemma content_disk:
  assumes "cache_inv d s"
  shows "refs d s k = 0 \<Longrightarrow> content d s k = platter s (unat k)" "BSIZE \<le> i \<Longrightarrow> content d s k i = 0"
proof -
  show "content d s k = platter s (unat k)" if "refs d s k = 0"
  proof (cases "lookup d k s")
    case (Some b)
    with that lookup_SomeD [OF Some] cache_inv_dest(9) [OF assms, of b] show ?thesis
      by (auto simp: refs_def content_def unat_eq_zero)
  qed (simp add: content_def)
  show "content d s k i = 0" if "BSIZE \<le> i"
    using that cache_inv_dest(4) [OF assms] by (simp add: content_def block_at_def split: option.split)
qed

lemma buf_area_eq: "buf_area s b x = in_buf s b x"
  by (simp add: buf_area_def in_buf_def in_range_def data_of_def)

lemma store_view:
  assumes inv: "cache_inv d s" and h: "holds d s b k" and m: "\<And>x. \<not> buf_area s b x \<Longrightarrow> m x = mem s x"
  shows "cache_inv d (s\<lparr>mem := m\<rparr>) \<and> holds d (s\<lparr>mem := m\<rparr>) = holds d s \<and> refs d (s\<lparr>mem := m\<rparr>) = refs d s
    \<and> blocked d (s\<lparr>mem := m\<rparr>) = blocked d s \<and> content d (s\<lparr>mem := m\<rparr>) = (content d s)(k := block_at m (data_of b s))"
proof -
  have st: "cache_step d b k s (s\<lparr>mem := m\<rparr>)" by (rule store_ok [OF inv h]) (use m in \<open>simp add: buf_area_eq\<close>)
  have "holds d (s\<lparr>mem := m\<rparr>) = holds d s" "refs d (s\<lparr>mem := m\<rparr>) = refs d s" "blocked d (s\<lparr>mem := m\<rparr>) = blocked d s"
    by (simp_all add: holds_def refs_def blocked_def lookup_def fun_eq_iff cong: option.case_cong)
  with cache_step_inv [OF st] cache_step_view(2) [OF st] h show ?thesis by (simp add: holds_def data_of_def)
qed

lemma header_upd:
  "cache_inv d (s\<lparr>lh_n := n\<rparr>) = cache_inv d s" "holds d (s\<lparr>lh_n := n\<rparr>) = holds d s" "refs d (s\<lparr>lh_n := n\<rparr>) = refs d s"
  "blocked d (s\<lparr>lh_n := n\<rparr>) = blocked d s" "content d (s\<lparr>lh_n := n\<rparr>) = content d s"
  "cache_inv d (s\<lparr>lh_block := B\<rparr>) = cache_inv d s" "holds d (s\<lparr>lh_block := B\<rparr>) = holds d s"
  "refs d (s\<lparr>lh_block := B\<rparr>) = refs d s" "blocked d (s\<lparr>lh_block := B\<rparr>) = blocked d s"
  "content d (s\<lparr>lh_block := B\<rparr>) = content d s"
  by (simp_all add: cache_inv_def holds_def refs_def blocked_def content_def lookup_def fun_eq_iff disk_quiet_def ring_def in_buf_def
      cong: option.case_cong if_cong)

lemma block_store_cache:
  fixes E :: "'a lstate_scheme env"
  assumes "disk_driver E"
  shows "block_store E d (cache_inv d) (content d) (refs d) (blocked d) (holds d)"
proof (unfold_locales, goal_cases)
  case (1 s b k)
  then show ?case using holds_facts [of d s b k] by (simp add: data_of_def)
next
  case (2 s b k c j x)
  then show ?case using cache_inv_dest(6) [of d s b c x] by (auto simp: buf_area_eq holds_def)
next
  case (3 s b k)
  then show ?case using cache_inv_dest(10) [of d s b] by (simp add: data_of_def holds_def)
next
  case (4 s i k)
  then show ?case by (simp add: content_disk)
next
  case (5 s k)
  then show ?case by (simp add: content_disk)
next
  case (6 s k)
  from disk_driver.bread_ok [OF assms 6] obtain b t where
    t: "Bio.bread E d k s = Ok (b, t)" "cache_step d b k s t" "keep s t" "holds d t b k" "b_valid (bufs t b)"
      "unat (b_refcnt (bufs t b)) = refs d s k + 1" "sl_locked (slks t (BufLock b)) \<noteq> 0" "sl_locked (slks s (BufLock b)) = 0"
      "platter t = platter s" "disk_log t = disk_log s" "block_at (mem t) (b_data (bufs s b)) = content d s k" by blast
  have "holds d t c j" if "holds d s c j" for c j
    using holds_other [OF t(2,3) that] that t(8) by (auto simp: holds_def)
  with t cache_step_inv [OF t(2)] cache_step_view [OF t(2)] keep_same_log [OF t(3)] show ?case by auto
next
  case (7 s b k)
  from disk_driver.bwrite_ok [OF assms 7] obtain t where
    t: "Bio.bwrite E b s = Ok t" "cache_step d b k s t" "keep s t" "holds d t b k" "b_refcnt (bufs t b) = b_refcnt (bufs s b)"
      "slks t = slks s" "mem t = mem s" "platter t = (platter s)(unat k := content d s k)"
      "disk_log t = disk_log s @ [(unat k, content d s k)]" by blast
  have "holds d t = holds d s" using holds_same [OF t(2,3,6)] t(4) 7(2) by (simp add: holds_def)
  moreover have "blocked d t = blocked d s" "refs d t = refs d s" "content d t = content d s"
    using cache_step_view [OF t(2)] t(4-7) 7(2) holds_facts [OF 7(1,2)] by (auto simp: holds_def)
  ultimately show ?case using t cache_step_inv [OF t(2)] keep_same_log [OF t(3)] by auto
next
  case (8 s b k)
  from brelse_ok [OF 8(1,2)] 8(3) obtain t where
    t: "Bio.brelse b s = Ok t" "cache_step d b k s t" "keep s t" "b_valid (bufs t b)"
      "unat (b_refcnt (bufs t b)) = refs d s k - 1" "sl_locked (slks t (BufLock b)) = 0"
      "mem t = mem s" "platter t = platter s" "disk_log t = disk_log s" by blast
  have "holds d t c j" if "holds d s c j" "j \<noteq> k" for c j
    using holds_other [OF t(2,3) that(1)] that 8(2) by (auto simp: holds_def)
  with t cache_step_inv [OF t(2)] cache_step_view [OF t(2)] keep_same_log [OF t(3)] holds_facts [OF 8(1,2)] show ?case by auto
next
  case (9 s b k)
  from bunpin_ok [OF 9] obtain t where
    t: "Bio.bunpin b s = Ok t" "cache_step d b k s t" "keep s t" "holds d t b k" "unat (b_refcnt (bufs t b)) = refs d s k - 1"
      "slks t = slks s" "mem t = mem s" "platter t = platter s" "disk_log t = disk_log s" by blast
  have "holds d t = holds d s" using holds_same [OF t(2,3,6)] t(4) 9(2) by (simp add: holds_def)
  moreover have "blocked d t = blocked d s" "content d t = content d s"
    using cache_step_view [OF t(2)] t(4-7) 9(2) holds_facts [OF 9(1,2)] by (auto simp: holds_def)
  ultimately show ?case using t cache_step_inv [OF t(2)] cache_step_view(1) [OF t(2)] keep_same_log [OF t(3)] by auto
next
  case (10 s b k m)
  then show ?case by (intro store_view)
qed (simp_all add: header_upd)

interpretation ring_store: block_store "(Suc n, disk_others R ring_device)" d "cache_inv d" "content d" "refs d" "blocked d" "holds d"
  for n R d
  by (rule block_store_cache) (rule disk_driver_device [OF disk_device_ring])

section \<open>Initialisation\<close>

lemma binit_ring:
  "chain bhead (rev [0..<n]) bhead (bufs (foldl (\<lambda>s b. link_front b (initsleeplock (BufLock b) s)) (s\<lparr>bufs := B\<rparr>) [0..<n]))"
  if "n \<le> NBUF" "b_next (B bhead) = bhead" "b_prev (B bhead) = bhead"
  using that
proof (induction n)
  case (Suc n)
  let ?f = "\<lambda>s b. link_front b (initsleeplock (BufLock b) s)"
  let ?s = "foldl ?f (s\<lparr>bufs := B\<rparr>) [0..<n]"
  have "bufs (initsleeplock (BufLock n) ?s) = bufs ?s" by (simp add: initsleeplock_def lk_init_def)
  with Suc have "chain bhead (rev [0..<n]) bhead (bufs (initsleeplock (BufLock n) ?s))" by simp
  from chain_link [OF this, of n] Suc.prems(1) show ?case by simp
qed simp

text \<open>What \<^verbatim>\<open>binit\<close> leaves alone: everything but the links and the locks, which are all free.\<close>

lemma binit_loop:
  fixes s :: "'a vstate_scheme" and n :: nat
  defines "u \<equiv> foldl (\<lambda>s b. link_front b (initsleeplock (BufLock b) s)) s [0..<n]"
  shows "(\<forall>c. same_buf (bufs s c) (bufs u c)) \<and> (\<forall>b < n. sl_locked (slks u (BufLock b)) = 0) \<and> held u \<subseteq> held s
    \<and> mem u = mem s \<and> platter u = platter s \<and> curproc u = curproc s \<and> vd_free u = vd_free s \<and> vd_used_idx u = vd_used_idx s
    \<and> vd_avail_idx u = vd_avail_idx s \<and> vd_used_hw u = vd_used_hw s \<and> vstate.more u = vstate.more s"
  unfolding u_def
proof (induction n)
  case (Suc n)
  let ?u = "foldl (\<lambda>s b. link_front b (initsleeplock (BufLock b) s)) s [0..<n]"
  have "same_buf (bufs s c) (linkf n (bufs ?u) c)" for c
    unfolding linkf_def Let_def by (intro same_buf_upd) (use Suc.IH in simp)
  with Suc.IH show ?case by (auto simp: link_front_eq initsleeplock_def lk_init_def less_Suc_eq)
qed (simp add: same_buf_def)

lemma binit_inv:
  assumes "disk_quiet s" "d \<noteq> 0" "\<And>b. b < NBUF \<Longrightarrow> b_refcnt (bufs s b) = 0 \<and> b_dev (bufs s b) = 0"
    and "\<And>k i. BSIZE \<le> i \<Longrightarrow> platter s k i = 0" "\<And>b. b < NBUF \<Longrightarrow> unat (b_data (bufs s b)) + BSIZE \<le> 2 ^ 64"
    and "\<And>b c x. b < NBUF \<Longrightarrow> c < NBUF \<Longrightarrow> in_buf s b x \<Longrightarrow> in_buf s c x \<Longrightarrow> b = c"
  shows "cache_inv d (binit s)" "refs d (binit s) k = 0" "blocked d (binit s) = {}" "platter (binit s) = platter s"
    "vstate.more (binit s) = vstate.more s"
    "b < NBUF \<Longrightarrow> b_dev (bufs (binit s) b) = 0 \<and> b_refcnt (bufs (binit s) b) = 0 \<and> sl_locked (slks (binit s) (BufLock b)) = 0"
proof -
  let ?B = "(bufs s)(bhead := (bufs s bhead)\<lparr>b_prev := bhead, b_next := bhead\<rparr>)"
  let ?s = "s\<lparr>held := held s - {BcacheLock}, bufs := ?B\<rparr>"
  have e: "binit s = foldl (\<lambda>s b. link_front b (initsleeplock (BufLock b) s)) ?s [0..<NBUF]"
    by (simp add: binit_def lk_init_def updb_def Let_def del: upt.simps)
  note l = binit_loop [of ?s NBUF, folded e]
  have "chain bhead (rev [0..<NBUF]) bhead (bufs (binit s))"
    unfolding e by (rule binit_ring) simp_all
  then have "ring (rev [0..<NBUF]) (binit s)" unfolding ring_def by (simp del: upt.simps)
  then have r: "\<exists>l. ring l (binit s)" ..
  have k: "b_refcnt (bufs (binit s) b) = 0" "b_dev (bufs (binit s) b) = 0" "b_data (bufs (binit s) b) = b_data (bufs s b)"
    "sl_locked (slks (binit s) (BufLock b)) = 0" if "b < NBUF" for b
    using l assms(3) [OF that] that by (auto simp: same_buf_def)
  show "platter (binit s) = platter s" "vstate.more (binit s) = vstate.more s" using l by simp_all
  show "b_dev (bufs (binit s) b) = 0 \<and> b_refcnt (bufs (binit s) b) = 0 \<and> sl_locked (slks (binit s) (BufLock b)) = 0" if "b < NBUF"
    using k [OF that] by simp
  show "blocked d (binit s) = {}" using k by (auto simp: blocked_def)
  show "refs d (binit s) k = 0" using k(1) lookup_SomeD [of d k "binit s"] by (auto simp: refs_def split: option.split)
  have "disk_quiet (binit s)" using l assms(1) by (auto simp: disk_quiet_def)
  moreover have "in_buf (binit s) b x = in_buf s b x" if "b < NBUF" for b x using k(3) [OF that] by (simp add: in_buf_def)
  with assms(6) have "\<forall>b < NBUF. \<forall>c < NBUF. \<forall>x. in_buf (binit s) b x \<and> in_buf (binit s) c x \<longrightarrow> b = c" by blast
  ultimately show "cache_inv d (binit s)"
    unfolding cache_inv_def using r k assms(2,4,5) l by simp
qed

section \<open>Reading a block\<close>

text \<open>
  C10: the block cache is a faithful copy of the disk. \<^verbatim>\<open>bread\<close> of a block that is not locked, with a
  buffer to spare, returns a locked buffer with the current content of the block, whether it was
  cached or had to be fetched in place of another block; no block changes its content by this.
  \<^verbatim>\<open>brelse\<close> then restores the reference counts and the locks, and the invariant of the cache holds
  throughout.
\<close>

theorem bread_brelse:
  assumes "disk_device dev" and inv: "cache_inv d s" and "k \<notin> blocked d s" "unat k < 2 ^ 31" "refs d s k < 2 ^ 32 - 1"
    and "0 < refs d s k \<or> card {j. 0 < refs d s j} < NBUF"
  shows "\<exists>b t u. bread (Suc n, disk_others R dev) d k s = Ok (b, t) \<and> cache_inv d t \<and> holds d t b k
    \<and> block_at (mem t) (b_data (bufs t b)) = content d s k \<and> content d t = content d s \<and> platter t = platter s
    \<and> brelse b t = Ok u \<and> cache_inv d u \<and> refs d u = refs d s \<and> blocked d u = blocked d s \<and> content d u = content d s"
proof -
  obtain b t where t: "bread (Suc n, disk_others R dev) d k s = Ok (b, t)" "cache_step d b k s t" "holds d t b k" "b_valid (bufs t b)"
      "unat (b_refcnt (bufs t b)) = refs d s k + 1" "sl_locked (slks t (BufLock b)) \<noteq> 0"
      "platter t = platter s" "block_at (mem t) (b_data (bufs s b)) = content d s k"
    using disk_driver.bread_ok [OF disk_driver_device [OF assms(1)] assms(2-6), of n R] by blast
  note it = cache_step_inv [OF t(2)] and vt = cache_step_view [OF t(2)] and hf = holds_facts [OF cache_step_inv [OF t(2)] t(3)]
  have ct: "content d t = content d s" using vt(2) t(4,8) by auto
  have "content d t k = platter t (unat k)" if "refs d t k = 1"
    using content_disk(1) [OF inv, of k] that vt(1) t(5,7) ct by simp
  then obtain u where u: "brelse b t = Ok u" "cache_step d b k t u" "unat (b_refcnt (bufs u b)) = refs d t k - 1"
      "sl_locked (slks u (BufLock b)) = 0" "b_valid (bufs u b)" "mem u = mem t" "platter u = platter t"
    using brelse_ok [OF it t(3)] by blast
  note vu = cache_step_view [OF u(2)]
  have "refs d u = refs d s" using vu(1) u(3) vt(1) t(5) by auto
  moreover have "blocked d u = blocked d s" using vu(3) u(4) vt(3) t(6) assms(3) by auto
  moreover have "content d u = content d s" using vu(2) u(5,6) hf(4) ct by auto
  moreover have "block_at (mem t) (b_data (bufs t b)) = content d s k" using hf(4) ct by simp
  ultimately show ?thesis using t(1,3,7) it ct u(1) cache_step_inv [OF u(2)] by blast
qed

text \<open>The cache as \<^verbatim>\<open>binit\<close> leaves it on a machine with buffers side by side.\<close>

lemma fresh_cache:
  assumes "\<And>k i. BSIZE \<le> i \<Longrightarrow> P k i = 0"
  shows "cache_inv 1 (binit (busy\<lparr>platter := P\<rparr>))" "refs 1 (binit (busy\<lparr>platter := P\<rparr>)) k = 0"
    "blocked 1 (binit (busy\<lparr>platter := P\<rparr>)) = {}" "platter (binit (busy\<lparr>platter := P\<rparr>)) = P"
    "b < NBUF \<Longrightarrow> b_dev (bufs (binit (busy\<lparr>platter := P\<rparr>)) b) = 0 \<and> b_refcnt (bufs (binit (busy\<lparr>platter := P\<rparr>)) b) = 0
      \<and> sl_locked (slks (binit (busy\<lparr>platter := P\<rparr>)) (BufLock b)) = 0"
proof -
  let ?s = "busy\<lparr>platter := P\<rparr>"
  have b: "bufs ?s = (\<lambda>i. buf0\<lparr>b_data := 0x80020000 + 1024 * of_nat i\<rparr>)" "platter ?s = P"
    by (simp_all add: busy_def idle_def)
  have a: "unat (0x80020000 + 1024 * of_nat i :: uint64) = 0x80020000 + 1024 * i" if "i < NBUF" for i
    using that by (simp add: unat_word_ariths unat_of_nat)
  have area: "unat x \<ge> 0x80020000 + 1024 * i \<and> unat x < 0x80020000 + 1024 * i + 1024" if "i < NBUF" "in_buf ?s i x" for i x
    using that a [OF that(1)] unat_sub_if' [of x "0x80020000 + 1024 * of_nat i"] unsigned_less [of x]
    by (auto simp: in_buf_def b split: if_splits)
  have dis: "i = j" if "i < NBUF" "j < NBUF" "in_buf ?s i x" "in_buf ?s j x" for i j x
    using area [OF that(1,3)] area [OF that(2,4)] by linarith
  have q: "disk_quiet ?s" by (simp add: disk_quiet_def busy_def idle_def)
  note i = binit_inv [of ?s 1, OF q _ _ _ _ dis]
  show "cache_inv 1 (binit ?s)" "refs 1 (binit ?s) k = 0" "blocked 1 (binit ?s) = {}" "platter (binit ?s) = P"
    by (rule i trans [OF i(4)]; use assms in \<open>simp add: b a buf0_def\<close>)+
  show "b_dev (bufs (binit ?s) b) = 0 \<and> b_refcnt (bufs (binit ?s) b) = 0 \<and> sl_locked (slks (binit ?s) (BufLock b)) = 0" if "b < NBUF"
    by (rule i(6); use assms that in \<open>simp add: b a buf0_def\<close>)
qed

definition cached :: tstate where
  "cached = binit (busy\<lparr>platter := (\<lambda>_ _. 0)\<rparr>)"

lemma cached_inv: "cache_inv 1 cached" "refs 1 cached k = 0" "blocked 1 cached = {}" "platter cached = (\<lambda>_ _. 0)"
  "b < NBUF \<Longrightarrow> b_dev (bufs cached b) = 0 \<and> b_refcnt (bufs cached b) = 0 \<and> sl_locked (slks cached (BufLock b)) = 0"
  unfolding cached_def by (rule fresh_cache; simp)+

theorem bread_brelse_witness:
  "\<exists>b t u. bread (Suc 0, disk_others (\<lambda>_. 0) ring_device) 1 45 cached = Ok (b, t) \<and> holds 1 t b 45
    \<and> brelse b t = Ok u \<and> cache_inv 1 u \<and> blocked 1 u = {}"
  using bread_brelse [OF disk_device_ring cached_inv(1), of 45 0 "\<lambda>_. 0"] by (auto simp: cached_inv)

end
