(* ===== verification/Logspec.thy ===== *)
theory Logspec
  imports Blockstore
begin

text \<open>
  The log as an atomic update of many blocks. Inside the interface \<open>block_store\<close>, \<^verbatim>\<open>commit\<close> writes the
  logged blocks to the log area, then the header, then the home locations, then an empty header;
  recovery copies the logged blocks home when the header says so. Together: a crash after any
  number of these writes, followed by recovery, leaves all of the transaction or nothing of it.
\<close>

declare install_loop.simps [simp del] write_log_loop.simps [simp del] log_index.simps [simp del]

section \<open>Writes and headers\<close>

definition apply_writes :: "(nat \<times> (nat \<Rightarrow> uchar)) list \<Rightarrow> (nat \<Rightarrow> nat \<Rightarrow> uchar) \<Rightarrow> nat \<Rightarrow> nat \<Rightarrow> uchar" where
  "apply_writes ws P = foldl (\<lambda>P (k, v). P(k := v)) P ws"

text \<open>The word at byte \<open>i\<close> of a block, and what a header block says.\<close>

definition word_at :: "(nat \<Rightarrow> uchar) \<Rightarrow> nat \<Rightarrow> uint" where
  "word_at h i = load32 (\<lambda>x. h (unat x)) (of_nat i)"

definition header_ok :: "(nat \<Rightarrow> uchar) \<Rightarrow> nat \<Rightarrow> (nat \<Rightarrow> uint) \<Rightarrow> bool" where
  "header_ok h n bl \<longleftrightarrow> word_at h 0 = of_nat n \<and> (\<forall>i < n. word_at h (4 + 4 * i) = bl i) \<and> (\<forall>i. BSIZE \<le> i \<longrightarrow> h i = 0)"

lemma apply_writes_append: "apply_writes (xs @ ys) P = apply_writes ys (apply_writes xs P)"
  by (simp add: apply_writes_def)

lemma apply_writes_simps [simp]: "apply_writes [] P = P" "apply_writes ((k, v) # xs) P = apply_writes xs (P(k := v))"
  by (simp_all add: apply_writes_def)

lemma apply_writes_snoc: "apply_writes (xs @ [(k, v)]) P = (apply_writes xs P)(k := v)"
  by (simp add: apply_writes_def)

lemma apply_writes_away: "k \<notin> fst ` set xs \<Longrightarrow> apply_writes xs P k = P k"
  by (induction xs rule: rev_induct) (auto simp: apply_writes_def split: prod.split)

lemma apply_writes_map:
  assumes "inj_on f (set is)" "i \<in> set is"
  shows "apply_writes (map (\<lambda>i. (f i, v i)) is) P (f i) = v i"
  using assms
proof (induction "is" rule: rev_induct)
  case (snoc j js)
  show ?case
  proof (cases "i = j")
    case False
    with snoc.prems have "f i \<noteq> f j" "i \<in> set js" by (auto simp: inj_on_def)
    with snoc show ?thesis by (simp add: apply_writes_snoc)
  qed (simp add: apply_writes_snoc)
qed simp

lemma load_le_block:
  assumes "i + n \<le> 2 ^ 64" "\<And>j. j < n \<Longrightarrow> h (i + j) = m (a + of_nat (i + j))"
  shows "(load_le (\<lambda>x. h (unat x)) (of_nat i) n :: 'w::len word) = load_le m (a + of_nat i) n"
  using assms
proof (induction n arbitrary: i)
  case (Suc n)
  have "(load_le (\<lambda>x. h (unat x)) (of_nat (Suc i)) n :: 'w word) = load_le m (a + of_nat (Suc i)) n"
  proof (rule Suc.IH)
    show "h (Suc i + j) = m (a + of_nat (Suc i + j))" if "j < n" for j
      using Suc.prems(2) [of "Suc j"] that by simp
  qed (use Suc.prems(1) in simp)
  moreover have "h (unat (of_nat i :: uint64)) = m (a + of_nat i)"
    using Suc.prems(1) Suc.prems(2) [of 0] by (simp add: unat_of_nat_small)
  ultimately show ?case by (simp add: add.commute add.left_commute)
qed simp

lemma word_at_block: "i + 4 \<le> BSIZE \<Longrightarrow> word_at (block_at m a) i = load32 m (a + of_nat i)"
  unfolding word_at_def load32_def by (rule load_le_block) (simp_all add: block_at_def)

section \<open>Copying a block\<close>

lemma same_log_fields:
  assumes "same_log s t"
  shows "lh_n t = lh_n s" "lh_block t = lh_block s" "log_start t = log_start s" "log_dev t = log_dev s" "data_of c t = data_of c s"
    "log_outstanding t = log_outstanding s" "log_committing t = log_committing s" "log_size t = log_size s"
  using assms by (cases s; cases t; simp add: same_log_def)+

lemma same_log_trans: "same_log s t \<Longrightarrow> same_log t u \<Longrightarrow> same_log s u"
  by (simp add: same_log_def)

lemma same_log_mem: "same_log s (s\<lparr>mem := m\<rparr>)"
  by (simp add: same_log_def data_of_def)

lemma block_at_copy:
  assumes "unat a + BSIZE \<le> 2 ^ 64" "unat b + BSIZE \<le> 2 ^ 64"
  shows "block_at (memmove m a b (of_nat BSIZE)) a = block_at m b" "\<not> in_range x a BSIZE \<Longrightarrow> memmove m a b (of_nat BSIZE) x = m x"
  using memmove_blit [of a "of_nat BSIZE" b m] assms
  by (auto simp: block_at_def fun_eq_iff blit_apply in_range_def unat_of_nat)

lemma card_insert_pin:
  fixes p :: "uint \<Rightarrow> nat"
  shows "card {j. 0 < (p(x := n)) j} \<le> card {j. 0 < p j} + 1"
proof -
  have "{j. 0 < (p(x := n)) j} \<subseteq> insert x {j. 0 < p j}" by auto
  then have "card {j. 0 < (p(x := n)) j} \<le> card (insert x {j. 0 < p j})" by (rule card_mono [rotated]) simp
  then show ?thesis by (rule order_trans) (simp add: card_insert_le_m1 card_insert_if)
qed

context block_store
begin

lemma copy_data:
  assumes "ok s" "own s a j" "own s b k" "j \<noteq> k"
  defines "t \<equiv> s\<lparr>mem := memmove (mem s) (data_of a s) (data_of b s) (of_nat BSIZE)\<rparr>"
  shows "ok t" "own t = own s" "pins t = pins s" "busyb t = busyb s" "view t = (view s)(j := view s k)"
    "platter t = platter s" "disk_log t = disk_log s" "same_log s t"
proof -
  note w = own_wrap [OF assms(1,2)] own_wrap [OF assms(1,3)]
  note st = store [OF assms(1,2), of "memmove (mem s) (data_of a s) (data_of b s) (of_nat BSIZE)", folded t_def]
  have "\<not> buf_area s a x \<Longrightarrow> memmove (mem s) (data_of a s) (data_of b s) (of_nat BSIZE) x = mem s x" for x
    using block_at_copy(2) [OF w] by (simp add: buf_area_def)
  with st block_at_copy(1) [OF w] own_view [OF assms(1,3)]
  show "ok t" "own t = own s" "pins t = pins s" "busyb t = busyb s" "view t = (view s)(j := view s k)" by auto
  show "platter t = platter s" "disk_log t = disk_log s" "same_log s t" by (simp_all add: t_def same_log_mem)
qed

lemma two_reads:
  assumes "ok s" "busyb s = {}" "x \<noteq> y" "unat x < 2 ^ 31" "unat y < 2 ^ 31" "pins s x = 0" "pins s y < 2 ^ 32 - 1"
    and "card {j. 0 < pins s j} < NBUF" "0 < pins s y \<or> card {j. 0 < pins s j} + 1 < NBUF"
  shows "\<exists>a b t1 t. bread E d x s = Ok (a, t1) \<and> bread E d y t1 = Ok (b, t) \<and> same_log s t1 \<and> same_log s t \<and> ok t \<and> own t a x
    \<and> own t b y \<and> view t = view s \<and> pins t = (pins s)(x := 1, y := pins s y + 1) \<and> busyb t = {x, y}
    \<and> platter t = platter s \<and> disk_log t = disk_log s"
proof -
  obtain a t1 where t1: "bread E d x s = Ok (a, t1)" "ok t1" "same_log s t1" "own t1 a x" "view t1 = view s"
    "pins t1 = (pins s)(x := 1)" "busyb t1 = {x}" "platter t1 = platter s" "disk_log t1 = disk_log s"
    using bread [OF assms(1), of x] assms by auto
  have py: "pins t1 y = pins s y" "y \<notin> busyb t1" using t1(6,7) assms(3) by auto
  have "0 < pins t1 y \<or> card {j. 0 < pins t1 j} < NBUF"
    using card_insert_pin [of "pins s" x 1] assms(9) unfolding t1(6) [symmetric] py by linarith
  then obtain b t where t: "bread E d y t1 = Ok (b, t)" "ok t" "same_log t1 t" "own t b y" "\<forall>c j. own t1 c j \<longrightarrow> own t c j"
    "view t = view t1" "pins t = (pins t1)(y := pins t1 y + 1)" "busyb t = insert y (busyb t1)" "platter t = platter t1" "disk_log t = disk_log t1"
    using bread [OF t1(2) py(2) assms(5)] assms(7) unfolding py by blast
  with t1 assms(3) have "pins t = (pins s)(x := 1, y := pins s y + 1)" "busyb t = {x, y}" by auto
  with t t1 show ?thesis using same_log_trans [OF t1(3) t(3)] by auto
qed

text \<open>One block of the log: the home block goes to the log area, and later back.\<close>

lemma write_log_one_ok:
  assumes s: "ok s" "busyb s = {}" "log_dev s = d" and x: "x = log_start s + of_nat i + 1" and y: "y = lh_block s i"
    and xy: "x \<noteq> y" "unat x < 2 ^ 31" "unat y < 2 ^ 31" "pins s x = 0" "pins s y < 2 ^ 32 - 1"
    and av: "card {j. 0 < pins s j} < NBUF" "0 < pins s y"
  shows "\<exists>t. write_log_one E i s = Ok t \<and> ok t \<and> same_log s t \<and> busyb t = {} \<and> pins t = pins s
    \<and> view t = (view s)(x := view s y) \<and> platter t = (platter s)(unat x := view s y)
    \<and> disk_log t = disk_log s @ [(unat x, view s y)]"
proof -
  obtain a b t1 t where t: "Bio.bread E d x s = Ok (a, t1)" "Bio.bread E d y t1 = Ok (b, t)" "same_log s t1" "same_log s t" "ok t"
    "own t a x" "own t b y" "view t = view s" "pins t = (pins s)(x := 1, y := pins s y + 1)" "busyb t = {x, y}"
    "platter t = platter s" "disk_log t = disk_log s"
    using two_reads [OF s(1,2) xy av(1)] av(2) by blast
  let ?u = "t\<lparr>mem := memmove (mem t) (data_of a t) (data_of b t) (of_nat BSIZE)\<rparr>"
  note u = copy_data [OF t(5-7) xy(1)]
  have ou: "own ?u a x" "own ?u b y" using u(2) t(6,7) by simp_all
  obtain v where v: "Bio.bwrite E a ?u = Ok v" "ok v" "same_log ?u v" "own v = own ?u" "view v = view ?u" "pins v = pins ?u"
    "busyb v = busyb ?u" "platter v = (platter ?u)(unat x := view ?u x)" "disk_log v = disk_log ?u @ [(unat x, view ?u x)]"
    using bwrite [OF u(1) ou(1) xy(2)] by blast
  have ov: "own v a x" "own v b y" using ou v(4) by simp_all
  have "pins v y \<noteq> 1" using v(6) u(3) t(9) av(2) by simp
  then obtain w where w: "Bio.brelse b v = Ok w" "ok w" "same_log v w" "own w a x" "view w = view v" "pins w = (pins v)(y := pins v y - 1)"
    "busyb w = busyb v - {y}" "platter w = platter v" "disk_log w = disk_log v"
    using brelse [OF v(2) ov(2)] ov(1) xy(1) by blast
  have "view w x = platter w (unat x)" using w(5,8) v(5,8) by simp
  then obtain z where z: "Bio.brelse a w = Ok z" "ok z" "same_log w z" "view z = view w" "pins z = (pins w)(x := pins w x - 1)"
    "busyb z = busyb w - {x}" "platter z = platter w" "disk_log z = disk_log w"
    using brelse [OF w(2,4)] by blast
  have "write_log_one E i s = Ok z"
    using t(1,2) v(1) w(1) z(1) s(3) same_log_fields [OF t(3)] x y by (simp add: write_log_one_def)
  moreover have "same_log s z" using t(4) u(8) v(3) w(3) z(3) by (meson same_log_trans)
  moreover have "pins z = pins s" using z(5) w(6) v(6) u(3) t(9) xy(1,4) by (auto simp: fun_eq_iff)
  moreover have "busyb z = {}" using z(6) w(7) v(7) u(4) t(10) by auto
  ultimately show ?thesis using z w v u t xy(1) by auto
qed

lemma install_one_ok:
  assumes s: "ok s" "busyb s = {}" "log_dev s = d" and x: "x = log_start s + of_nat i + 1" and y: "y = lh_block s i"
    and xy: "x \<noteq> y" "unat x < 2 ^ 31" "unat y < 2 ^ 31" "pins s x = 0" "pins s y < 2 ^ 32 - 1"
    and av: "card {j. 0 < pins s j} < NBUF" "0 < pins s y \<or> card {j. 0 < pins s j} + 1 < NBUF" "recovering \<or> 0 < pins s y"
  shows "\<exists>t. install_one E recovering i s = Ok t \<and> ok t \<and> same_log s t \<and> busyb t = {}
    \<and> pins t = (pins s)(y := if recovering then pins s y else pins s y - 1)
    \<and> view t = (view s)(y := view s x) \<and> platter t = (platter s)(unat y := view s x)
    \<and> disk_log t = disk_log s @ [(unat y, view s x)]"
proof -
  obtain a b t1 t where t: "Bio.bread E d x s = Ok (a, t1)" "Bio.bread E d y t1 = Ok (b, t)" "same_log s t1" "same_log s t" "ok t"
    "own t a x" "own t b y" "view t = view s" "pins t = (pins s)(x := 1, y := pins s y + 1)" "busyb t = {x, y}"
    "platter t = platter s" "disk_log t = disk_log s"
    using two_reads [OF s(1,2) xy av(1,2)] by blast
  let ?u = "t\<lparr>mem := memmove (mem t) (data_of b t) (data_of a t) (of_nat BSIZE)\<rparr>"
  note u = copy_data [OF t(5,7,6) xy(1) [symmetric]]
  have ou: "own ?u a x" "own ?u b y" using u(2) t(6,7) by simp_all
  obtain v where v: "Bio.bwrite E b ?u = Ok v" "ok v" "same_log ?u v" "own v = own ?u" "view v = view ?u" "pins v = pins ?u"
    "busyb v = busyb ?u" "platter v = (platter ?u)(unat y := view ?u y)" "disk_log v = disk_log ?u @ [(unat y, view ?u y)]"
    using bwrite [OF u(1) ou(2) xy(3)] by blast
  have ov: "own v a x" "own v b y" and pv: "pins v = (pins s)(x := 1, y := pins s y + 1)" using ou v(4,6) u(3) t(9) by simp_all
  obtain v' where v': "(if \<not> recovering then Bio.bunpin b v else Ok v) = Ok v'" "ok v'" "same_log v v'" "own v' = own v" "view v' = view v"
    "pins v' = (pins s)(x := 1, y := if recovering then pins s y + 1 else pins s y)" "busyb v' = busyb v" "platter v' = platter v" "disk_log v' = disk_log v"
  proof (cases recovering)
    case True
    then show ?thesis using that [of v] v(2) pv by (simp add: same_log_def)
  next
    case False
    then have "2 \<le> pins v y" using av(3) pv by simp
    then obtain w where w: "Bio.bunpin b v = Ok w" "ok w" "same_log v w" "own w = own v" "view w = view v"
      "pins w = (pins v)(y := pins v y - 1)" "busyb w = busyb v" "platter w = platter v" "disk_log w = disk_log v"
      using bunpin [OF v(2) ov(2)] by blast
    moreover have "pins w = (pins s)(x := 1, y := pins s y)" using w(6) pv by simp
    ultimately show ?thesis using that [of w] False by simp
  qed
  have ov': "own v' a x" "own v' b y" using ov v'(4) by simp_all
  have "unat x \<noteq> unat y" using xy(1) by (simp add: word_unat_eq_iff)
  then have cx: "view v' x = platter v' (unat x)"
    using v'(5,8) v(5,8) u(5,6) t(8,11) view_disk [OF s(1) xy(4)] xy(1) by simp
  obtain w where w: "Bio.brelse a v' = Ok w" "ok w" "same_log v' w" "own w b y" "view w = view v'" "pins w = (pins v')(x := pins v' x - 1)"
    "busyb w = busyb v' - {x}" "platter w = platter v'" "disk_log w = disk_log v'"
    using brelse [OF v'(2) ov'(1) cx] ov'(2) xy(1) [symmetric] by blast
  have "view w y = platter w (unat y)" using w(5,8) v'(5,8) v(5,8) by simp
  then obtain z where z: "Bio.brelse b w = Ok z" "ok z" "same_log w z" "view z = view w" "pins z = (pins w)(y := pins w y - 1)"
    "busyb z = busyb w - {y}" "platter z = platter w" "disk_log z = disk_log w"
    using brelse [OF w(2,4)] by blast
  have "install_one E recovering i s = Ok z"
    using t(1,2) v(1) v'(1) w(1) z(1) s(3) same_log_fields [OF t(3)] x y by (simp add: install_one_def)
  moreover have "same_log s z" using t(4) u(8) v(3) v'(3) w(3) z(3) by (meson same_log_trans)
  moreover have "pins z = (pins s)(y := if recovering then pins s y else pins s y - 1)"
    using z(5) w(6) v'(6) xy(1,4) by (auto simp: fun_eq_iff)
  moreover have "busyb z = {}" using z(6) w(7) v'(7) v(7) u(4) t(10) by auto
  moreover have "view z = (view s)(y := view s x)" "platter z = (platter s)(unat y := view s x)"
    "disk_log z = disk_log s @ [(unat y, view s x)]"
    using z(4,7,8) w(5,8,9) v'(5,8,9) v(5,8,9) u(5-7) t(8,11,12) by simp_all
  ultimately show ?thesis using z(2) by blast
qed

end

section \<open>The layout of the log\<close>

definition puts :: "('k \<Rightarrow> 'b) \<Rightarrow> ('k \<Rightarrow> 'v) \<Rightarrow> 'k list \<Rightarrow> ('b \<Rightarrow> 'v) \<Rightarrow> 'b \<Rightarrow> 'v" where
  "puts f v ks V = foldl (\<lambda>V k. V(f k := v k)) V ks"

lemma puts_away: "b \<notin> f ` set ks \<Longrightarrow> puts f v ks V b = V b"
  by (induction ks rule: rev_induct) (auto simp: puts_def)

lemma puts_at: "inj_on f (set ks) \<Longrightarrow> k \<in> set ks \<Longrightarrow> puts f v ks V (f k) = v k"
  by (induction ks rule: rev_induct) (auto simp: puts_def inj_on_def)

lemma puts_Cons: "puts f v (k # ks) V = puts f v ks (V(f k := v k))"
  by (simp add: puts_def)

lemma puts_cong: "(\<And>k. k \<in> set ks \<Longrightarrow> v k = w k) \<Longrightarrow> puts f v ks V = puts f w ks V"
  by (induction ks arbitrary: V) (simp_all add: puts_def)

lemma apply_puts: "apply_writes (map (\<lambda>k. (f k, v k)) ks) P = puts f v ks P"
  by (induction ks arbitrary: P) (simp_all add: apply_writes_def puts_def)

text \<open>
  A transaction of \<open>n\<close> blocks: their numbers are distinct and outside the log area, which is the
  header followed by \<^verbatim>\<open>LOGSIZE\<close> blocks.
\<close>

definition log_blk :: "'a lstate_scheme \<Rightarrow> nat \<Rightarrow> uint" where
  "log_blk s i = log_start s + of_nat i + 1"

definition in_log :: "uint \<Rightarrow> nat \<Rightarrow> bool" where
  "in_log st k \<longleftrightarrow> unat st \<le> k \<and> k \<le> unat st + LOGSIZE"

definition log_layout :: "uint \<Rightarrow> nat \<Rightarrow> 'a lstate_scheme \<Rightarrow> bool" where
  "log_layout d n s \<longleftrightarrow> log_dev s = d \<and> lh_n s = of_nat n \<and> n < LOGSIZE \<and> unat (log_start s) + LOGSIZE < 2 ^ 31
     \<and> inj_on (lh_block s) {..<n} \<and> (\<forall>i < n. unat (lh_block s i) < 2 ^ 31 \<and> \<not> in_log (log_start s) (unat (lh_block s i)))"

lemma log_layout_same: "same_log s t \<Longrightarrow> log_layout d n t = log_layout d n s"
  using same_log_fields [of s t] by (simp add: log_layout_def)

lemma log_blk_same: "same_log s t \<Longrightarrow> log_blk t = log_blk s"
  using same_log_fields [of s t] by (simp add: log_blk_def fun_eq_iff)

lemma log_layoutD:
  assumes "log_layout d n s"
  shows "nat (sint (lh_n s)) = n" "int i < sint (lh_n s) \<longleftrightarrow> i < n" "i < LOGSIZE \<Longrightarrow> unat (log_blk s i) = unat (log_start s) + i + 1"
    "i < LOGSIZE \<Longrightarrow> in_log (log_start s) (unat (log_blk s i))" "i < n \<Longrightarrow> j < LOGSIZE \<Longrightarrow> log_blk s j \<noteq> lh_block s i"
proof -
  have "sint (of_nat n :: cint) = int n"
    using assms by (simp add: log_layout_def signed_of_nat signed_take_bit_int_eq_self)
  then show "nat (sint (lh_n s)) = n" "int i < sint (lh_n s) \<longleftrightarrow> i < n" using assms by (simp_all add: log_layout_def)
  show u: "unat (log_blk s i) = unat (log_start s) + i + 1" if "i < LOGSIZE" for i
    using assms that by (simp add: log_layout_def log_blk_def unat_word_ariths unat_of_nat)
  show l: "in_log (log_start s) (unat (log_blk s i))" if "i < LOGSIZE" for i
    using u [OF that] that by (simp add: in_log_def)
  show "log_blk s j \<noteq> lh_block s i" if "i < n" "j < LOGSIZE"
    using l [OF that(2)] assms that(1) by (auto simp: log_layout_def)
qed

end
