(* ===== verification/Logrun.thy ===== *)
theory Logrun
  imports Logspec
begin

text \<open>
  Whole runs of the log over the interface \<open>block_store\<close>: the loops over the logged blocks, the header
  written and read back, \<^verbatim>\<open>commit\<close>, and recovery.
\<close>

section \<open>Headers in a buffer\<close>

lemma area_word:
  assumes "unat a + BSIZE \<le> 2 ^ 64" "i + 4 \<le> BSIZE"
  shows "in_range x (a + of_nat i) 4 \<longleftrightarrow> unat a + i \<le> unat x \<and> unat x < unat a + i + 4"
proof -
  have "unat (a + of_nat i) = unat a + i" using assms by (subst unat_add_small) (simp_all add: unat_of_nat)
  then show ?thesis using in_range_no_wrap [of "a + of_nat i" 4 x] assms by simp
qed

lemma load32_store32_apart:
  assumes "unat a + BSIZE \<le> 2 ^ 64" "i + 4 \<le> BSIZE" "j + 4 \<le> BSIZE" "i + 4 \<le> j \<or> j + 4 \<le> i"
  shows "load32 (store32 m (a + of_nat i) v) (a + of_nat j) = load32 m (a + of_nat j)"
  unfolding load32_def store32_def
  by (rule load_store_le_other) (use area_word [OF assms(1,2)] area_word [OF assms(1,3)] assms(4) in auto)

lemma store32_area:
  assumes "unat a + BSIZE \<le> 2 ^ 64" "i + 4 \<le> BSIZE" "\<not> in_range x a BSIZE"
  shows "store32 m (a + of_nat i) v x = m x"
proof -
  have "\<not> in_range x (a + of_nat i) 4"
    using assms(3) area_word [OF assms(1,2), of x] in_range_no_wrap [OF assms(1), of x] assms(2) by auto
  then show ?thesis unfolding store32_def by (rule store_le_outside) simp
qed

lemma lh_at_eq: "lh_at a i = a + of_nat (4 + 4 * i)"
  by (simp add: lh_at_def add.assoc)

lemma write_blocks:
  fixes s :: "'a lstate_scheme"
  assumes w: "unat a + BSIZE \<le> 2 ^ 64" and n: "n \<le> LOGSIZE" and h: "load32 (mem s) a = of_nat n"
  shows "\<exists>m. for_each (\<lambda>i s. if i < LOGSIZE then Ok (s\<lparr>mem := store32 (mem s) (lh_at a i) (lh_block s i)\<rparr>)
      else Stop (Fault ''log.lh.block index'')) [0..<n] s = Ok (s\<lparr>mem := m\<rparr>)
    \<and> header_ok (block_at m a) n (lh_block s) \<and> (\<forall>x. \<not> in_range x a BSIZE \<longrightarrow> m x = mem s x)"
proof -
  let ?f = "\<lambda>i s :: 'a lstate_scheme. if i < LOGSIZE then Ok (s\<lparr>mem := store32 (mem s) (lh_at a i) (lh_block s i)\<rparr>)
      else Stop (Fault ''log.lh.block index'')"
  let ?I = "\<lambda>i (t :: 'a lstate_scheme). \<exists>m. t = s\<lparr>mem := m\<rparr> \<and> load32 m a = of_nat n \<and> (\<forall>j < i. load32 m (a + of_nat (4 + 4 * j)) = lh_block s j)
    \<and> (\<forall>x. \<not> in_range x a BSIZE \<longrightarrow> m x = mem s x)"
  have "\<exists>t. for_each ?f [0..<n] s = Ok t \<and> ?I n t"
  proof (rule for_each_range [where I = ?I])
    show "?I 0 s" using h by (intro exI [of _ "mem s"]) simp
    fix i t assume i: "i < n" and "?I i t"
    then obtain m where m: "t = s\<lparr>mem := m\<rparr>" "load32 m a = of_nat n" "\<forall>j < i. load32 m (a + of_nat (4 + 4 * j)) = lh_block s j"
      "\<forall>x. \<not> in_range x a BSIZE \<longrightarrow> m x = mem s x" by blast
    let ?m = "store32 m (a + of_nat (4 + 4 * i)) (lh_block s i)"
    have b: "4 + 4 * i + 4 \<le> BSIZE" using i n by simp
    have "load32 ?m a = of_nat n"
      using load32_store32_apart [OF w b, of 0 m "lh_block s i"] m(2) by simp
    moreover have "load32 ?m (a + of_nat (4 + 4 * j)) = lh_block s j" if "j < Suc i" for j
    proof (cases "j = i")
      case False
      then have "j < i" "4 + 4 * j + 4 \<le> BSIZE" "4 + 4 * j + 4 \<le> 4 + 4 * i" using that b by auto
      then show ?thesis using load32_store32_apart [OF w b, of "4 + 4 * j" m "lh_block s i"] m(3) by simp
    qed simp
    moreover have "?m x = mem s x" if "\<not> in_range x a BSIZE" for x using store32_area [OF w b that] m(4) that by simp
    ultimately have "?I (Suc i) (s\<lparr>mem := ?m\<rparr>)" by blast
    moreover have "?f i t = Ok (s\<lparr>mem := ?m\<rparr>)" using i n m(1) by (simp add: lh_at_eq)
    ultimately show "\<exists>t'. ?f i t = Ok t' \<and> ?I (Suc i) t'" by blast
  qed
  then obtain m where m: "for_each ?f [0..<n] s = Ok (s\<lparr>mem := m\<rparr>)" "load32 m a = of_nat n"
    "\<forall>j < n. load32 m (a + of_nat (4 + 4 * j)) = lh_block s j" "\<forall>x. \<not> in_range x a BSIZE \<longrightarrow> m x = mem s x" by blast
  have "header_ok (block_at m a) n (lh_block s)"
    using m(2,3) n word_at_block [of 0 m a] word_at_block [of "4 + 4 * _" m a] by (auto simp: header_ok_def block_at_def)
  with m(1,4) show ?thesis by blast
qed

context block_store
begin

lemma write_head_ok:
  assumes s: "ok s" "busyb s = {}" "log_dev s = d" and n: "lh_n s = of_nat n" "n < LOGSIZE" "unat (log_start s) < 2 ^ 31"
    and p: "pins s (log_start s) = 0" "card {j. 0 < pins s j} < NBUF"
  shows "\<exists>t h. write_head E s = Ok t \<and> ok t \<and> same_log s t \<and> busyb t = {} \<and> pins t = pins s \<and> header_ok h n (lh_block s)
    \<and> view t = (view s)(log_start s := h) \<and> platter t = (platter s)(unat (log_start s) := h)
    \<and> disk_log t = disk_log s @ [(unat (log_start s), h)]"
proof -
  let ?k = "log_start s"
  obtain b t where t: "Bio.bread E d ?k s = Ok (b, t)" "ok t" "same_log s t" "own t b ?k" "view t = view s"
    "pins t = (pins s)(?k := 1)" "busyb t = {?k}" "platter t = platter s" "disk_log t = disk_log s"
    using bread [OF s(1), of ?k] s(2) n(3) p by auto
  let ?a = "data_of b t"
  let ?u = "t\<lparr>mem := store32 (mem t) ?a (lh_n t)\<rparr>"
  note f = same_log_fields [OF t(3)] and w = own_wrap [OF t(2,4)]
  have sn: "nat (sint (lh_n ?u)) = n" using n(1,2) f by (simp add: signed_of_nat signed_take_bit_int_eq_self)
  obtain m where m: "for_each (\<lambda>i s. if i < LOGSIZE then Ok (s\<lparr>mem := store32 (mem s) (lh_at ?a i) (lh_block s i)\<rparr>)
      else Stop (Fault ''log.lh.block index'')) [0..<n] ?u = Ok (?u\<lparr>mem := m\<rparr>)"
    "header_ok (block_at m ?a) n (lh_block s)" "\<forall>x. \<not> in_range x ?a BSIZE \<longrightarrow> m x = mem ?u x"
    using write_blocks [OF w, of n ?u] n f by auto
  have "m x = mem t x" if "\<not> buf_area t b x" for x
    using m(3) that store32_area [OF w, of 0 x] by (simp add: buf_area_def)
  note st = store [OF t(2,4) this]
  let ?v = "t\<lparr>mem := m\<rparr>"
  have o: "own ?v b ?k" using st t(4) by simp
  obtain v where v: "Bio.bwrite E b ?v = Ok v" "ok v" "same_log ?v v" "own v = own ?v" "view v = view ?v" "pins v = pins ?v"
    "busyb v = busyb ?v" "platter v = (platter ?v)(unat ?k := view ?v ?k)" "disk_log v = disk_log ?v @ [(unat ?k, view ?v ?k)]"
    using bwrite [OF _ o n(3)] st by blast
  have "view v ?k = platter v (unat ?k)" "own v b ?k" using v(4,5,8) o by simp_all
  then obtain z where z: "Bio.brelse b v = Ok z" "ok z" "same_log v z" "view z = view v" "pins z = (pins v)(?k := pins v ?k - 1)"
    "busyb z = busyb v - {?k}" "platter z = platter v" "disk_log z = disk_log v"
    using brelse [OF v(2)] by blast
  have "write_head E s = Ok z"
    using t(1) sn m(1) v(1) z(1) s(3) by (simp add: write_head_def Let_def)
  moreover have "same_log s z" using t(3) same_log_mem [of t m] v(3) z(3) by (meson same_log_trans)
  moreover have "pins z = pins s" using z(5) v(6) st t(6) p(1) by (auto simp: fun_eq_iff)
  moreover have "busyb z = {}" using z(6) v(7) st t(7) by auto
  ultimately show ?thesis
    using z v st t m(2) by (intro exI [of _ z] exI [of _ "block_at m ?a"]) simp
qed

lemma write_log_loop_ok:
  assumes s: "ok s" "busyb s = {}" "log_layout d n s" and i: "i \<le> n"
    and p: "\<And>j. j < n \<Longrightarrow> 0 < pins s (lh_block s j) \<and> pins s (lh_block s j) < 2 ^ 32 - 1"
      "\<And>k. in_log (log_start s) (unat k) \<Longrightarrow> pins s k = 0" "card {j. 0 < pins s j} < NBUF"
  shows "\<exists>t. write_log_loop E i s = Ok t \<and> ok t \<and> same_log s t \<and> busyb t = {} \<and> pins t = pins s
    \<and> view t = puts (log_blk s) (\<lambda>i. view s (lh_block s i)) [i..<n] (view s)
    \<and> platter t = puts (\<lambda>i. unat (log_blk s i)) (\<lambda>i. view s (lh_block s i)) [i..<n] (platter s)
    \<and> disk_log t = disk_log s @ map (\<lambda>i. (unat (log_blk s i), view s (lh_block s i))) [i..<n]"
  using s i p
proof (induction "n - i" arbitrary: i s)
  case 0
  then show ?case using log_layoutD(2) [OF 0(4)] by (subst write_log_loop.simps) (simp add: puts_def same_log_def)
next
  case (Suc m)
  then have i: "i < n" "i < LOGSIZE" by (auto simp: log_layout_def)
  note L = log_layoutD [OF Suc.prems(3)]
  have xy: "log_blk s i \<noteq> lh_block s i" "unat (log_blk s i) < 2 ^ 31" "unat (lh_block s i) < 2 ^ 31" "pins s (log_blk s i) = 0"
    "log_dev s = d"
    using L(3,4,5) i Suc.prems(3,6) by (auto simp: log_layout_def)
  note P = Suc.prems(5) [OF i(1)]
  obtain u where u: "write_log_one E i s = Ok u" "ok u" "same_log s u" "busyb u = {}" "pins u = pins s"
    "view u = (view s)(log_blk s i := view s (lh_block s i))" "platter u = (platter s)(unat (log_blk s i) := view s (lh_block s i))"
    "disk_log u = disk_log s @ [(unat (log_blk s i), view s (lh_block s i))]"
    using write_log_one_ok [OF Suc.prems(1,2) xy(5) log_blk_def refl xy(1-4) conjunct2 [OF P] Suc.prems(7) conjunct1 [OF P]] by blast
  note f = same_log_fields [OF u(3)]
  have hu: "view u (lh_block s j) = view s (lh_block s j)" if "j < n" for j using u(6) L(5) [OF that i(2)] by auto
  have hm: "m = n - Suc i" and lay: "log_layout d n u" using Suc.hyps(2) Suc.prems(3) log_layout_same [OF u(3)] by simp_all
  have pu: "\<And>j. j < n \<Longrightarrow> 0 < pins u (lh_block u j) \<and> pins u (lh_block u j) < 2 ^ 32 - 1"
    "\<And>k. in_log (log_start u) (unat k) \<Longrightarrow> pins u k = 0" "card {j. 0 < pins u j} < NBUF"
    using Suc.prems(5-7) by (simp_all only: u(5) f)
  obtain t where t: "write_log_loop E (Suc i) u = Ok t" "ok t" "same_log u t" "busyb t = {}" "pins t = pins u"
    "view t = puts (log_blk u) (\<lambda>i. view u (lh_block u i)) [Suc i..<n] (view u)"
    "platter t = puts (\<lambda>i. unat (log_blk u i)) (\<lambda>i. view u (lh_block u i)) [Suc i..<n] (platter u)"
    "disk_log t = disk_log u @ map (\<lambda>i. (unat (log_blk u i), view u (lh_block u i))) [Suc i..<n]"
    using Suc.hyps(1) [OF hm u(2,4) lay Suc_leI [OF i(1)] pu] by blast
  note lb = log_blk_same [OF u(3)]
  have "view t = puts (log_blk s) (\<lambda>i. view s (lh_block s i)) [Suc i..<n] (view u)"
    unfolding t(6) lb f by (rule puts_cong) (use hu in auto)
  moreover have "platter t = puts (\<lambda>i. unat (log_blk s i)) (\<lambda>i. view s (lh_block s i)) [Suc i..<n] (platter u)"
    unfolding t(7) lb f by (rule puts_cong) (use hu in auto)
  moreover have "disk_log t = disk_log u @ map (\<lambda>i. (unat (log_blk s i), view s (lh_block s i))) [Suc i..<n]"
    unfolding t(8) lb f using hu by simp
  moreover have "write_log_loop E i s = Ok t" using u(1) t(1) L(2) i by (subst write_log_loop.simps) simp
  ultimately show ?case
    using t(2,4,5) u(5) same_log_trans [OF u(3) t(3)] unfolding upt_conv_Cons [OF i(1)] puts_Cons u(6-8) by simp
qed

lemma install_loop_ok:
  assumes s: "ok s" "busyb s = {}" "log_layout d n s" and i: "i \<le> n"
    and p: "\<And>j. i \<le> j \<Longrightarrow> j < n \<Longrightarrow> (recovering \<or> 0 < pins s (lh_block s j)) \<and> pins s (lh_block s j) < 2 ^ 32 - 1"
      "\<And>k. in_log (log_start s) (unat k) \<Longrightarrow> pins s k = 0" "card {j. 0 < pins s j} < NBUF"
      "recovering \<Longrightarrow> card {j. 0 < pins s j} + 1 < NBUF"
  shows "\<exists>t. install_loop E recovering i s = Ok t \<and> ok t \<and> same_log s t \<and> busyb t = {} \<and> (\<forall>k. pins t k \<le> pins s k)
    \<and> pins t = puts (lh_block s) (\<lambda>i. if recovering then pins s (lh_block s i) else pins s (lh_block s i) - 1) [i..<n] (pins s)
    \<and> view t = puts (lh_block s) (\<lambda>i. view s (log_blk s i)) [i..<n] (view s)
    \<and> platter t = puts (\<lambda>i. unat (lh_block s i)) (\<lambda>i. view s (log_blk s i)) [i..<n] (platter s)
    \<and> disk_log t = disk_log s @ map (\<lambda>i. (unat (lh_block s i), view s (log_blk s i))) [i..<n]"
  using s i p
proof (induction "n - i" arbitrary: i s)
  case 0
  then show ?case using log_layoutD(2) [OF 0(4)] by (subst install_loop.simps) (simp add: puts_def same_log_def)
next
  case (Suc m)
  then have i: "i < n" "i < LOGSIZE" by (auto simp: log_layout_def)
  note L = log_layoutD [OF Suc.prems(3)] and P = Suc.prems(5) [OF order_refl i(1)]
  have xy: "log_blk s i \<noteq> lh_block s i" "unat (log_blk s i) < 2 ^ 31" "unat (lh_block s i) < 2 ^ 31" "pins s (log_blk s i) = 0"
    "log_dev s = d" and inj: "inj_on (lh_block s) {..<n}"
    using L(3,4,5) i Suc.prems(3,6) by (auto simp: log_layout_def)
  have av: "0 < pins s (lh_block s i) \<or> card {j. 0 < pins s j} + 1 < NBUF" "recovering \<or> 0 < pins s (lh_block s i)"
    using conjunct1 [OF P] Suc.prems(8) by argo+
  obtain u where u: "install_one E recovering i s = Ok u" "ok u" "same_log s u" "busyb u = {}"
    "pins u = (pins s)(lh_block s i := if recovering then pins s (lh_block s i) else pins s (lh_block s i) - 1)"
    "view u = (view s)(lh_block s i := view s (log_blk s i))" "platter u = (platter s)(unat (lh_block s i) := view s (log_blk s i))"
    "disk_log u = disk_log s @ [(unat (lh_block s i), view s (log_blk s i))]"
    using install_one_ok [OF Suc.prems(1,2) xy(5) log_blk_def refl xy(1-4) conjunct2 [OF P] Suc.prems(7) av] by blast
  note f = same_log_fields [OF u(3)] and lb = log_blk_same [OF u(3)]
  have le: "pins u k \<le> pins s k" for k unfolding u(5) by simp
  then have "{j. 0 < pins u j} \<subseteq> {j. 0 < pins s j}" by (auto intro: less_le_trans)
  then have cle: "card {j. 0 < pins u j} \<le> card {j. 0 < pins s j}" by (intro card_mono) simp_all
  have away: "lh_block s j \<noteq> lh_block s i" if "Suc i \<le> j" "j < n" for j
    using inj_onD [OF inj, of j i] i(1) that by auto
  have pk: "pins u (lh_block s j) = pins s (lh_block s j)" if "Suc i \<le> j" "j < n" for j using away [OF that] u(5) by simp
  have hu: "view u (log_blk s j) = view s (log_blk s j)" if "j < n" for j
    using u(6) L(5) [OF i(1), of j] that Suc.prems(3) by (auto simp: log_layout_def)
  have hm: "m = n - Suc i" and lay: "log_layout d n u" using Suc.hyps(2) Suc.prems(3) log_layout_same [OF u(3)] by simp_all
  have pu: "\<And>j. Suc i \<le> j \<Longrightarrow> j < n \<Longrightarrow> (recovering \<or> 0 < pins u (lh_block u j)) \<and> pins u (lh_block u j) < 2 ^ 32 - 1"
    "\<And>k. in_log (log_start u) (unat k) \<Longrightarrow> pins u k = 0"
    using pk Suc.prems(5) Suc.prems(6) le by (auto simp: f) (metis le_zero_eq)
  have cu: "card {j. 0 < pins u j} < NBUF" "recovering \<Longrightarrow> card {j. 0 < pins u j} + 1 < NBUF"
    using cle Suc.prems(7,8) by linarith+
  obtain t where t: "install_loop E recovering (Suc i) u = Ok t" "ok t" "same_log u t" "busyb t = {}" "\<forall>k. pins t k \<le> pins u k"
    "pins t = puts (lh_block u) (\<lambda>i. if recovering then pins u (lh_block u i) else pins u (lh_block u i) - 1) [Suc i..<n] (pins u)"
    "view t = puts (lh_block u) (\<lambda>i. view u (log_blk u i)) [Suc i..<n] (view u)"
    "platter t = puts (\<lambda>i. unat (lh_block u i)) (\<lambda>i. view u (log_blk u i)) [Suc i..<n] (platter u)"
    "disk_log t = disk_log u @ map (\<lambda>i. (unat (lh_block u i), view u (log_blk u i))) [Suc i..<n]"
    using Suc.hyps(1) [OF hm u(2,4) lay Suc_leI [OF i(1)] pu cu] by blast
  have "pins t = puts (lh_block s) (\<lambda>i. if recovering then pins s (lh_block s i) else pins s (lh_block s i) - 1) [Suc i..<n] (pins u)"
    unfolding t(6) f by (rule puts_cong) (use pk in auto)
  moreover have "view t = puts (lh_block s) (\<lambda>i. view s (log_blk s i)) [Suc i..<n] (view u)"
    unfolding t(7) lb f by (rule puts_cong) (use hu in auto)
  moreover have "platter t = puts (\<lambda>i. unat (lh_block s i)) (\<lambda>i. view s (log_blk s i)) [Suc i..<n] (platter u)"
    unfolding t(8) lb f by (rule puts_cong) (use hu in auto)
  moreover have "disk_log t = disk_log u @ map (\<lambda>i. (unat (lh_block s i), view s (log_blk s i))) [Suc i..<n]"
    unfolding t(9) lb f using hu by simp
  moreover have "install_loop E recovering i s = Ok t" using u(1) t(1) L(2) i by (subst install_loop.simps) simp
  moreover have "\<forall>k. pins t k \<le> pins s k" using t(5) le by (blast intro: order_trans)
  ultimately show ?case
    using t(2,4) same_log_trans [OF u(3) t(3)] unfolding upt_conv_Cons [OF i(1)] puts_Cons u(5-8) by simp
qed

end

section \<open>Commit\<close>

lemma same_log_lh_n: "same_log s t \<Longrightarrow> same_log (s\<lparr>lh_n := x\<rparr>) (t\<lparr>lh_n := x\<rparr>)"
  by (cases s; cases t; simp add: same_log_def data_of_def)

text \<open>The writes of a commit of the blocks \<open>bl i\<close> with contents \<open>v i\<close>, with its two headers.\<close>

definition commit_writes :: "uint \<Rightarrow> (nat \<Rightarrow> uint) \<Rightarrow> (nat \<Rightarrow> nat \<Rightarrow> uchar) \<Rightarrow> nat \<Rightarrow> (nat \<Rightarrow> uchar) \<Rightarrow> (nat \<Rightarrow> uchar)
    \<Rightarrow> (nat \<times> (nat \<Rightarrow> uchar)) list" where
  "commit_writes st bl v n h h0 = map (\<lambda>i. (unat st + i + 1, v i)) [0..<n] @ [(unat st, h)]
     @ map (\<lambda>i. (unat (bl i), v i)) [0..<n] @ [(unat st, h0)]"

definition log_writes :: "uint \<Rightarrow> (nat \<Rightarrow> nat \<Rightarrow> uchar) \<Rightarrow> nat \<Rightarrow> (nat \<Rightarrow> uchar) \<Rightarrow> (nat \<times> (nat \<Rightarrow> uchar)) list" where
  "log_writes st v n h = map (\<lambda>i. (unat st + i + 1, v i)) [0..<n] @ [(unat st, h)]"

definition home_writes :: "uint \<Rightarrow> (nat \<Rightarrow> uint) \<Rightarrow> (nat \<Rightarrow> nat \<Rightarrow> uchar) \<Rightarrow> nat \<Rightarrow> (nat \<Rightarrow> uchar)
    \<Rightarrow> (nat \<times> (nat \<Rightarrow> uchar)) list" where
  "home_writes st bl v n h0 = map (\<lambda>i. (unat (bl i), v i)) [0..<n] @ [(unat st, h0)]"

lemma commit_writes_split: "commit_writes st bl v n h h0 = log_writes st v n h @ home_writes st bl v n h0"
  by (simp add: commit_writes_def log_writes_def home_writes_def)

context block_store
begin

text \<open>The first half of \<^verbatim>\<open>commit\<close>, up to the header that makes the transaction durable.\<close>

lemma commit_logs:
  assumes s: "ok s" "busyb s = {}" "log_layout d n s"
    and p: "\<And>j. j < n \<Longrightarrow> 0 < pins s (lh_block s j) \<and> pins s (lh_block s j) < 2 ^ 32 - 1"
      "\<And>k. in_log (log_start s) (unat k) \<Longrightarrow> pins s k = 0" "card {j. 0 < pins s j} < NBUF"
  shows "\<exists>u h. rbind (write_log E s) (write_head E) = Ok u \<and> ok u \<and> same_log s u \<and> busyb u = {} \<and> pins u = pins s
    \<and> header_ok h n (lh_block s) \<and> (\<forall>i < n. view u (log_blk s i) = view s (lh_block s i))
    \<and> (\<forall>k. \<not> in_log (log_start s) (unat k) \<longrightarrow> view u k = view s k)
    \<and> disk_log u = disk_log s @ log_writes (log_start s) (\<lambda>i. view s (lh_block s i)) n h
    \<and> platter u = apply_writes (log_writes (log_start s) (\<lambda>i. view s (lh_block s i)) n h) (platter s)"
proof -
  note L = log_layoutD [OF s(3)]
  let ?v = "\<lambda>i. view s (lh_block s i)" and ?st = "log_start s"
  have n: "lh_n s = of_nat n" "n < LOGSIZE" "unat ?st < 2 ^ 31" "log_dev s = d" using s(3) by (auto simp: log_layout_def)
  obtain u1 where u1: "write_log_loop E 0 s = Ok u1" "ok u1" "same_log s u1" "busyb u1 = {}" "pins u1 = pins s"
    "view u1 = puts (log_blk s) ?v [0..<n] (view s)" "platter u1 = puts (\<lambda>i. unat (log_blk s i)) ?v [0..<n] (platter s)"
    "disk_log u1 = disk_log s @ map (\<lambda>i. (unat (log_blk s i), ?v i)) [0..<n]"
    using write_log_loop_ok [OF s(1-3) le0 p] by blast
  note f1 = same_log_fields [OF u1(3)]
  have p0: "pins s ?st = 0" by (rule p(2)) (simp add: in_log_def)
  obtain u h where u: "write_head E u1 = Ok u" "ok u" "same_log u1 u" "busyb u = {}" "pins u = pins u1" "header_ok h n (lh_block s)"
    "view u = (view u1)(?st := h)" "platter u = (platter u1)(unat ?st := h)" "disk_log u = disk_log u1 @ [(unat ?st, h)]"
    using write_head_ok [OF u1(2,4)] n p0 p(3) u1(5) f1 by metis
  have lbi: "inj_on (log_blk s) (set [0..<n])" using L(3) n(2) by (auto intro!: inj_onI dest: arg_cong [where f = unat])
  have vl: "view u (log_blk s i) = ?v i" if "i < n" for i
  proof -
    have "log_blk s i \<noteq> ?st" using L(3) [of i] that n(2) by auto
    then show ?thesis using puts_at [OF lbi, of i ?v "view s"] that u1(6) u(7) by simp
  qed
  have va: "view u k = view s k" if k: "\<not> in_log ?st (unat k)" for k
  proof -
    have "k \<noteq> ?st" using k by (auto simp: in_log_def)
    moreover have "k \<notin> log_blk s ` set [0..<n]" using k L(4) n(2) by auto
    ultimately show ?thesis using u(7) u1(6) puts_away [of k "log_blk s" "[0..<n]" ?v "view s"] by simp
  qed
  have lw: "map (\<lambda>i. (unat (log_blk s i), ?v i)) [0..<n] = map (\<lambda>i. (unat ?st + i + 1, ?v i)) [0..<n]" using L(3) n(2) by simp
  have "puts (\<lambda>i. unat (log_blk s i)) ?v [0..<n] (platter s) = apply_writes (map (\<lambda>i. (unat ?st + i + 1, ?v i)) [0..<n]) (platter s)"
    unfolding lw [symmetric] by (rule apply_puts [symmetric])
  then have pl: "platter u = apply_writes (log_writes ?st ?v n h) (platter s)"
    by (simp add: u(8) u1(7) log_writes_def apply_writes_append)
  have dl: "disk_log u = disk_log s @ log_writes ?st ?v n h" by (simp add: u(9) u1(8) lw log_writes_def)
  have "rbind (write_log E s) (write_head E) = Ok u" using u1(1) u(1) by (simp add: write_log_def)
  then show ?thesis using u(2,4,5,6) u1(5) same_log_trans [OF u1(3) u(3)] vl va dl pl by auto
qed

text \<open>The second half, which copies the blocks home and empties the log.\<close>

lemma commit_installs:
  assumes s: "ok s" "busyb s = {}" "log_layout d n s" and v: "\<And>i. i < n \<Longrightarrow> view s (log_blk s i) = v i"
    and p: "\<And>j. j < n \<Longrightarrow> 0 < pins s (lh_block s j) \<and> pins s (lh_block s j) < 2 ^ 32 - 1"
      "\<And>k. in_log (log_start s) (unat k) \<Longrightarrow> pins s k = 0" "card {j. 0 < pins s j} < NBUF"
  shows "\<exists>t h0. rbind (install_trans E False s) (\<lambda>s. write_head E (s\<lparr>lh_n := 0\<rparr>)) = Ok t \<and> ok t \<and> busyb t = {}
    \<and> same_log (s\<lparr>lh_n := 0\<rparr>) t \<and> header_ok h0 0 (lh_block s)
    \<and> disk_log t = disk_log s @ home_writes (log_start s) (lh_block s) v n h0
    \<and> platter t = apply_writes (home_writes (log_start s) (lh_block s) v n h0) (platter s)
    \<and> pins t = puts (lh_block s) (\<lambda>i. pins s (lh_block s i) - 1) [0..<n] (pins s)
    \<and> view t = (puts (lh_block s) v [0..<n] (view s))(log_start s := h0)"
proof -
  let ?st = "log_start s"
  have n: "n < LOGSIZE" "unat ?st < 2 ^ 31" "log_dev s = d" using s(3) by (auto simp: log_layout_def)
  have p': "\<And>j. 0 \<le> j \<Longrightarrow> j < n \<Longrightarrow> (False \<or> 0 < pins s (lh_block s j)) \<and> pins s (lh_block s j) < 2 ^ 32 - 1" using p(1) by simp
  obtain u where u: "install_loop E False 0 s = Ok u" "ok u" "same_log s u" "busyb u = {}" "\<forall>k. pins u k \<le> pins s k"
    "pins u = puts (lh_block s) (\<lambda>i. if False then pins s (lh_block s i) else pins s (lh_block s i) - 1) [0..<n] (pins s)"
    "view u = puts (lh_block s) (\<lambda>i. view s (log_blk s i)) [0..<n] (view s)"
    "platter u = puts (\<lambda>i. unat (lh_block s i)) (\<lambda>i. view s (log_blk s i)) [0..<n] (platter s)"
    "disk_log u = disk_log s @ map (\<lambda>i. (unat (lh_block s i), view s (log_blk s i))) [0..<n]"
    using install_loop_ok [OF s(1-3) le0 p' p(2,3)] by blast
  note f = same_log_fields [OF u(3)]
  let ?w = "u\<lparr>lh_n := 0\<rparr>"
  have w: "ok ?w" "busyb ?w = {}" "pins ?w = pins u" "view ?w = view u" using header u(2,4) by simp_all
  have "card {j. 0 < pins u j} \<le> card {j. 0 < pins s j}" using u(5) by (intro card_mono) (auto intro: less_le_trans)
  then have c: "card {j. 0 < pins u j} < NBUF" using p(3) by (rule le_less_trans)
  have "pins s ?st = 0" by (rule p(2)) (simp add: in_log_def)
  then have "pins u ?st = 0" using spec [OF u(5), of ?st] by simp
  then have wl: "log_dev ?w = d" "lh_n ?w = of_nat 0" "(0 :: nat) < LOGSIZE" "unat (log_start ?w) < 2 ^ 31"
    "pins ?w (log_start ?w) = 0" "card {j. 0 < pins ?w j} < NBUF"
    using n f c w(3) by simp_all
  obtain t h0 where t: "write_head E ?w = Ok t" "ok t" "same_log ?w t" "busyb t = {}" "pins t = pins ?w" "header_ok h0 0 (lh_block ?w)"
    "view t = (view ?w)(log_start ?w := h0)" "platter t = (platter ?w)(unat (log_start ?w) := h0)"
    "disk_log t = disk_log ?w @ [(unat (log_start ?w), h0)]"
    using write_head_ok [OF w(1,2) wl] by blast
  have up: "puts (lh_block s) (\<lambda>i. view s (log_blk s i)) [0..<n] V = puts (lh_block s) v [0..<n] V" for V
    by (rule puts_cong) (use v in auto)
  have up': "puts (\<lambda>i. unat (lh_block s i)) (\<lambda>i. view s (log_blk s i)) [0..<n] V = puts (\<lambda>i. unat (lh_block s i)) v [0..<n] V" for V
    by (rule puts_cong) (use v in auto)
  have "disk_log t = disk_log s @ home_writes ?st (lh_block s) v n h0" using v by (simp add: t(9) u(9) f home_writes_def)
  moreover have "platter t = apply_writes (home_writes ?st (lh_block s) v n h0) (platter s)"
    by (simp add: t(8) u(8) f up' home_writes_def apply_writes_append apply_puts)
  moreover have "view t = (puts (lh_block s) v [0..<n] (view s))(?st := h0)" by (simp add: t(7) w(4) u(7) f up)
  moreover have "pins t = puts (lh_block s) (\<lambda>i. pins s (lh_block s i) - 1) [0..<n] (pins s)" by (simp add: t(5) w(3) u(6))
  moreover have "same_log (s\<lparr>lh_n := 0\<rparr>) t" by (rule same_log_trans [OF same_log_lh_n [OF u(3)] t(3)])
  moreover have "rbind (install_trans E False s) (\<lambda>s. write_head E (s\<lparr>lh_n := 0\<rparr>)) = Ok t"
    using u(1) t(1) by (simp add: install_trans_def)
  ultimately show ?thesis using t(2,4,6) f by auto
qed

lemma commit_ok:
  assumes s: "ok s" "busyb s = {}" "log_layout d n s" "0 < n"
    and p: "\<And>j. j < n \<Longrightarrow> 0 < pins s (lh_block s j) \<and> pins s (lh_block s j) < 2 ^ 32 - 1"
      "\<And>k. in_log (log_start s) (unat k) \<Longrightarrow> pins s k = 0" "card {j. 0 < pins s j} < NBUF"
  shows "\<exists>t h h0. commit E s = Ok t \<and> ok t \<and> busyb t = {} \<and> same_log (s\<lparr>lh_n := 0\<rparr>) t
    \<and> header_ok h n (lh_block s) \<and> header_ok h0 0 (lh_block s)
    \<and> disk_log t = disk_log s @ commit_writes (log_start s) (lh_block s) (\<lambda>i. view s (lh_block s i)) n h h0
    \<and> platter t = apply_writes (commit_writes (log_start s) (lh_block s) (\<lambda>i. view s (lh_block s i)) n h h0) (platter s)
    \<and> pins t = puts (lh_block s) (\<lambda>i. pins s (lh_block s i) - 1) [0..<n] (pins s)
    \<and> (\<forall>k. \<not> in_log (log_start s) (unat k) \<longrightarrow> view t k = view s k)"
proof -
  let ?v = "\<lambda>i. view s (lh_block s i)" and ?st = "log_start s"
  have n: "inj_on (lh_block s) {..<n}" using s(3) by (simp add: log_layout_def)
  obtain u h where u: "rbind (write_log E s) (write_head E) = Ok u" "ok u" "same_log s u" "busyb u = {}" "pins u = pins s"
    "header_ok h n (lh_block s)" "\<forall>i < n. view u (log_blk s i) = ?v i" "\<forall>k. \<not> in_log ?st (unat k) \<longrightarrow> view u k = view s k"
    "disk_log u = disk_log s @ log_writes ?st ?v n h" "platter u = apply_writes (log_writes ?st ?v n h) (platter s)"
    using commit_logs [OF s(1-3) p] by blast
  note f = same_log_fields [OF u(3)]
  have lay: "log_layout d n u" using s(3) log_layout_same [OF u(3)] by simp
  have v: "\<And>i. i < n \<Longrightarrow> view u (log_blk u i) = ?v i" using u(7) log_blk_same [OF u(3)] by simp
  have pu: "\<And>j. j < n \<Longrightarrow> 0 < pins u (lh_block u j) \<and> pins u (lh_block u j) < 2 ^ 32 - 1"
    "\<And>k. in_log (log_start u) (unat k) \<Longrightarrow> pins u k = 0" "card {j. 0 < pins u j} < NBUF"
    using p by (simp_all only: u(5) f)
  obtain t h0 where t: "rbind (install_trans E False u) (\<lambda>s. write_head E (s\<lparr>lh_n := 0\<rparr>)) = Ok t" "ok t" "busyb t = {}"
    "same_log (u\<lparr>lh_n := 0\<rparr>) t" "header_ok h0 0 (lh_block s)" "disk_log t = disk_log u @ home_writes ?st (lh_block s) ?v n h0"
    "platter t = apply_writes (home_writes ?st (lh_block s) ?v n h0) (platter u)"
    "pins t = puts (lh_block s) (\<lambda>i. pins s (lh_block s i) - 1) [0..<n] (pins s)"
    "view t = (puts (lh_block s) ?v [0..<n] (view u))(?st := h0)"
    using commit_installs [OF u(2,4) lay v pu] unfolding f u(5) by blast
  have cm: "commit E s = Ok t"
    using log_layoutD(2) [OF s(3), of 0] s(4) u(1) t(1) by (auto simp: commit_def rbind_Ok_iff)
  have vw: "view t k = view s k" if k: "\<not> in_log ?st (unat k)" for k
  proof -
    have st: "k \<noteq> ?st" using k by (auto simp: in_log_def)
    have "puts (lh_block s) ?v [0..<n] (view u) k = view s k"
    proof (cases "k \<in> lh_block s ` set [0..<n]")
      case True
      then obtain i where "k = lh_block s i" "i \<in> set [0..<n]" by blast
      then show ?thesis using puts_at [of "lh_block s" "[0..<n]" i ?v "view u"] n by (simp add: lessThan_atLeast0)
    qed (use k u(8) in \<open>simp add: puts_away\<close>)
    with st show ?thesis by (simp add: t(9))
  qed
  have "same_log (s\<lparr>lh_n := 0\<rparr>) t" by (rule same_log_trans [OF same_log_lh_n [OF u(3)] t(4)])
  then show ?thesis using cm t(2,3,5-8) u(6,9,10) vw
    by (intro exI [of _ t] exI [of _ h] exI [of _ h0]) (simp add: commit_writes_split apply_writes_append)
qed

end

end
