(* ===== verification/Recover.thy ===== *)
theory Recover
  imports Logrun
begin

text \<open>
  Recovery of the log, and the crash safety of \<^verbatim>\<open>commit\<close>: after any prefix of the writes of a commit,
  recovery brings the disk to the state before the transaction or to the state after it.
\<close>

section \<open>Recovery\<close>

lemma read_blocks:
  fixes s :: "'a lstate_scheme"
  assumes "n \<le> LOGSIZE"
  shows "\<exists>B. for_each (\<lambda>i s. if i < LOGSIZE then Ok (s\<lparr>lh_block := (lh_block s)(i := load32 (mem s) (lh_at a i))\<rparr>)
      else Stop (Fault ''log.lh.block index'')) [0..<n] s = Ok (s\<lparr>lh_block := B\<rparr>) \<and> (\<forall>i < n. B i = load32 (mem s) (lh_at a i))"
proof -
  let ?f = "\<lambda>i s :: 'a lstate_scheme. if i < LOGSIZE then Ok (s\<lparr>lh_block := (lh_block s)(i := load32 (mem s) (lh_at a i))\<rparr>)
      else Stop (Fault ''log.lh.block index'')"
  let ?I = "\<lambda>i (t :: 'a lstate_scheme). \<exists>B. t = s\<lparr>lh_block := B\<rparr> \<and> (\<forall>j < i. B j = load32 (mem s) (lh_at a j))"
  have "\<exists>t. for_each ?f [0..<n] s = Ok t \<and> ?I n t"
  proof (rule for_each_range [where I = ?I])
    show "?I 0 s" by (intro exI [of _ "lh_block s"]) simp
    fix i t assume i: "i < n" and "?I i t"
    then obtain B where B: "t = s\<lparr>lh_block := B\<rparr>" "\<forall>j < i. B j = load32 (mem s) (lh_at a j)" by blast
    then have "?I (Suc i) (s\<lparr>lh_block := B(i := load32 (mem s) (lh_at a i))\<rparr>)"
      by (intro exI [of _ "B(i := load32 (mem s) (lh_at a i))"]) (auto simp: less_Suc_eq)
    moreover have "?f i t = Ok (s\<lparr>lh_block := B(i := load32 (mem s) (lh_at a i))\<rparr>)" using i assms B(1) by simp
    ultimately show "\<exists>t'. ?f i t = Ok t' \<and> ?I (Suc i) t'" by blast
  qed
  then show ?thesis by blast
qed

context block_store
begin

lemma read_head_ok:
  assumes s: "ok s" "busyb s = {}" "log_dev s = d" "unat (log_start s) < 2 ^ 31" "pins s (log_start s) = 0" "card {j. 0 < pins s j} < NBUF"
    and h: "header_ok (view s (log_start s)) n bl" "n < LOGSIZE"
  shows "\<exists>t. read_head E s = Ok t \<and> ok t \<and> busyb t = {} \<and> pins t = pins s \<and> view t = view s \<and> platter t = platter s
    \<and> disk_log t = disk_log s \<and> log_start t = log_start s \<and> log_dev t = d \<and> lh_n t = of_nat n \<and> (\<forall>i < n. lh_block t i = bl i)"
proof -
  let ?k = "log_start s"
  obtain b t where t: "Bio.bread E d ?k s = Ok (b, t)" "ok t" "same_log s t" "own t b ?k" "view t = view s"
    "pins t = (pins s)(?k := 1)" "busyb t = {?k}" "platter t = platter s" "disk_log t = disk_log s"
    using bread [OF s(1), of ?k] s by auto
  note f = same_log_fields [OF t(3)]
  let ?a = "data_of b t"
  have hv: "view s ?k = block_at (mem t) ?a" using own_view [OF t(2,4)] t(5) by simp
  have ln: "load32 (mem t) ?a = of_nat n" using h(1) word_at_block [of 0 "mem t" ?a] by (simp add: header_ok_def hv)
  have lb: "load32 (mem t) (lh_at ?a i) = bl i" if "i < n" for i
    using h that word_at_block [of "4 + 4 * i" "mem t" ?a] by (simp add: header_ok_def hv lh_at_eq)
  let ?u = "t\<lparr>lh_n := of_nat n\<rparr>"
  have sn: "nat (sint (of_nat n :: cint)) = n" using h(2) by (simp add: signed_of_nat signed_take_bit_int_eq_self)
  obtain B where B: "for_each (\<lambda>i s. if i < LOGSIZE then Ok (s\<lparr>lh_block := (lh_block s)(i := load32 (mem s) (lh_at ?a i))\<rparr>)
      else Stop (Fault ''log.lh.block index'')) [0..<n] ?u = Ok (?u\<lparr>lh_block := B\<rparr>)" "\<forall>i < n. B i = load32 (mem ?u) (lh_at ?a i)"
    using read_blocks [of n ?a ?u] h(2) by auto
  let ?v = "?u\<lparr>lh_block := B\<rparr>"
  have v: "ok ?v" "own ?v = own t" "pins ?v = pins t" "busyb ?v = busyb t" "view ?v = view t"
    using t(2) by (simp_all add: header header_blocks)
  have "view ?v ?k = platter ?v (unat ?k)" "own ?v b ?k" using v(2,5) t(4,5,8) view_disk [OF s(1,5)] by simp_all
  then obtain z where z: "Bio.brelse b ?v = Ok z" "ok z" "same_log ?v z" "view z = view ?v" "pins z = (pins ?v)(?k := pins ?v ?k - 1)"
    "busyb z = busyb ?v - {?k}" "platter z = platter ?v" "disk_log z = disk_log ?v"
    using brelse [OF v(1)] by blast
  have "read_head E s = Ok z" using t(1) ln sn B(1) z(1) s(3) by (simp add: read_head_def Let_def)
  moreover have "pins z = pins s" using z(5) v(3) t(6) s(5) by (auto simp: fun_eq_iff)
  moreover have "busyb z = {}" using z(6) v(4) t(7) by simp
  ultimately show ?thesis using z v t B(2) lb f s(3) same_log_fields [OF z(3)] by auto
qed

lemma recover_ok:
  assumes s: "ok s" "busyb s = {}" "log_dev s = d" "unat (log_start s) + LOGSIZE < 2 ^ 31" "\<And>k. pins s k = 0"
    and h: "header_ok (platter s (unat (log_start s))) n bl" "n < LOGSIZE" "inj_on bl {..<n}"
      "\<And>i. i < n \<Longrightarrow> unat (bl i) < 2 ^ 31 \<and> \<not> in_log (log_start s) (unat (bl i))"
  shows "\<exists>t h0. recover_from_log E s = Ok t \<and> ok t \<and> header_ok h0 0 bl
    \<and> platter t = (puts (\<lambda>i. unat (bl i)) (\<lambda>i. platter s (unat (log_start s) + i + 1)) [0..<n] (platter s))(unat (log_start s) := h0)"
proof -
  have v: "view s k = platter s (unat k)" for k by (rule view_disk [OF s(1,5)])
  have c0: "{j. 0 < pins s j} = {}" using s(5) by simp
  obtain u where u: "read_head E s = Ok u" "ok u" "busyb u = {}" "pins u = pins s" "view u = view s" "platter u = platter s"
    "disk_log u = disk_log s" "log_start u = log_start s" "log_dev u = d" "lh_n u = of_nat n" "\<forall>i < n. lh_block u i = bl i"
    using read_head_ok [OF s(1-3) _ s(5), of n bl] s(4) h(1,2) c0 v by auto
  have lay: "log_layout d n u"
    using u(8-11) s(4) h(2-4) inj_on_cong [of "{..<n}" "lh_block u" bl] by (simp add: log_layout_def)
  note L = log_layoutD [OF lay]
  have p: "\<And>j. 0 \<le> j \<Longrightarrow> j < n \<Longrightarrow> (True \<or> 0 < pins u (lh_block u j)) \<and> pins u (lh_block u j) < 2 ^ 32 - 1"
    "\<And>k. in_log (log_start u) (unat k) \<Longrightarrow> pins u k = 0" "card {j. 0 < pins u j} < NBUF" "True \<Longrightarrow> card {j. 0 < pins u j} + 1 < NBUF"
    using c0 by (simp_all add: u(4) s(5))
  obtain w where w: "install_loop E True 0 u = Ok w" "ok w" "same_log u w" "busyb w = {}" "\<forall>k. pins w k \<le> pins u k"
    "platter w = puts (\<lambda>i. unat (lh_block u i)) (\<lambda>i. view u (log_blk u i)) [0..<n] (platter u)"
    using install_loop_ok [OF u(2,3) lay le0 p] by blast
  note fw = same_log_fields [OF w(3)]
  have "pins w k = 0" for k using w(5) u(4) s(5) by simp
  then have x: "ok (w\<lparr>lh_n := 0\<rparr>)" "busyb (w\<lparr>lh_n := 0\<rparr>) = {}" "pins (w\<lparr>lh_n := 0\<rparr>) (log_start w) = 0"
    "card {j. 0 < pins (w\<lparr>lh_n := 0\<rparr>) j} < NBUF" using w(2,4) by (simp_all add: header)
  obtain t h0 where t: "write_head E (w\<lparr>lh_n := 0\<rparr>) = Ok t" "ok t" "header_ok h0 0 (lh_block w)"
    "platter t = (platter w)(unat (log_start w) := h0)"
    using write_head_ok [OF x(1,2), of 0] x(3,4) fw u(8,9) s(4) by auto
  have "puts (\<lambda>i. unat (lh_block u i)) (\<lambda>i. view u (log_blk u i)) [0..<n] (platter u)
      = puts (\<lambda>i. unat (bl i)) (\<lambda>i. platter s (unat (log_start s) + i + 1)) [0..<n] (platter s)"
    unfolding apply_puts [symmetric] using u(5,6,8,11) v L(3) h(2) by (intro arg_cong2 [where f = apply_writes]) auto
  then have "platter t = (puts (\<lambda>i. unat (bl i)) (\<lambda>i. platter s (unat (log_start s) + i + 1)) [0..<n] (platter s))(unat (log_start s) := h0)"
    using t(4) w(6) fw u(8) by simp
  moreover have "recover_from_log E s = Ok t" using u(1) w(1) t(1) by (simp add: recover_from_log_def install_trans_def)
  moreover have "header_ok h0 0 bl" using t(3) by (simp add: header_ok_def)
  ultimately show ?thesis using t(2) by blast
qed

end

section \<open>Prefixes of a commit\<close>

definition replayed :: "uint \<Rightarrow> nat \<Rightarrow> (nat \<Rightarrow> uint) \<Rightarrow> (nat \<Rightarrow> nat \<Rightarrow> uchar) \<Rightarrow> nat \<Rightarrow> nat \<Rightarrow> uchar" where
  "replayed st n bl P = puts (\<lambda>i. unat (bl i)) (\<lambda>i. P (unat st + i + 1)) [0..<n] P"

lemma crash_prefix:
  fixes v :: "nat \<Rightarrow> nat \<Rightarrow> uchar" and m :: nat
  assumes n: "n < LOGSIZE" "inj_on bl {..<n}" and home: "\<And>i. i < n \<Longrightarrow> \<not> in_log st (unat (bl i))"
    and h: "header_ok h n bl" "header_ok h0 0 bl" "header_ok (P (unat st)) 0 bl"
  defines "D \<equiv> apply_writes (take m (commit_writes st bl v n h h0)) P"
  shows "\<exists>n'. (n' = 0 \<or> n' = n) \<and> header_ok (D (unat st)) n' bl
    \<and> (\<forall>k. \<not> in_log st k \<longrightarrow> replayed st n' bl D k = (if m \<le> n then P else puts (\<lambda>i. unat (bl i)) v [0..<n] P) k)"
proof -
  let ?A = "map (\<lambda>i. (unat st + i + 1, v i)) [0..<n]" and ?B = "map (\<lambda>i. (unat (bl i), v i)) [0..<n]"
  let ?Q = "(apply_writes ?A P)(unat st := h)" and ?b = "\<lambda>i. unat (bl i)"
  have st: "in_log st (unat st)" "\<And>i. i < n \<Longrightarrow> in_log st (unat st + i + 1)" using n(1) by (auto simp: in_log_def)
  have ib: "inj_on ?b (set [0..<n])" using n(2) by (simp add: inj_on_def lessThan_atLeast0 word_unat_eq_iff [symmetric])
  have A: "apply_writes (take j ?A) P k = P k" if "k = unat st \<or> \<not> in_log st k" for j k
    by (rule apply_writes_away) (use that st(2) set_take_subset [of j ?A] in force)
  have Q: "?Q (unat st + i + 1) = v i" if "i < n" for i
    using apply_writes_map [of "\<lambda>i. unat st + i + 1" "[0..<n]" i v P] that by (simp add: inj_on_def)
  have B: "apply_writes (take j ?B) X k = X k" if "in_log st k" for j k X
    by (rule apply_writes_away) (use that home set_take_subset [of j ?B] in force)
  have new: "puts ?b w [0..<n] X k = puts ?b v [0..<n] P k"
    if "\<not> in_log st k" "\<And>i. i < n \<Longrightarrow> w i = v i" "k \<notin> ?b ` set [0..<n] \<Longrightarrow> X k = P k" for w X k
  proof (cases "k \<in> ?b ` set [0..<n]")
    case True
    then obtain i where "k = ?b i" "i \<in> set [0..<n]" by blast
    then show ?thesis using that(2) by (simp add: puts_at [OF ib])
  qed (use that(3) in \<open>simp add: puts_away\<close>)
  have "m \<le> n \<or> (\<exists>j. m = n + 1 + j \<and> j \<le> n) \<or> 2 * n + 1 < m" by presburger
  then consider "m \<le> n" | j where "m = n + 1 + j" "j \<le> n" | "2 * n + 1 < m" by blast
  then show ?thesis
  proof cases
    case 1
    then have "D = apply_writes (take m ?A) P" by (simp add: D_def commit_writes_def)
    with 1 A h(3) show ?thesis by (intro exI [of _ 0]) (simp add: replayed_def puts_def)
  next
    case 2
    then have D: "D = apply_writes (take j ?B) ?Q" by (simp add: D_def commit_writes_def apply_writes_append)
    have d1: "D (unat st) = h" using B [OF st(1)] D by simp
    have d2: "D (unat st + i + 1) = v i" if "i < n" for i using B [OF st(2) [OF that]] Q [OF that] D by simp
    have d3: "D k = P k" if "\<not> in_log st k" "k \<notin> ?b ` set [0..<n]" for k
      using that A [of k n] apply_writes_away [of k "take j ?B" ?Q] set_take_subset [of j ?B] st(1) by (force simp: D)
    have "replayed st n bl D k = puts ?b v [0..<n] P k" if "\<not> in_log st k" for k
      unfolding replayed_def using that by (rule new) (use d2 d3 [OF that] in simp_all)
    with 2 h(1) d1 show ?thesis by (intro exI [of _ n]) simp
  next
    case 3
    then have D: "D = (apply_writes ?B ?Q)(unat st := h0)" by (simp add: D_def commit_writes_def apply_writes_append)
    have "?Q k = P k" if "\<not> in_log st k" for k using that A [of k n] st(1) by auto
    then have "D k = puts ?b v [0..<n] P k" if "\<not> in_log st k" for k
      using that new [OF that, of v ?Q] st(1) by (auto simp: D apply_puts)
    with 3 h(2) show ?thesis by (intro exI [of _ 0]) (simp add: replayed_def puts_def D)
  qed
qed

end
