(* ===== verification/Crash.thy ===== *)
theory Crash
  imports Recover
begin

text \<open>
  Crash safety of the log on the machine: the commit and the recovery that follows a crash run on
  the block cache and the disk driver, with a device that serves requests as specified.
\<close>

lemma log_fields_upd:
  "cache_inv d (s\<lparr>log_start := a, log_size := b, log_dev := e\<rparr>) = cache_inv d s" "refs d (s\<lparr>log_start := a, log_size := b, log_dev := e\<rparr>) = refs d s"
  "blocked d (s\<lparr>log_start := a, log_size := b, log_dev := e\<rparr>) = blocked d s"
  by (simp_all add: cache_inv_def refs_def blocked_def lookup_def fun_eq_iff disk_quiet_def ring_def in_buf_def
      cong: option.case_cong if_cong)

text \<open>The disk with all of a transaction of \<open>n\<close> blocks.\<close>

definition after_txn :: "uint \<Rightarrow> nat \<Rightarrow> 'a lstate_scheme \<Rightarrow> nat \<Rightarrow> nat \<Rightarrow> uchar" where
  "after_txn d n s k = (if \<exists>i < n. k = unat (lh_block s i) then content d s (of_nat k) else platter s k)"

lemma puts_after_txn:
  assumes "inj_on (lh_block s) {..<n}"
  shows "puts (\<lambda>i. unat (lh_block s i)) (\<lambda>i. content d s (lh_block s i)) [0..<n] (platter s) = after_txn d n s"
proof
  fix k
  have inj: "inj_on (\<lambda>i. unat (lh_block s i)) (set [0..<n])"
    using assms by (simp add: inj_on_def lessThan_atLeast0 word_unat_eq_iff [symmetric])
  show "puts (\<lambda>i. unat (lh_block s i)) (\<lambda>i. content d s (lh_block s i)) [0..<n] (platter s) k = after_txn d n s k"
  proof (cases "\<exists>i < n. k = unat (lh_block s i)")
    case True
    then obtain i where "k = unat (lh_block s i)" "i \<in> set [0..<n]" by auto
    then show ?thesis using puts_at [OF inj, of i "\<lambda>i. content d s (lh_block s i)" "platter s"] by (auto simp: after_txn_def)
  next
    case False
    then show ?thesis by (subst puts_away) (auto simp: after_txn_def)
  qed
qed

text \<open>A machine after a reboot: the cache is empty, and all the disk has is what was written to it.\<close>

definition rebooted :: "uint \<Rightarrow> (nat \<Rightarrow> nat \<Rightarrow> uchar) \<Rightarrow> 'a lstate_scheme \<Rightarrow> bool" where
  "rebooted d P c \<longleftrightarrow> cache_inv d c \<and> blocked d c = {} \<and> (\<forall>k. refs d c k = 0) \<and> platter c = P"

lemma initlog_rebooted:
  fixes c :: "'a lstate_scheme"
  assumes st: "block_store E d (cache_inv d) (content d) (refs d) (blocked d) (holds d)"
    and c: "rebooted d P c" and sb: "unat (sb_logstart sb) + LOGSIZE < 2 ^ 31"
    and h: "header_ok (P (unat (sb_logstart sb))) n bl" "n < LOGSIZE" "inj_on bl {..<n}"
      "\<And>i. i < n \<Longrightarrow> unat (bl i) < 2 ^ 31 \<and> \<not> in_log (sb_logstart sb) (unat (bl i))"
  shows "\<exists>r. initlog E d sb c = Ok r \<and> (\<forall>k. \<not> in_log (sb_logstart sb) k \<longrightarrow> platter r k = replayed (sb_logstart sb) n bl P k)"
proof -
  let ?c = "c\<lparr>log_start := sb_logstart sb, log_size := sb_nlog sb, log_dev := d\<rparr>"
  have "held c = {}" using c cache_inv_dest(1) [of d c] by (auto simp: rebooted_def disk_quiet_def)
  then have "lk_init LogLock c = c" by (simp add: lk_init_def)
  then have i: "initlog E d sb c = recover_from_log E ?c" by (simp add: initlog_def)
  have r: "cache_inv d ?c" "blocked d ?c = {}" "\<And>k. refs d ?c k = 0"
    using c unfolding rebooted_def log_fields_upd by blast+
  have f: "log_dev ?c = d" "log_start ?c = sb_logstart sb" "platter ?c = P" using c by (simp_all add: rebooted_def)
  obtain t h0 where t: "recover_from_log E ?c = Ok t"
    "platter t = (puts (\<lambda>i. unat (bl i)) (\<lambda>i. P (unat (sb_logstart sb) + i + 1)) [0..<n] P)(unat (sb_logstart sb) := h0)"
    using block_store.recover_ok [OF st r(1,2) f(1) _ r(3), of n bl] sb h unfolding f by blast
  have "in_log (sb_logstart sb) (unat (sb_logstart sb))" by (simp add: in_log_def)
  with i t show ?thesis by (auto simp: replayed_def)
qed

text \<open>
  C1: a transaction is atomic with respect to crashes. \<^verbatim>\<open>commit\<close> of the logged blocks succeeds and
  issues a sequence \<open>W\<close> of block writes. If the machine stops after any number \<open>m\<close> of them and starts
  again with an empty cache, \<^verbatim>\<open>initlog\<close> recovers: with at most \<open>n\<close> writes done, outside of the log every
  block of the disk is as before the transaction; with more, every logged block has its new content
  and the others are as before. No other state is possible.
\<close>

theorem commit_crash_safe:
  fixes s :: "'a lstate_scheme" and dev :: "'a lstate_scheme \<Rightarrow> 'a lstate_scheme"
  assumes "disk_device dev" and s: "cache_inv d s" "blocked d s = {}" "log_layout d n s" "0 < n"
    and p: "\<And>j. j < n \<Longrightarrow> 0 < refs d s (lh_block s j) \<and> refs d s (lh_block s j) < 2 ^ 32 - 1"
      "\<And>k. in_log (log_start s) (unat k) \<Longrightarrow> refs d s k = 0" "card {j. 0 < refs d s j} < NBUF"
    and h: "header_ok (platter s (unat (log_start s))) 0 (lh_block s)"
  shows "\<exists>t W. commit (Suc N, disk_others R dev) s = Ok t \<and> disk_log t = disk_log s @ W
    \<and> (\<forall>k v i. (k, v) \<in> set W \<longrightarrow> BSIZE \<le> i \<longrightarrow> v i = 0)
    \<and> (\<forall>m (c :: 'a lstate_scheme) sb. rebooted d (apply_writes (take m W) (platter s)) c \<longrightarrow> sb_logstart sb = log_start s \<longrightarrow>
        (\<exists>r. initlog (Suc N, disk_others R dev) d sb c = Ok r
          \<and> (\<forall>k. \<not> in_log (log_start s) k \<longrightarrow> platter r k = (if m \<le> n then platter s else after_txn d n s) k)))"
proof -
  note st = block_store_cache [OF disk_driver_device [OF assms(1)], of N R d]
  have L: "n < LOGSIZE" "inj_on (lh_block s) {..<n}" "unat (log_start s) + LOGSIZE < 2 ^ 31"
    "\<And>i. i < n \<Longrightarrow> unat (lh_block s i) < 2 ^ 31 \<and> \<not> in_log (log_start s) (unat (lh_block s i))"
    using s(3) by (auto simp: log_layout_def)
  then have home: "\<And>i. i < n \<Longrightarrow> \<not> in_log (log_start s) (unat (lh_block s i))" by blast
  let ?W = "commit_writes (log_start s) (lh_block s) (\<lambda>i. content d s (lh_block s i)) n"
  obtain t h1 h0 where t: "commit (Suc N, disk_others R dev) s = Ok t" "header_ok h1 n (lh_block s)" "header_ok h0 0 (lh_block s)"
    "disk_log t = disk_log s @ ?W h1 h0"
    using block_store.commit_ok [OF st s p] by blast
  have "v i = 0" if "(k, v) \<in> set (?W h1 h0)" "BSIZE \<le> i" for k v i
    using that t(2,3) content_disk(2) [OF s(1)] by (auto simp: commit_writes_def header_ok_def)
  moreover have "\<exists>r. initlog (Suc N, disk_others R dev) d sb c = Ok r
      \<and> (\<forall>k. \<not> in_log (log_start s) k \<longrightarrow> platter r k = (if m \<le> n then platter s else after_txn d n s) k)"
    if c: "rebooted d (apply_writes (take m (?W h1 h0)) (platter s)) c" and sb: "sb_logstart sb = log_start s" for m and c :: "'a lstate_scheme" and sb
  proof -
    obtain n' where n': "n' = 0 \<or> n' = n" "header_ok (apply_writes (take m (?W h1 h0)) (platter s) (unat (log_start s))) n' (lh_block s)"
      "\<And>k. \<not> in_log (log_start s) k \<Longrightarrow> replayed (log_start s) n' (lh_block s) (apply_writes (take m (?W h1 h0)) (platter s)) k
        = (if m \<le> n then platter s else after_txn d n s) k"
      using crash_prefix [where st = "log_start s" and P = "platter s" and v = "\<lambda>i. content d s (lh_block s i)" and m = m,
          OF L(1,2) home t(2,3) h] unfolding puts_after_txn [OF L(2)] by blast
    have "n' < LOGSIZE" "inj_on (lh_block s) {..<n'}" "\<And>i. i < n' \<Longrightarrow> unat (lh_block s i) < 2 ^ 31 \<and> \<not> in_log (log_start s) (unat (lh_block s i))"
      using n'(1) L by auto
    with initlog_rebooted [OF st c, of sb n' "lh_block s"] n'(2,3) L(3) show ?thesis unfolding sb by metis
  qed
  ultimately show ?thesis using t(1,4) by blast
qed

text \<open>A transaction of one block, number 100, on an empty disk; its buffer is full of sevens.\<close>

definition dirty :: tstate where
  "dirty = cached\<lparr>bufs := (bufs cached)(0 := (bufs cached 0)\<lparr>b_dev := 1, b_blockno := 100, b_valid := True, b_refcnt := 1\<rparr>),
     mem := (\<lambda>x. if in_buf cached 0 x then 7 else mem cached x)\<rparr>"

definition logged :: tstate where
  "logged = dirty\<lparr>log_start := 2, log_size := 30, log_dev := 1, lh_n := 1, lh_block := (\<lambda>_. 100)\<rparr>"

lemma dirty_step: "cache_step 1 0 100 cached dirty"
proof -
  note c = cached_inv(1)
  obtain l where "ring l cached" using cache_inv_dest(3) [OF c] ..
  then have "ring l dirty" by (subst ring_cong [of dirty cached]) (simp_all add: dirty_def)
  then have r: "\<exists>l. ring l dirty" ..
  have q: "disk_quiet dirty" using cache_inv_dest(1) [OF c] by (simp add: dirty_def disk_quiet_def)
  have n: "lookup 1 100 cached = None" using cached_inv(5) by (simp add: lookup_None)
  show ?thesis
    unfolding cache_step_def using c r cached_inv(5) [of 0] q n by (simp add: dirty_def same_buf_def cached_inv(4))
qed

lemma logged_view:
  "cache_inv 1 logged" "refs 1 logged = (\<lambda>_. 0)(100 := 1)" "blocked 1 logged = {}" "content 1 logged 100 i = (if i < BSIZE then 7 else 0)"
  "platter logged = (\<lambda>_ _. 0)"
proof -
  note v = cache_step_view [OF dirty_step] and i = cache_step_inv [OF dirty_step]
  have f: "cache_inv 1 logged = cache_inv 1 dirty" "refs 1 logged = refs 1 dirty" "blocked 1 logged = blocked 1 dirty" "content 1 logged = content 1 dirty"
    by (simp_all add: logged_def cache_inv_def refs_def blocked_def content_def lookup_def fun_eq_iff disk_quiet_def ring_def in_buf_def
        cong: option.case_cong if_cong)
  show "cache_inv 1 logged" using i f by simp
  show "refs 1 logged = (\<lambda>_. 0)(100 := 1)" using v(1) f cached_inv(2) by (auto simp: dirty_def fun_eq_iff)
  show "blocked 1 logged = {}" using v(3) f cached_inv(3) cached_inv(5) [of 0] by (simp add: dirty_def)
  show "content 1 logged 100 i = (if i < BSIZE then 7 else 0)"
    using v(2) f by (simp add: dirty_def block_at_def in_buf_def unat_of_nat)
  show "platter logged = (\<lambda>_ _. 0)" by (simp add: logged_def dirty_def cached_inv(4))
qed

lemma apply_writes_end:
  "(\<And>k v. (k, v) \<in> set ws \<Longrightarrow> v i = 0) \<Longrightarrow> (\<And>k. P k i = 0) \<Longrightarrow> apply_writes ws P k i = 0"
proof (induction ws arbitrary: P)
  case (Cons w ws)
  obtain a b where w: "w = (a, b)" by (cases w)
  have "apply_writes ws (P(a := b)) k i = 0"
    by (rule Cons.IH) (use Cons.prems(1) Cons.prems(2) in \<open>auto simp: w\<close>)
  then show ?case by (simp add: w)
qed simp

theorem commit_crash_safe_witness:
  "\<exists>t W. commit (Suc 0, disk_others (\<lambda>_. 0) ring_device) logged = Ok t \<and>
     (\<forall>m. \<exists>r. initlog (Suc 0, disk_others (\<lambda>_. 0) ring_device) 1 (fs_sb idle)
        (binit (busy\<lparr>platter := apply_writes (take m W) (\<lambda>_ _. 0)\<rparr>)) = Ok r \<and> platter r 100 500 = (if m \<le> 1 then 0 else 7))"
proof -
  have lay: "log_layout 1 1 logged" by (simp add: log_layout_def logged_def in_log_def inj_on_def)
  have l: "log_start logged = 2" "lh_block logged = (\<lambda>_. 100)" by (simp_all add: logged_def)
  have "load_le (\<lambda>_. 0) a n = (0 :: uint)" for a n by (induction n arbitrary: a) simp_all
  then have h: "header_ok (platter logged (unat (log_start logged))) 0 (lh_block logged)"
    by (simp add: header_ok_def word_at_def load32_def logged_view(5))
  have p: "\<And>j. j < 1 \<Longrightarrow> 0 < refs 1 logged (lh_block logged j) \<and> refs 1 logged (lh_block logged j) < 2 ^ 32 - 1"
    "\<And>k. in_log (log_start logged) (unat k) \<Longrightarrow> refs 1 logged k = 0"
    by (auto simp: logged_view(2) l in_log_def)
  have "{j :: uint. j = 100} = {100}" by auto
  then have card: "card {j. 0 < refs 1 logged j} < NBUF" by (simp add: logged_view(2))
  obtain t W where t: "commit (Suc 0, disk_others (\<lambda>_. 0) ring_device) logged = Ok t"
    "\<forall>k v i. (k, v) \<in> set W \<longrightarrow> BSIZE \<le> i \<longrightarrow> v i = 0"
    "\<forall>m (c :: tstate) sb. rebooted 1 (apply_writes (take m W) (platter logged)) c \<longrightarrow> sb_logstart sb = log_start logged \<longrightarrow>
        (\<exists>r. initlog (Suc 0, disk_others (\<lambda>_. 0) ring_device) 1 sb c = Ok r
          \<and> (\<forall>k. \<not> in_log (log_start logged) k \<longrightarrow> platter r k = (if m \<le> 1 then platter logged else after_txn 1 1 logged) k))"
    using commit_crash_safe [OF disk_device_ring logged_view(1,3) lay zero_less_one p card h, of 0 "\<lambda>_. 0"] by blast
  have "\<exists>r. initlog (Suc 0, disk_others (\<lambda>_. 0) ring_device) 1 (fs_sb idle)
        (binit (busy\<lparr>platter := apply_writes (take m W) (\<lambda>_ _. 0)\<rparr>)) = Ok r \<and> platter r 100 500 = (if m \<le> 1 then 0 else 7)" for m
  proof -
    let ?P = "apply_writes (take m W) (\<lambda>_ _. 0)"
    have z: "?P k i = 0" if "BSIZE \<le> i" for k i
      by (rule apply_writes_end) (use t(2) that in_set_takeD in fast)+
    have "rebooted 1 ?P (binit (busy\<lparr>platter := ?P\<rparr>))"
      unfolding rebooted_def using fresh_cache [of ?P, OF z] by blast
    moreover have "sb_logstart (fs_sb idle) = log_start logged" by (simp add: idle_def l)
    ultimately obtain r where "initlog (Suc 0, disk_others (\<lambda>_. 0) ring_device) 1 (fs_sb idle) (binit (busy\<lparr>platter := ?P\<rparr>)) = Ok r"
      "\<forall>k. \<not> in_log 2 k \<longrightarrow> platter r k = (if m \<le> 1 then platter logged else after_txn 1 1 logged) k"
      using t(3) unfolding logged_view(5) l by blast
    moreover have "after_txn 1 1 logged 100 500 = 7" by (simp add: after_txn_def l logged_view(4))
    ultimately show ?thesis by (auto simp: in_log_def logged_view(5))
  qed
  with t(1) show ?thesis by blast
qed

end
