(* ===== verification/Grep.thy ===== *)
theory Grep
  imports Prelude
begin

text \<open>
  The program \<^verbatim>\<open>user/grep.c\<close>. Strings are lists of characters without the terminating zero; a pointer into
  a string is the rest of the string from there. The bytes \<^verbatim>\<open>read\<close> returns come from an input, in
  portions whose sizes are a parameter.
\<close>

section \<open>The matcher\<close>

function (sequential) matchhere :: "string \<Rightarrow> string \<Rightarrow> bool"
  and matchstar :: "char \<Rightarrow> string \<Rightarrow> string \<Rightarrow> bool" where
  "matchhere re text =
     (if re = [] then True
      else if tl re \<noteq> [] \<and> hd (tl re) = CHR ''*'' then matchstar (hd re) (tl (tl re)) text
      else if hd re = CHR ''$'' \<and> tl re = [] then text = []
      else if text \<noteq> [] \<and> (hd re = CHR ''.'' \<or> hd re = hd text) then matchhere (tl re) (tl text)
      else False)"
| "matchstar c re text =
     (if matchhere re text then True
      else if text \<noteq> [] \<and> (hd text = c \<or> c = CHR ''.'') then matchstar c re (tl text)
      else False)"
  by pat_completeness auto
termination
  by (relation "measures [case_sum (length \<circ> fst) (\<lambda>(c, re, text). length re),
        case_sum (length \<circ> snd) (\<lambda>(c, re, text). length text), case_sum (\<lambda>_. 0) (\<lambda>_. 1)]")
    (auto simp: neq_Nil_conv)

declare matchhere.simps [simp del] matchstar.simps [simp del]

fun match_from :: "string \<Rightarrow> string \<Rightarrow> bool" where
  "match_from re text = (if matchhere re text then True else case text of [] \<Rightarrow> False | _ # t \<Rightarrow> match_from re t)"

definition match :: "string \<Rightarrow> string \<Rightarrow> bool" where
  "match re text =
     (if re \<noteq> [] \<and> hd re = CHR ''^'' then matchhere (tl re) text else match_from re text)"

section \<open>Reading and printing\<close>

text \<open>\<^verbatim>\<open>strchr(p, '\n')\<close>: what precedes the newline and what follows it; a zero byte ends the string.\<close>

fun split_newline :: "string \<Rightarrow> (string \<times> string) option" where
  "split_newline [] = None"
| "split_newline (c # s) =
     (if c = CHR 0x00 then None
      else if c = CHR 0x0a then Some ([], s)
      else map_option (\<lambda>(l, r). (c # l, r)) (split_newline s))"

lemma split_newline_length: "split_newline s = Some (l, r) \<Longrightarrow> length r < length s"
  by (induction s arbitrary: l) (auto split: if_splits)

text \<open>The inner loop: the lines printed and the rest of the buffer from \<^verbatim>\<open>p\<close>.\<close>

function grep_lines :: "string \<Rightarrow> string \<Rightarrow> string \<times> string" where
  "grep_lines pattern p =
     (case split_newline p of
        None \<Rightarrow> ([], p)
      | Some (l, r) \<Rightarrow>
          let (out, rest) = grep_lines pattern r
          in ((if match pattern l then l @ [CHR 0x0a] else []) @ out, rest))"
  by pat_completeness auto
termination
  by (relation "measure (length \<circ> snd)") (auto dest: split_newline_length)

declare grep_lines.simps [simp del]

text \<open>
  The outer loop. \<^verbatim>\<open>buf\<close> has 1024 bytes, of which one is kept for the terminating zero; \<open>rd n inp\<close> says how
  many bytes a \<^verbatim>\<open>read\<close> of at most \<open>n\<close> bytes returns when \<open>inp\<close> is left.
\<close>

definition grep_bufsize :: nat where "grep_bufsize = 1024"

definition read_count :: "(nat \<Rightarrow> string \<Rightarrow> nat) \<Rightarrow> nat \<Rightarrow> string \<Rightarrow> nat" where
  "read_count rd n inp = min (min n (length inp)) (rd n inp)"

function grep_loop :: "(nat \<Rightarrow> string \<Rightarrow> nat) \<Rightarrow> string \<Rightarrow> string \<Rightarrow> string \<Rightarrow> string" where
  "grep_loop rd pattern buf inp =
     (let n = read_count rd (grep_bufsize - length buf - 1) inp
      in if n > 0
         then let (out, rest) = grep_lines pattern (buf @ take n inp)
              in out @ grep_loop rd pattern rest (drop n inp)
         else [])"
  by pat_completeness auto
termination
  by (relation "measure (\<lambda>(rd, pattern, buf, inp). length inp)") (auto simp: read_count_def)

declare grep_loop.simps [simp del]

definition grep :: "(nat \<Rightarrow> string \<Rightarrow> nat) \<Rightarrow> string \<Rightarrow> string \<Rightarrow> string" where
  "grep rd pattern inp = grep_loop rd pattern [] inp"

section \<open>What a pattern means\<close>

text \<open>A pattern is a list of characters, each possibly starred, and whether it is tied to the end.\<close>

definition pcons :: "char \<times> bool \<Rightarrow> (char \<times> bool) list \<times> bool \<Rightarrow> (char \<times> bool) list \<times> bool" where
  [simp]: "pcons a p = (a # fst p, snd p)"

fun pattern :: "string \<Rightarrow> (char \<times> bool) list \<times> bool" where
  "pattern [] = ([], False)"
| "pattern [c] = (if c = CHR ''$'' then ([], True) else ([(c, False)], False))"
| "pattern (c # e # re) =
     (if e = CHR ''*'' then pcons (c, True) (pattern re) else pcons (c, False) (pattern (e # re)))"

definition fits :: "char \<Rightarrow> char \<Rightarrow> bool" where
  "fits c t \<longleftrightarrow> c = CHR ''.'' \<or> c = t"

text \<open>The words of a pattern: a starred character stands for any number of fitting characters.\<close>

fun words :: "(char \<times> bool) list \<Rightarrow> string set" where
  "words [] = {[]}"
| "words ((c, star) # ps) =
     (if star then {u @ w |u w. (\<forall>t \<in> set u. fits c t) \<and> w \<in> words ps}
      else {t # w |t w. fits c t \<and> w \<in> words ps})"

definition matches_prefix :: "(char \<times> bool) list \<times> bool \<Rightarrow> string \<Rightarrow> bool" where
  "matches_prefix p text \<longleftrightarrow> (\<exists>u w. text = u @ w \<and> u \<in> words (fst p) \<and> (snd p \<longrightarrow> w = []))"

lemma matches_prefix_one:
  "matches_prefix ((c, False) # ps, e) x \<longleftrightarrow> (\<exists>t r. x = t # r \<and> fits c t \<and> matches_prefix (ps, e) r)"
proof
  assume "matches_prefix ((c, False) # ps, e) x"
  then obtain u w where x: "x = u @ w" "u \<in> words ((c, False) # ps)" "e \<longrightarrow> w = []"
    unfolding matches_prefix_def fst_conv snd_conv by blast
  then obtain t v where "u = t # v" "fits c t" "v \<in> words ps" by auto
  with x have "x = t # (v @ w)" "fits c t" "v \<in> words ps" "e \<longrightarrow> w = []" by simp_all
  then show "\<exists>t r. x = t # r \<and> fits c t \<and> matches_prefix (ps, e) r" unfolding matches_prefix_def fst_conv snd_conv by blast
next
  assume "\<exists>t r. x = t # r \<and> fits c t \<and> matches_prefix (ps, e) r"
  then obtain t v w where "x = (t # v) @ w" "fits c t" "v \<in> words ps" "e \<longrightarrow> w = []" by (auto simp: matches_prefix_def)
  then show "matches_prefix ((c, False) # ps, e) x"
    unfolding matches_prefix_def by (intro exI [of _ "t # v"] exI [of _ w]) simp
qed

lemma matches_prefix_simps:
  "matches_prefix ([], False) x" "matches_prefix ([], True) x \<longleftrightarrow> x = []"
  "matches_prefix ((c, False) # ps, e) x \<longleftrightarrow> (\<exists>t r. x = t # r \<and> fits c t \<and> matches_prefix (ps, e) r)"
  by (simp_all add: matches_prefix_one) (simp_all add: matches_prefix_def)

lemma matches_prefix_starred:
  "matches_prefix ((c, True) # ps, e) x \<longleftrightarrow> (\<exists>u r. x = u @ r \<and> (\<forall>t \<in> set u. fits c t) \<and> matches_prefix (ps, e) r)"
proof
  assume "matches_prefix ((c, True) # ps, e) x"
  then obtain u v w where "x = (u @ v) @ w" "\<forall>t \<in> set u. fits c t" "v \<in> words ps" "e \<longrightarrow> w = []"
    by (auto simp: matches_prefix_def simp del: append_assoc)
  then show "\<exists>u r. x = u @ r \<and> (\<forall>t \<in> set u. fits c t) \<and> matches_prefix (ps, e) r"
    by (intro exI [of _ u] exI [of _ "v @ w"]) (auto simp: matches_prefix_def)
next
  assume "\<exists>u r. x = u @ r \<and> (\<forall>t \<in> set u. fits c t) \<and> matches_prefix (ps, e) r"
  then obtain u v w where "x = (u @ v) @ w" "\<forall>t \<in> set u. fits c t" "v \<in> words ps" "e \<longrightarrow> w = []"
    by (auto simp: matches_prefix_def)
  moreover from this have "u @ v \<in> words ((c, True) # ps)" by auto
  ultimately show "matches_prefix ((c, True) # ps, e) x" unfolding matches_prefix_def fst_conv snd_conv by blast
qed

lemma matches_prefix_star:
  "matches_prefix ((c, True) # ps, e) x \<longleftrightarrow>
     matches_prefix (ps, e) x \<or> (\<exists>t r. x = t # r \<and> fits c t \<and> matches_prefix ((c, True) # ps, e) r)" (is "?l \<longleftrightarrow> ?r")
proof
  assume ?l
  then obtain u r where u: "x = u @ r" "\<forall>t \<in> set u. fits c t" "matches_prefix (ps, e) r"
    unfolding matches_prefix_starred by blast
  then show ?r by (cases u) (auto simp: matches_prefix_starred)
next
  assume ?r
  then show ?l
  proof
    assume "matches_prefix (ps, e) x"
    then show ?l unfolding matches_prefix_starred by (intro exI [of _ "[]"] exI [of _ x]) simp
  next
    assume "\<exists>t r. x = t # r \<and> fits c t \<and> matches_prefix ((c, True) # ps, e) r"
    then obtain t u r where "x = t # u @ r" "fits c t" "\<forall>t \<in> set u. fits c t" "matches_prefix (ps, e) r"
      unfolding matches_prefix_starred by blast
    then show ?l unfolding matches_prefix_starred by (intro exI [of _ "t # u"] exI [of _ r]) simp
  qed
qed

lemma matchhere_prefix: "matchhere re x \<longleftrightarrow> matches_prefix (pattern re) x"
  and matchstar_prefix: "matchstar c re x \<longleftrightarrow> matches_prefix (pcons (c, True) (pattern re)) x"
proof (induction re x and c re x rule: matchhere_matchstar.induct)
  case (1 re x)
  show ?case
  proof (cases re rule: pattern.cases)
    case 1
    then show ?thesis by (simp add: matchhere.simps matches_prefix_simps)
  next
    case (2 c)
    then show ?thesis using "1.IH"
      by (subst matchhere.simps) (cases x; auto simp: matches_prefix_simps fits_def matchhere.simps [of "[]"])
  next
    case (3 c e r)
    obtain ps f where "pattern (e # r) = (ps, f)" by (cases "pattern (e # r)")
    with 3 show ?thesis using "1.IH"
      by (subst matchhere.simps) (cases x; auto simp: matches_prefix_simps fits_def)
  qed
next
  case (2 c re x)
  obtain ps e where p: "pattern re = (ps, e)" by (cases "pattern re")
  have "matchstar c re x \<longleftrightarrow> matchhere re x \<or> (\<exists>t r. x = t # r \<and> fits c t \<and> matchstar c re r)"
    by (subst matchstar.simps) (cases x; auto simp: fits_def)
  with 2 matches_prefix_star [of c ps e x] show ?case by (cases "matchhere re x"; cases x) (auto simp: p fits_def)
qed

lemma match_from_iff: "match_from re x \<longleftrightarrow> (\<exists>p r. x = p @ r \<and> matchhere re r)"
proof (induction x)
  case (Cons t x)
  have "(\<exists>p r. t # x = p @ r \<and> matchhere re r) \<longleftrightarrow> matchhere re (t # x) \<or> (\<exists>p r. x = p @ r \<and> matchhere re r)"
    by (metis append_Cons append_Nil list.sel(3) tl_append2)
  with Cons show ?case by simp
qed simp

declare match_from.simps [simp del]

section \<open>Lines\<close>

text \<open>The complete lines of a text, each without its newline.\<close>

fun lines_from :: "string \<Rightarrow> string \<Rightarrow> string list" where
  "lines_from acc [] = []"
| "lines_from acc (c # s) = (if c = CHR 0x0a then acc # lines_from [] s else lines_from (acc @ [c]) s)"

abbreviation lines :: "string \<Rightarrow> string list" where
  "lines \<equiv> lines_from []"

definition printed :: "string \<Rightarrow> string list \<Rightarrow> string" where
  "printed pat ls = concat (map (\<lambda>l. l @ [CHR 0x0a]) (filter (match pat) ls))"

lemma lines_from_line: "CHR 0x0a \<notin> set l \<Longrightarrow> lines_from acc (l @ CHR 0x0a # r) = (acc @ l) # lines r"
  by (induction l arbitrary: acc) auto

lemma lines_from_none: "CHR 0x0a \<notin> set l \<Longrightarrow> lines_from acc l = []"
  by (induction l arbitrary: acc) auto

lemma split_newline_Some: "split_newline s = Some (l, r) \<Longrightarrow> s = l @ CHR 0x0a # r \<and> CHR 0x0a \<notin> set l"
  by (induction s arbitrary: l) (auto split: if_splits)

lemma split_newline_None: "split_newline s = None \<Longrightarrow> CHR 0x00 \<notin> set s \<Longrightarrow> CHR 0x0a \<notin> set s"
  by (induction s) (auto split: if_splits)

lemma grep_lines_ok:
  assumes "CHR 0x00 \<notin> set p" "grep_lines pat p = (out, rest)"
  shows "CHR 0x0a \<notin> set rest \<and> set rest \<subseteq> set p \<and> (\<exists>ls. out = printed pat ls \<and> (\<forall>z. lines (p @ z) = ls @ lines (rest @ z)))"
  using assms
proof (induction pat p arbitrary: out rule: grep_lines.induct)
  case (1 pat p)
  show ?case
  proof (cases "split_newline p")
    case None
    then have "out = [] \<and> rest = p" using "1.prems"(2) by (simp add: grep_lines.simps [of pat p])
    with split_newline_None [OF None "1.prems"(1)] show ?thesis by (auto simp: printed_def intro: exI [of _ "[]"])
  next
    case (Some lr)
    obtain l r where lr: "lr = (l, r)" by (cases lr)
    note s = split_newline_Some [OF Some [unfolded lr]]
    obtain o' where o': "grep_lines pat r = (o', rest)" "out = (if match pat l then l @ [CHR 0x0a] else []) @ o'"
      using "1.prems"(2) Some lr by (subst (asm) grep_lines.simps) (auto split: prod.splits)
    from "1.IH" [OF Some [unfolded lr] refl _ o'(1)] "1.prems"(1) s obtain ls where
      "CHR 0x0a \<notin> set rest" "set rest \<subseteq> set r" "o' = printed pat ls" "\<And>z. lines (r @ z) = ls @ lines (rest @ z)" by auto
    moreover have "lines (p @ z) = l # lines (r @ z)" for z using s lines_from_line [of l "[]" "r @ z"] by simp
    ultimately show ?thesis using s o'(2) by (auto simp: printed_def intro!: exI [of _ "l # ls"])
  qed
qed

lemma short_lines_buf:
  assumes "CHR 0x0a \<notin> set buf" "\<forall>l \<in> set (lines (buf @ z)). length l < k" "k \<le> length buf"
  shows "lines (buf @ z) = []"
proof -
  have "lines_from acc (buf @ z) = lines_from (acc @ buf) z" for acc
    using assms(1) by (induction buf arbitrary: acc) auto
  then have e: "lines (buf @ z) = lines_from buf z" by simp
  have "\<exists>l \<in> set (lines_from acc z). k \<le> length l" if "lines_from acc z \<noteq> []" "k \<le> length acc" for acc
    using that by (induction z arbitrary: acc) (auto split: if_splits)
  with assms(2,3) e show ?thesis by (metis leD)
qed

lemma grep_loop_ok:
  assumes "CHR 0x00 \<notin> set (buf @ inp)" "CHR 0x0a \<notin> set buf" "\<forall>l \<in> set (lines (buf @ inp)). length l < grep_bufsize - 1"
    and "\<And>n i. 0 < n \<Longrightarrow> i \<noteq> [] \<Longrightarrow> 0 < rd n i"
  shows "grep_loop rd pat buf inp = printed pat (lines (buf @ inp))"
  using assms
proof (induction rd pat buf inp rule: grep_loop.induct)
  case (1 rd pat buf inp)
  let ?n = "read_count rd (grep_bufsize - length buf - 1) inp"
  show ?case
  proof (cases "?n > 0")
    case True
    obtain out rest where g: "grep_lines pat (buf @ take ?n inp) = (out, rest)" by (cases "grep_lines pat (buf @ take ?n inp)")
    have nz: "CHR 0x00 \<notin> set (buf @ take ?n inp)" using "1.prems"(1) by (auto dest: in_set_takeD)
    obtain ls where r: "CHR 0x0a \<notin> set rest" "set rest \<subseteq> set (buf @ take ?n inp)" "out = printed pat ls"
      "lines (buf @ inp) = ls @ lines (rest @ drop ?n inp)"
      using grep_lines_ok [OF nz g] spec [of _ "drop ?n inp"] by (metis append_assoc append_take_drop_id)
    have "grep_loop rd pat rest (drop ?n inp) = printed pat (lines (rest @ drop ?n inp))"
      by (rule "1.IH" [OF refl True refl g [symmetric]])
        (use r nz "1.prems" in \<open>auto dest: in_set_dropD in_set_takeD\<close>)
    with True g r(3,4) show ?thesis by (subst grep_loop.simps) (simp add: printed_def Let_def)
  next
    case False
    have "inp = [] \<or> grep_bufsize - 1 \<le> length buf"
    proof (rule disjCI)
      assume "\<not> grep_bufsize - 1 \<le> length buf"
      then have "0 < grep_bufsize - length buf - 1" by simp
      then show "inp = []" using "1.prems"(4) [OF \<open>0 < grep_bufsize - length buf - 1\<close>] False
        by (cases "inp = []") (auto simp: read_count_def)
    qed
    then have "lines (buf @ inp) = []"
      using short_lines_buf [OF "1.prems"(2,3)] lines_from_none [OF "1.prems"(2)] by auto
    with False show ?thesis by (subst grep_loop.simps) (simp add: printed_def Let_def)
  qed
qed

text \<open>
  C21: \<^verbatim>\<open>grep\<close> prints exactly the lines that contain a match of the pattern, in order, however the input
  arrives in portions, provided that no line is longer than the buffer. A line contains a match
  if some part of it, at its beginning if the pattern starts with \<^verbatim>\<open>^\<close> and reaching its end if
  the pattern ends in \<^verbatim>\<open>$\<close>, is a word of the pattern, where \<^verbatim>\<open>.\<close> stands for any character and \<^verbatim>\<open>*\<close> for
  repetition.
\<close>

theorem grep_prints_matching:
  assumes "CHR 0x00 \<notin> set inp" "\<forall>l \<in> set (lines inp). length l < 1023" "\<And>n i. 0 < n \<Longrightarrow> i \<noteq> [] \<Longrightarrow> 0 < rd n i"
  shows "grep rd pat inp = concat (map (\<lambda>l. l @ [CHR 0x0a]) (filter (match pat) (lines inp)))
    \<and> (match pat l \<longleftrightarrow>
        (if pat \<noteq> [] \<and> hd pat = CHR ''^'' then matches_prefix (pattern (tl pat)) l
         else \<exists>p r. l = p @ r \<and> matches_prefix (pattern pat) r))"
  using grep_loop_ok [of "[]" inp rd pat] assms
  by (simp add: grep_def printed_def grep_bufsize_def match_def match_from_iff matchhere_prefix)

theorem grep_prints_matching_witness:
  "grep (\<lambda>_ _. 2) ''^a*b$'' (''aab'' @ [CHR 0x0a] @ ''abc'' @ [CHR 0x0a] @ ''b'' @ [CHR 0x0a] @ ''ab'') = ''aab'' @ [CHR 0x0a] @ ''b'' @ [CHR 0x0a]"
  using grep_prints_matching [of "''aab'' @ [CHR 0x0a] @ ''abc'' @ [CHR 0x0a] @ ''b'' @ [CHR 0x0a] @ ''ab''" "\<lambda>_ _. 2" "''^a*b$''" "[]"]
  by (simp add: match_def matchhere.simps matchstar.simps)

end
