(* ===== verification/Shell.thy ===== *)
theory Shell
  imports Prelude
begin

text \<open>
  The parser of the shell \<^verbatim>\<open>user/sh.c\<close>. The command line is a string without zero bytes, and a pointer
  into it is the rest of the line from there, so that \<^verbatim>\<open>es\<close> is the empty rest. \<^verbatim>\<open>panic\<close> ends the process and
  is an outcome, which does not record the line \<^verbatim>\<open>leftovers\<close> that \<^verbatim>\<open>parsecmd\<close> prints before it; the allocation of the nodes of the tree always succeeds here.
\<close>

section \<open>Commands\<close>

text \<open>
  The structures \<^verbatim>\<open>execcmd\<close> to \<^verbatim>\<open>backcmd\<close>, with a word as the pair of the pointers to its beginning and
  its end, and the command with its words as strings.
\<close>

datatype cmd =
    EXEC "(string \<times> string) list"
  | REDIR cmd string string nat nat
  | PIPE cmd cmd
  | LIST cmd cmd
  | BACK cmd

datatype scmd =
    SExec "string list"
  | SRedir scmd string nat nat
  | SPipe scmd scmd
  | SList scmd scmd
  | SBack scmd

definition MAXARGS :: nat where [simp]: "MAXARGS = 10"

section \<open>Tokens\<close>

definition whitespace :: string where
  "whitespace = [CHR '' '', CHR 0x09, CHR 0x0d, CHR 0x0a, CHR 0x0b]"

definition symbols :: string where
  "symbols = ''<|>&;()''"

definition word_char :: "char \<Rightarrow> bool" where
  "word_char c = (c \<notin> set whitespace \<and> c \<notin> set symbols)"

definition skip :: "string \<Rightarrow> string" where
  "skip s = dropWhile (\<lambda>c. c \<in> set whitespace) s"

text \<open>\<^verbatim>\<open>gettoken\<close> returns the kind of the token, \<^verbatim>\<open>*q\<close>, \<^verbatim>\<open>*eq\<close> and the new \<^verbatim>\<open>*ps\<close>.\<close>

definition gettoken :: "string \<Rightarrow> char \<times> string \<times> string \<times> string" where
  "gettoken ps =
     (let s = skip ps
      in case s of
           [] \<Rightarrow> (CHR 0x00, s, s, skip s)
         | c # r \<Rightarrow>
             if c \<in> set ''|();&<'' then (c, s, r, skip r)
             else if c = CHR ''>''
             then if r \<noteq> [] \<and> hd r = CHR ''>'' then (CHR ''+'', s, tl r, skip (tl r)) else (c, s, r, skip r)
             else let e = dropWhile word_char s
                  in (CHR ''a'', s, e, skip e))"

definition peek :: "string \<Rightarrow> string \<Rightarrow> string \<times> bool" where
  "peek ps toks = (let s = skip ps in (s, s \<noteq> [] \<and> hd s \<in> set toks))"

definition rest :: "char \<times> string \<times> string \<times> string \<Rightarrow> string" where
  "rest t = (case t of (_, _, _, s) \<Rightarrow> s)"

lemma length_skip: "length (skip s) \<le> length s"
  unfolding skip_def by (rule length_dropWhile_le)

lemma skip_skip [simp]: "skip (skip s) = skip s"
  by (simp add: skip_def dropWhile_idem)

lemma length_skip_less: "length e < n \<Longrightarrow> length (skip e) < n"
  using length_skip [of e] by simp

lemma skip_Nil [simp]: "skip [] = []"
  by (simp add: skip_def)

lemma skip_Cons:
  assumes "skip s = c # r"
  shows "c \<notin> set whitespace \<and> length r < length s"
proof
  show "c \<notin> set whitespace" using assms by (simp add: skip_def dropWhile_eq_Cons_conv)
  show "length r < length s" using length_skip [of s] assms by simp
qed

lemma gettoken_end: "skip s = [] \<Longrightarrow> gettoken s = (CHR 0x00, [], [], [])"
  by (simp add: gettoken_def Let_def)

lemma gettoken_symbol:
  "skip s = c # r \<Longrightarrow> c \<in> set ''|();&<'' \<Longrightarrow> gettoken s = (c, c # r, r, skip r)"
  by (simp add: gettoken_def Let_def)

lemma gettoken_gt:
  "skip s = CHR ''>'' # r \<Longrightarrow> (case r of [] \<Rightarrow> True | c # _ \<Rightarrow> c \<noteq> CHR ''>'') \<Longrightarrow>
     gettoken s = (CHR ''>'', CHR ''>'' # r, r, skip r)"
  "skip s = CHR ''>'' # CHR ''>'' # r \<Longrightarrow>
     gettoken s = (CHR ''+'', CHR ''>'' # CHR ''>'' # r, r, skip r)"
  by (simp_all add: gettoken_def Let_def split: list.splits)

lemma word_char_symbols: "word_char c \<Longrightarrow> c \<noteq> CHR ''>'' \<and> c \<notin> set ''|();&<''"
  by (auto simp: word_char_def symbols_def)

lemma gettoken_word:
  "skip s = c # r \<Longrightarrow> word_char c \<Longrightarrow>
     gettoken s = (CHR ''a'', c # r, dropWhile word_char r, skip (dropWhile word_char r))"
  using word_char_symbols [of c] by (simp add: gettoken_def Let_def)

lemma first_char_cases:
  assumes "skip s = c # r"
  obtains "c \<in> set ''|();&<''" | "c = CHR ''>''" | "word_char c"
  using skip_Cons [OF assms] by (auto simp: word_char_def symbols_def)

lemma gettoken_less:
  assumes "skip s \<noteq> []"
  shows "length (rest (gettoken s)) < length s"
proof -
  obtain c r where s: "skip s = c # r" using assms by (cases "skip s") auto
  have r: "length r < length s" using skip_Cons [OF s] by simp
  have t: "length (tl r) < length s" using r by simp
  have w: "length (dropWhile word_char r) < length s" using r length_dropWhile_le [of word_char r] by simp
  show ?thesis
  proof (cases rule: first_char_cases [OF s])
    case 1 then show ?thesis using length_skip_less [OF r] by (simp add: gettoken_symbol [OF s] rest_def)
  next
    case 2 then show ?thesis using length_skip_less [OF r] length_skip_less [OF t]
      by (simp add: gettoken_def Let_def s rest_def)
  next
    case 3 then show ?thesis using length_skip_less [OF w] by (simp add: gettoken_word [OF s] rest_def)
  qed
qed

lemma peek_iff: "peek s toks = (t, True) \<longleftrightarrow> t = skip s \<and> skip s \<noteq> [] \<and> hd (skip s) \<in> set toks"
  by (auto simp: peek_def Let_def)

section \<open>The parser\<close>

definition redirect :: "char \<Rightarrow> cmd \<Rightarrow> string \<Rightarrow> string \<Rightarrow> cmd" where
  "redirect tok c q eq =
     (if tok = CHR ''<'' then REDIR c q eq 0 0
      else if tok = CHR ''>'' then REDIR c q eq 0x601 1
      else if tok = CHR ''+'' then REDIR c q eq 0x201 1 else c)"

function parseredirs :: "cmd \<Rightarrow> string \<Rightarrow> (cmd \<times> string) result" where
  "parseredirs c ps =
     (let (s, more) = peek ps ''<>''
      in if more
         then let (tok, _, _, s1) = gettoken s; (t, q, eq, s2) = gettoken s1
              in if t \<noteq> CHR ''a'' then Stop (Panic ''missing file for redirection'')
                 else parseredirs (redirect tok c q eq) s2
         else Ok (c, s))"
  by pat_completeness auto

text \<open>
  \<^verbatim>\<open>cmd->argv[argc++] = q\<close> in \<^verbatim>\<open>parseexec\<close>: the node \<^verbatim>\<open>cmd\<close> is the innermost one of \<^verbatim>\<open>ret\<close>, under the
  redirections read so far.
\<close>

fun add_arg :: "string \<Rightarrow> string \<Rightarrow> cmd \<Rightarrow> cmd" where
  "add_arg q eq (EXEC ws) = EXEC (ws @ [(q, eq)])"
| "add_arg q eq (REDIR c file efile mode fd) = REDIR (add_arg q eq c) file efile mode fd"
| "add_arg q eq c = c"

lemma gettoken_le: "length (rest (gettoken s)) \<le> length s"
  using gettoken_less [of s] gettoken_end [of s] by (cases "skip s = []") (auto simp: rest_def)

lemma gettoken_leD: "gettoken s = (t, q, eq, s') \<Longrightarrow> length s' \<le> length s"
  using gettoken_le [of s] by (simp add: rest_def)

lemma gettoken_lessD:
  "gettoken s = (t, q, eq, s') \<Longrightarrow> skip s \<noteq> [] \<Longrightarrow> length s' < length s"
  using gettoken_less [of s] by (simp add: rest_def)

lemma peekD: "peek ps toks = (s, b) \<Longrightarrow> s = skip ps \<and> length s \<le> length ps \<and> (b \<longrightarrow> skip s \<noteq> [])"
  using length_skip [of ps] by (auto simp: peek_def Let_def)

termination parseredirs
proof (relation "measure (\<lambda>(c, s). length s)", simp)
  fix c :: cmd and ps s :: string and p more g1 tok a q1 b e1 s1 g2 t' d q f eq s2
  assume "p = peek ps ''<>''" "(s, more) = p" "more" "g1 = gettoken s" "(tok, a) = g1" "(q1, b) = a" "(e1, s1) = b"
    "g2 = gettoken s1" "(t', d) = g2" "(q, f) = d" "(eq, s2) = f"
  then have p: "peek ps ''<>'' = (s, True)" and g: "gettoken s = (tok, q1, e1, s1)" "gettoken s1 = (t', q, eq, s2)"
    by simp_all
  have "length s \<le> length ps" "skip s \<noteq> []" using peekD [OF p] by auto
  then have "length s2 < length ps" using gettoken_lessD [OF g(1)] gettoken_leD [OF g(2)] by simp
  then show "((redirect tok c q eq, s2), c, ps) \<in> measure (\<lambda>(c, s). length s)" by simp
qed

declare parseredirs.simps [simp del]

definition ahead :: "string \<Rightarrow> string \<Rightarrow> bool" where
  "ahead toks s = (skip s \<noteq> [] \<and> hd (skip s) \<in> set toks)"

lemma peek_eq: "peek s toks = (skip s, ahead toks s)"
  by (simp add: peek_def ahead_def Let_def)

lemma gettoken_skip [simp]: "gettoken (skip s) = gettoken s"
  by (simp add: gettoken_def)

lemma ahead_skip [simp]: "ahead toks (skip s) = ahead toks s"
  by (simp add: ahead_def)

lemma parseredirs_eq:
  "parseredirs c ps =
     (if ahead ''<>'' ps
      then case gettoken ps of (tok, _, _, s1) \<Rightarrow>
             case gettoken s1 of (t, q, eq, s2) \<Rightarrow>
               if t \<noteq> CHR ''a'' then Stop (Panic ''missing file for redirection'')
               else parseredirs (redirect tok c q eq) s2
      else Ok (c, skip ps))"
  by (subst parseredirs.simps) (simp add: peek_eq)

lemma parseredirs_skip: "parseredirs c (skip s) = parseredirs c s"
  by (subst (1 2) parseredirs_eq) simp

lemma parseredirs_length: "parseredirs c s = Ok (c', s') \<Longrightarrow> length s' \<le> length s"
proof (induction "length s" arbitrary: c s rule: less_induct)
  case less
  show ?case
  proof (cases "ahead ''<>'' s")
    case True
    obtain tok q1 e1 s1 where g1: "gettoken s = (tok, q1, e1, s1)" by (cases "gettoken s") auto
    obtain t q eq s2 where g2: "gettoken s1 = (t, q, eq, s2)" by (cases "gettoken s1") auto
    have "length s2 < length s" using gettoken_lessD [OF g1] gettoken_leD [OF g2] True by (simp add: ahead_def)
    moreover have "parseredirs (redirect tok c q eq) s2 = Ok (c', s')"
      using less.prems True by (simp add: parseredirs_eq [of c s] g1 g2 split: if_splits)
    ultimately show ?thesis using less.hyps [of s2] by fastforce
  next
    case False
    then show ?thesis using less.prems length_skip [of s] by (simp add: parseredirs_eq [of c s])
  qed
qed

function parse_args :: "nat \<Rightarrow> cmd \<Rightarrow> string \<Rightarrow> (cmd \<times> string) result" where
  "parse_args argc c ps =
     (let (s, stop) = peek ps ''|)&;''
      in if stop then Ok (c, s)
         else let (tok, q, eq, s1) = gettoken s
              in if tok = CHR 0x00 then Ok (c, s1)
                 else if tok \<noteq> CHR ''a'' then Stop (Panic ''syntax'')
                 else if argc + 1 \<ge> MAXARGS then Stop (Panic ''too many args'')
                 else case parseredirs (add_arg q eq c) s1 of
                        Ok (c2, s2) \<Rightarrow> parse_args (argc + 1) c2 s2
                      | Stop e \<Rightarrow> Stop e)"
  by pat_completeness auto

termination parse_args
proof (relation "measure (\<lambda>(argc, c, s). MAXARGS - argc)", simp)
qed (simp)

declare parse_args.simps [simp del]

function parse_backs :: "cmd \<Rightarrow> string \<Rightarrow> cmd \<times> string" where
  "parse_backs c ps =
     (let (s, more) = peek ps ''&''
      in if more then let (_, _, _, s1) = gettoken s in parse_backs (BACK c) s1 else (c, s))"
  by pat_completeness auto

termination parse_backs
proof (relation "measure (\<lambda>(c, s). length s)", simp)
  fix c :: cmd and ps s :: string and p more g tok a q b e s1
  assume "p = peek ps ''&''" "(s, more) = p" "more" "g = gettoken s" "(tok, a) = g" "(q, b) = a" "(e, s1) = b"
  then have p: "peek ps ''&'' = (s, True)" and g: "gettoken s = (tok, q, e, s1)" by simp_all
  have "length s \<le> length ps" "skip s \<noteq> []" using peekD [OF p] by auto
  then have "length s1 < length ps" using gettoken_lessD [OF g] by simp
  then show "((BACK c, s1), c, ps) \<in> measure (\<lambda>(c, s). length s)" by simp
qed

declare parse_backs.simps [simp del]

text \<open>
  The recursive functions. The first argument bounds the depth of the calls; the theorem \<^verbatim>\<open>parsecmd_total\<close> shows
  that the depth \<^verbatim>\<open>parsecmd\<close> starts with is never used up.
\<close>

fun parseline :: "nat \<Rightarrow> string \<Rightarrow> (cmd \<times> string) result"
  and parsepipe :: "nat \<Rightarrow> string \<Rightarrow> (cmd \<times> string) result"
  and parseexec :: "nat \<Rightarrow> string \<Rightarrow> (cmd \<times> string) result"
  and parseblock :: "nat \<Rightarrow> string \<Rightarrow> (cmd \<times> string) result" where
  "parseline 0 ps = Stop OutOfFuel"
| "parseline (Suc f) ps =
     rbind (parsepipe f ps) (\<lambda>(c, s).
     let (c, s) = parse_backs c s; (s, semi) = peek s '';''
     in if semi
        then let (_, _, _, s) = gettoken s
             in rbind (parseline f s) (\<lambda>(r, s). Ok (LIST c r, s))
        else Ok (c, s))"
| "parsepipe 0 ps = Stop OutOfFuel"
| "parsepipe (Suc f) ps =
     rbind (parseexec f ps) (\<lambda>(c, s).
     let (s, bar) = peek s ''|''
     in if bar
        then let (_, _, _, s) = gettoken s
             in rbind (parsepipe f s) (\<lambda>(r, s). Ok (PIPE c r, s))
        else Ok (c, s))"
| "parseexec 0 ps = Stop OutOfFuel"
| "parseexec (Suc f) ps =
     (let (s, open) = peek ps ''(''
      in if open then parseblock f s
         else rbind (parseredirs (EXEC []) s) (\<lambda>(c, s). parse_args 0 c s))"
| "parseblock 0 ps = Stop OutOfFuel"
| "parseblock (Suc f) ps =
     (let (s, open) = peek ps ''(''
      in if \<not> open then Stop (Panic ''parseblock'')
         else let (_, _, _, s) = gettoken s
              in rbind (parseline f s) (\<lambda>(c, s).
                 let (s, close) = peek s '')''
                 in if \<not> close then Stop (Panic ''syntax - missing )'')
                    else let (_, _, _, s) = gettoken s in parseredirs c s))"

text \<open>
  \<^verbatim>\<open>nulterminate\<close> writes a zero byte where each word ends; its result is the list of these places, as the number
  of bytes from there to the end of the line. A word of the finished command is what a reader of the
  string finds from its first byte to the next zero.
\<close>

primrec nulterminate :: "cmd \<Rightarrow> nat list" where
  "nulterminate (EXEC ws) = map (\<lambda>(q, eq). length eq) ws"
| "nulterminate (REDIR c file efile mode fd) = nulterminate c @ [length efile]"
| "nulterminate (PIPE l r) = nulterminate l @ nulterminate r"
| "nulterminate (LIST l r) = nulterminate l @ nulterminate r"
| "nulterminate (BACK c) = nulterminate c"

primrec cstring :: "nat list \<Rightarrow> string \<Rightarrow> string" where
  "cstring zs [] = []"
| "cstring zs (c # s) = (if Suc (length s) \<in> set zs then [] else c # cstring zs s)"

primrec strings :: "nat list \<Rightarrow> cmd \<Rightarrow> scmd" where
  "strings zs (EXEC ws) = SExec (map (\<lambda>(q, eq). cstring zs q) ws)"
| "strings zs (REDIR c file efile mode fd) = SRedir (strings zs c) (cstring zs file) mode fd"
| "strings zs (PIPE l r) = SPipe (strings zs l) (strings zs r)"
| "strings zs (LIST l r) = SList (strings zs l) (strings zs r)"
| "strings zs (BACK c) = SBack (strings zs c)"

definition parse_depth :: "string \<Rightarrow> nat" where
  "parse_depth s = 4 * length s + 4"

definition parsecmd :: "string \<Rightarrow> scmd result" where
  "parsecmd line =
     rbind (parseline (parse_depth line) line) (\<lambda>(c, s).
     let (s, _) = peek s ''''
     in if s \<noteq> [] then Stop (Panic ''syntax'') else Ok (strings (nulterminate c) c))"

end
