(* ===== verification/Shellspec.thy ===== *)
theory Shellspec
  imports Shell "HOL-Library.Sublist"
begin

text \<open>
  Properties of the parser of the shell: it always returns a command or stops with one of its messages, its
  commands are well-formed, and it reads back every well-formed command from its printed form.
\<close>

section \<open>Termination\<close>

definition shrinks :: "(cmd \<times> string) result \<Rightarrow> string \<Rightarrow> bool" where
  "shrinks m ps = (case m of Ok (c, s) \<Rightarrow> length s \<le> length ps | Stop e \<Rightarrow> (\<exists>msg. e = Panic msg))"

lemma shrinks_le: "shrinks m s \<Longrightarrow> length s \<le> length t \<Longrightarrow> shrinks m t"
  by (auto simp: shrinks_def split: result.splits)

lemma shrinks_Ok [simp]: "shrinks (Ok (c, s)) ps = (length s \<le> length ps)"
  and shrinks_Stop [simp]: "shrinks (Stop e) ps = (\<exists>msg. e = Panic msg)"
  by (simp_all add: shrinks_def)

lemma shrinks_rbind:
  "shrinks m ps \<Longrightarrow> (\<And>c s. m = Ok (c, s) \<Longrightarrow> length s \<le> length ps \<Longrightarrow> shrinks (g (c, s)) ps) \<Longrightarrow>
     shrinks (rbind m g) ps"
  by (cases m) auto

lemma shrinks_parseredirs: "shrinks (parseredirs c s) s"
proof (induction "length s" arbitrary: c s rule: less_induct)
  case less
  show ?case
  proof (cases "ahead ''<>'' s")
    case True
    obtain tok q1 e1 s1 where g1: "gettoken s = (tok, q1, e1, s1)" by (cases "gettoken s") auto
    obtain t q eq s2 where g2: "gettoken s1 = (t, q, eq, s2)" by (cases "gettoken s1") auto
    have l: "length s2 < length s" using gettoken_lessD [OF g1] gettoken_leD [OF g2] True by (simp add: ahead_def)
    show ?thesis using True shrinks_le [OF less.hyps [OF l]] l by (simp add: parseredirs_eq [of c s] g1 g2)
  next
    case False
    then show ?thesis using length_skip [of s] by (simp add: parseredirs_eq [of c s])
  qed
qed

lemma parse_args_eq:
  "parse_args argc c ps =
     (if ahead ''|)&;'' ps then Ok (c, skip ps)
      else case gettoken ps of (tok, q, eq, s1) \<Rightarrow>
             if tok = CHR 0x00 then Ok (c, s1)
             else if tok \<noteq> CHR ''a'' then Stop (Panic ''syntax'')
             else if argc + 1 \<ge> MAXARGS then Stop (Panic ''too many args'')
             else rbind (parseredirs (add_arg q eq c) s1) (\<lambda>(c2, s2). parse_args (argc + 1) c2 s2))"
  by (subst parse_args.simps) (simp add: peek_eq split: prod.splits result.splits)

lemma shrinks_parse_args: "shrinks (parse_args argc c s) s"
proof (induction "MAXARGS - argc" arbitrary: argc c s rule: less_induct)
  case less
  obtain tok q eq s1 where g: "gettoken s = (tok, q, eq, s1)" by (cases "gettoken s") auto
  have l: "length s1 \<le> length s" using gettoken_leD [OF g] .
  have "shrinks (rbind (parseredirs (add_arg q eq c) s1) (\<lambda>(c2, s2). parse_args (argc + 1) c2 s2)) s" if "argc + 1 < MAXARGS"
  proof (rule shrinks_rbind)
    show "shrinks (parseredirs (add_arg q eq c) s1) s" using shrinks_le [OF shrinks_parseredirs l] .
  next
    fix c2 and s2 :: string assume "length s2 \<le> length s"
    then show "shrinks (case (c2, s2) of (c2, s2) \<Rightarrow> parse_args (argc + 1) c2 s2) s"
      using shrinks_le [OF less.hyps] that by simp
  qed
  then show ?case using length_skip [of s] l by (subst parse_args_eq) (simp add: g)
qed

lemma parse_backs_eq:
  "parse_backs c ps = (if ahead ''&'' ps then parse_backs (BACK c) (rest (gettoken ps)) else (c, skip ps))"
  by (subst parse_backs.simps) (simp add: peek_eq rest_def split: prod.splits)

lemma parse_backs_length: "parse_backs c s = (c', s') \<Longrightarrow> length s' \<le> length s"
proof (induction "length s" arbitrary: c s rule: less_induct)
  case less
  show ?case
  proof (cases "ahead ''&'' s")
    case True
    then have "length (rest (gettoken s)) < length s" by (simp add: gettoken_less ahead_def)
    then show ?thesis using less.hyps [of "rest (gettoken s)" "BACK c"] less.prems True
      by (simp add: parse_backs_eq [of c s])
  next
    case False
    then show ?thesis using less.prems length_skip [of s] by (simp add: parse_backs_eq [of c s])
  qed
qed

lemma parse_eqs:
  "parseline (Suc f) ps =
     rbind (parsepipe f ps) (\<lambda>(c, s). case parse_backs c s of (c, s) \<Rightarrow>
     if ahead '';'' s then rbind (parseline f (rest (gettoken s))) (\<lambda>(r, s). Ok (LIST c r, s)) else Ok (c, skip s))"
  "parsepipe (Suc f) ps =
     rbind (parseexec f ps) (\<lambda>(c, s).
     if ahead ''|'' s then rbind (parsepipe f (rest (gettoken s))) (\<lambda>(r, s). Ok (PIPE c r, s)) else Ok (c, skip s))"
  "parseexec (Suc f) ps =
     (if ahead ''('' ps then parseblock f (skip ps)
      else rbind (parseredirs (EXEC []) ps) (\<lambda>(c, s). parse_args 0 c s))"
  "parseblock (Suc f) ps =
     (if \<not> ahead ''('' ps then Stop (Panic ''parseblock'')
      else rbind (parseline f (rest (gettoken ps))) (\<lambda>(c, s).
           if \<not> ahead '')'' s then Stop (Panic ''syntax - missing )'') else parseredirs c (rest (gettoken s))))"
  by (simp_all add: peek_eq rest_def case_prod_beta Let_def parseredirs_skip cong: if_cong)

declare parseline.simps(2) [simp del] parsepipe.simps(2) [simp del] parseexec.simps(2) [simp del] parseblock.simps(2) [simp del]

lemma ahead_less: "ahead toks s \<Longrightarrow> length (rest (gettoken s)) < length s"
  by (simp add: gettoken_less ahead_def)

lemma shrinks_parser:
  "4 * length s + 4 \<le> f \<Longrightarrow> shrinks (parseline f s) s"
  "4 * length s + 3 \<le> f \<Longrightarrow> shrinks (parsepipe f s) s"
  "4 * length s + 2 \<le> f \<Longrightarrow> shrinks (parseexec f s) s"
  "4 * length s + 1 \<le> f \<Longrightarrow> shrinks (parseblock f s) s"
proof (induction f arbitrary: s)
  case (Suc f)
  {
    case 1
    show ?case unfolding parse_eqs
    proof (rule shrinks_rbind, use Suc.IH(2) 1 in simp, clarify)
      fix c and s1 :: string assume l: "length s1 \<le> length s"
      show "shrinks (case parse_backs c s1 of (c, s) \<Rightarrow>
         if ahead '';'' s then rbind (parseline f (rest (gettoken s))) (\<lambda>(r, s). Ok (LIST c r, s)) else Ok (c, skip s)) s"
      proof (cases "parse_backs c s1")
        case (Pair c2 s2)
        then have l2: "length s2 \<le> length s" using parse_backs_length [OF Pair] l by simp
        have "shrinks (parseline f (rest (gettoken s2))) s" if "ahead '';'' s2"
          using shrinks_le [OF Suc.IH(1)] ahead_less [OF that] l2 1 by simp
        then show ?thesis using Pair l2 length_skip [of s2] by (auto intro!: shrinks_rbind)
      qed
    qed
  next
    case 2
    show ?case unfolding parse_eqs
    proof (rule shrinks_rbind, use Suc.IH(3) 2 in simp, clarify)
      fix c and s2 :: string assume l2: "length s2 \<le> length s"
      have "shrinks (parsepipe f (rest (gettoken s2))) s" if "ahead ''|'' s2"
        using shrinks_le [OF Suc.IH(2)] ahead_less [OF that] l2 2 by simp
      then show "shrinks (if ahead ''|'' s2 then rbind (parsepipe f (rest (gettoken s2))) (\<lambda>(r, s). Ok (PIPE c r, s))
                          else Ok (c, skip s2)) s"
        using l2 length_skip [of s2] by (auto intro!: shrinks_rbind)
    qed
  next
    case 3
    have "shrinks (parseblock f (skip s)) s"
      using shrinks_le [OF Suc.IH(4)] length_skip [of s] 3 by simp
    moreover have "shrinks (rbind (parseredirs (EXEC []) s) (\<lambda>(c, s). parse_args 0 c s)) s"
      by (rule shrinks_rbind) (auto intro: shrinks_parseredirs shrinks_le [OF shrinks_parse_args])
    ultimately show ?case unfolding parse_eqs by simp
  next
    case 4
    have "shrinks (rbind (parseline f (rest (gettoken s))) (\<lambda>(c, s).
           if \<not> ahead '')'' s then Stop (Panic ''syntax - missing )'') else parseredirs c (rest (gettoken s)))) s"
      if "ahead ''('' s"
    proof (rule shrinks_rbind)
      show "shrinks (parseline f (rest (gettoken s))) s"
        using shrinks_le [OF Suc.IH(1)] ahead_less [OF that] 4 by simp
    qed (auto intro!: shrinks_le [OF shrinks_parseredirs] dest: ahead_less)
    then show ?case unfolding parse_eqs by simp
  }
qed simp_all

text \<open>
  C30: the parser of the shell always returns. Whatever the line, it produces a command or stops with one of the
  messages of \<^verbatim>\<open>panic\<close>; the calls of \<^verbatim>\<open>parseline\<close>, \<^verbatim>\<open>parsepipe\<close>, \<^verbatim>\<open>parseexec\<close> and \<^verbatim>\<open>parseblock\<close> never nest deeper
  than four times the length of the line.
\<close>

theorem parsecmd_total: "(\<exists>c. parsecmd line = Ok c) \<or> (\<exists>msg. parsecmd line = Stop (Panic msg))"
proof -
  have "shrinks (parseline (parse_depth line) line) line" by (rule shrinks_parser(1)) (simp add: parse_depth_def)
  then show ?thesis
  proof (cases "parseline (parse_depth line) line")
    case (Ok x)
    then show ?thesis by (cases x, cases "skip (snd x) = []") (simp_all add: parsecmd_def peek_eq)
  qed (simp add: parsecmd_def)
qed

section \<open>Well-formed commands\<close>

definition is_word :: "string \<Rightarrow> bool" where
  "is_word w = (w \<noteq> [] \<and> list_all word_char w)"

definition modes :: "(nat \<times> nat) list" where
  "modes = [(0, 0), (0x601, 1), (0x201, 1)]"

primrec wf_cmd :: "scmd \<Rightarrow> bool" where
  "wf_cmd (SExec ws) = (length ws < MAXARGS \<and> list_all is_word ws)"
| "wf_cmd (SRedir c file mode fd) = (wf_cmd c \<and> is_word file \<and> (mode, fd) \<in> set modes)"
| "wf_cmd (SPipe l r) = (wf_cmd l \<and> wf_cmd r)"
| "wf_cmd (SList l r) = (wf_cmd l \<and> wf_cmd r)"
| "wf_cmd (SBack c) = wf_cmd c"

text \<open>
  The words of a tree while the line still has its bytes, and what the parser keeps true of them: a word
  ends where the line ends or at a byte that is not of a word.
\<close>

definition word :: "string \<Rightarrow> string \<Rightarrow> string" where
  "word q eq = take (length q - length eq) q"

primrec words_cmd :: "cmd \<Rightarrow> scmd" where
  "words_cmd (EXEC ws) = SExec (map (\<lambda>(q, eq). word q eq) ws)"
| "words_cmd (REDIR c file efile mode fd) = SRedir (words_cmd c) (word file efile) mode fd"
| "words_cmd (PIPE l r) = SPipe (words_cmd l) (words_cmd r)"
| "words_cmd (LIST l r) = SList (words_cmd l) (words_cmd r)"
| "words_cmd (BACK c) = SBack (words_cmd c)"

definition breaks :: "string \<Rightarrow> string \<Rightarrow> bool" where
  "breaks line e = (suffix e line \<and> (e = [] \<or> \<not> word_char (hd e)))"

definition word_bounds :: "string \<Rightarrow> string \<Rightarrow> string \<Rightarrow> bool" where
  "word_bounds line q e = (suffix q line \<and> breaks line e \<and> (\<exists>w. is_word w \<and> q = w @ e))"

primrec wf_tree :: "string \<Rightarrow> cmd \<Rightarrow> bool" where
  "wf_tree line (EXEC ws) = (length ws < MAXARGS \<and> (\<forall>(q, e) \<in> set ws. word_bounds line q e))"
| "wf_tree line (REDIR c file efile mode fd) =
     (wf_tree line c \<and> word_bounds line file efile \<and> (mode, fd) \<in> set modes)"
| "wf_tree line (PIPE l r) = (wf_tree line l \<and> wf_tree line r)"
| "wf_tree line (LIST l r) = (wf_tree line l \<and> wf_tree line r)"
| "wf_tree line (BACK c) = wf_tree line c"

lemma word_bounds_is_word: "word_bounds line q e \<Longrightarrow> is_word (word q e)"
  by (auto simp: word_bounds_def word_def)

lemma wf_words: "wf_tree line c \<Longrightarrow> wf_cmd (words_cmd c)"
  by (induction c) (auto simp: list_all_iff dest: word_bounds_is_word)

lemma suffix_same_length: "suffix a line \<Longrightarrow> suffix b line \<Longrightarrow> length a = length b \<Longrightarrow> a = b"
  by (auto simp: suffix_def)

lemma cstring_word:
  assumes z: "\<And>z. z \<in> set zs \<Longrightarrow> \<exists>e. breaks line e \<and> length e = z"
  shows "suffix (w @ e) line \<Longrightarrow> list_all word_char w \<Longrightarrow> length e \<in> set zs \<Longrightarrow> cstring zs (w @ e) = w"
proof (induction w)
  case Nil
  then show ?case by (cases e) simp_all
next
  case (Cons c w)
  have "Suc (length (w @ e)) \<notin> set zs"
  proof
    assume "Suc (length (w @ e)) \<in> set zs"
    then obtain b where b: "breaks line b" "length b = Suc (length (w @ e))" using z by blast
    then have "b = c # w @ e" using suffix_same_length [of b line "c # w @ e"] Cons.prems by (simp add: breaks_def)
    then show False using b Cons.prems by (simp add: breaks_def)
  qed
  then show ?case using Cons by (simp add: suffix_ConsD)
qed

lemma cstring_word_bounds:
  assumes "\<And>z. z \<in> set zs \<Longrightarrow> \<exists>e. breaks line e \<and> length e = z" "word_bounds line q e" "length e \<in> set zs"
  shows "cstring zs q = word q e"
  using assms(2,3) cstring_word [OF assms(1)] by (auto simp: word_bounds_def word_def is_word_def)

lemma strings_words:
  assumes "\<And>z. z \<in> set zs \<Longrightarrow> \<exists>e. breaks line e \<and> length e = z"
  shows "wf_tree line c \<Longrightarrow> set (nulterminate c) \<subseteq> set zs \<Longrightarrow> strings zs c = words_cmd c"
  by (induction c) (auto intro!: cstring_word_bounds [OF assms])

lemma nulterminate_breaks: "wf_tree line c \<Longrightarrow> z \<in> set (nulterminate c) \<Longrightarrow> \<exists>e. breaks line e \<and> length e = z"
  by (induction c) (auto simp: word_bounds_def)

lemma strings_nulterminate: "wf_tree line c \<Longrightarrow> strings (nulterminate c) c = words_cmd c"
  by (rule strings_words [OF nulterminate_breaks]) auto

lemma suffix_skip: "suffix s line \<Longrightarrow> suffix (skip s) line"
  unfolding skip_def by (rule suffix_order.trans [OF suffix_dropWhile])

lemma dropWhile_breaks: "suffix s line \<Longrightarrow> breaks line (dropWhile word_char s)"
  using hd_dropWhile [of word_char s] suffix_order.trans [OF suffix_dropWhile [of word_char s]]
  by (auto simp: breaks_def)

lemma gettoken_suffix:
  assumes "suffix s line" "gettoken s = (t, q, e, s')"
  shows "suffix s' line" and "t = CHR ''a'' \<Longrightarrow> word_bounds line q e"
proof -
  have *: "suffix s' line \<and> (t = CHR ''a'' \<longrightarrow> word_bounds line q e)"
  proof (cases "skip s")
    case Nil
    then show ?thesis using assms gettoken_end [of s] by auto
  next
    case (Cons c r)
    have cr: "suffix (c # r) line" using suffix_skip [OF assms(1)] Cons by simp
    then have r: "suffix r line" by (rule suffix_ConsD)
    then have tl: "suffix (tl r) line" by (meson suffix_order.trans suffix_tl)
    show ?thesis
    proof (cases rule: first_char_cases [OF Cons])
      case 1 then show ?thesis using assms(2) suffix_skip [OF r] gettoken_symbol [OF Cons] by auto
    next
      case 2 then show ?thesis using assms(2) suffix_skip [OF r] suffix_skip [OF tl]
        by (auto simp: gettoken_def Let_def Cons split: if_splits)
    next
      case 3
      then have w: "t = CHR ''a''" "q = c # r" "e = dropWhile word_char r" "s' = skip e"
        using assms(2) gettoken_word [OF Cons] by auto
      have e: "breaks line e" using dropWhile_breaks [OF r] w by simp
      have "q = (c # takeWhile word_char r) @ e" using w by simp
      moreover have "is_word (c # takeWhile word_char r)" using 3 set_takeWhileD [of _ word_char r]
        unfolding is_word_def list_all_iff by force
      ultimately have "word_bounds line q e" using cr w(2) e unfolding word_bounds_def by metis
      moreover have "suffix s' line" using e suffix_skip [of e line] w(4) by (simp add: breaks_def)
      ultimately show ?thesis by blast
    qed
  qed
  show "suffix s' line" and "t = CHR ''a'' \<Longrightarrow> word_bounds line q e" using * by simp_all
qed

lemma rest_suffix: "suffix s line \<Longrightarrow> suffix (rest (gettoken s)) line"
  using gettoken_suffix(1) [of s line] by (cases "gettoken s") (simp add: rest_def)

definition keeps :: "string \<Rightarrow> (cmd \<Rightarrow> bool) \<Rightarrow> (cmd \<times> string) result \<Rightarrow> bool" where
  "keeps line P m = (case m of Ok (c, s) \<Rightarrow> suffix s line \<and> P c | Stop e \<Rightarrow> True)"

lemma keeps_Ok [simp]: "keeps line P (Ok (c, s)) = (suffix s line \<and> P c)"
  and keeps_Stop [simp]: "keeps line P (Stop e)"
  by (simp_all add: keeps_def)

lemma keeps_rbind:
  "keeps line P m \<Longrightarrow> (\<And>c s. P c \<Longrightarrow> suffix s line \<Longrightarrow> keeps line Q (g (c, s))) \<Longrightarrow> keeps line Q (rbind m g)"
  by (cases m) auto

lemma keeps_parseredirs:
  assumes "\<And>c q e tok. P c \<Longrightarrow> word_bounds line q e \<Longrightarrow> P (redirect tok c q e)"
  shows "P c \<Longrightarrow> suffix s line \<Longrightarrow> keeps line P (parseredirs c s)"
proof (induction "length s" arbitrary: c s rule: less_induct)
  case less
  show ?case
  proof (cases "ahead ''<>'' s")
    case True
    obtain tok q1 e1 s1 where g1: "gettoken s = (tok, q1, e1, s1)" by (cases "gettoken s") auto
    obtain t q eq s2 where g2: "gettoken s1 = (t, q, eq, s2)" by (cases "gettoken s1") auto
    have l: "length s2 < length s" using gettoken_lessD [OF g1] gettoken_leD [OF g2] True by (simp add: ahead_def)
    have s1: "suffix s1 line" using gettoken_suffix(1) [OF less.prems(2) g1] .
    show ?thesis using True less.hyps [OF l assms] gettoken_suffix [OF s1 g2] less.prems(1)
      by (simp add: parseredirs_eq [of c s] g1 g2)
  next
    case False
    then show ?thesis using less.prems suffix_skip by (simp add: parseredirs_eq [of c s])
  qed
qed

lemma redirect_wf: "wf_tree line c \<Longrightarrow> word_bounds line q e \<Longrightarrow> wf_tree line (redirect tok c q e)"
  by (simp add: redirect_def modes_def)

fun exec_chain :: "nat \<Rightarrow> cmd \<Rightarrow> bool" where
  "exec_chain n (EXEC ws) = (length ws = n)"
| "exec_chain n (REDIR c file efile mode fd) = exec_chain n c"
| "exec_chain n c = False"

lemma redirect_chain: "exec_chain n c \<Longrightarrow> exec_chain n (redirect tok c q e)"
  by (simp add: redirect_def)

lemma add_arg_wf:
  "exec_chain n c \<Longrightarrow> wf_tree line c \<Longrightarrow> word_bounds line q e \<Longrightarrow> n + 1 < MAXARGS \<Longrightarrow>
     exec_chain (n + 1) (add_arg q e c) \<and> wf_tree line (add_arg q e c)"
  by (induction n c rule: exec_chain.induct) auto

lemma keeps_parse_args:
  "exec_chain argc c \<Longrightarrow> wf_tree line c \<Longrightarrow> suffix s line \<Longrightarrow> keeps line (wf_tree line) (parse_args argc c s)"
proof (induction "MAXARGS - argc" arbitrary: argc c s rule: less_induct)
  case less
  obtain tok q e s1 where g: "gettoken s = (tok, q, e, s1)" by (cases "gettoken s") auto
  note s1 = gettoken_suffix [OF less.prems(3) g]
  have "keeps line (wf_tree line) (rbind (parseredirs (add_arg q e c) s1) (\<lambda>(c2, s2). parse_args (argc + 1) c2 s2))"
    if "argc + 1 < MAXARGS" "tok = CHR ''a''"
  proof (rule keeps_rbind)
    show "keeps line (\<lambda>c. exec_chain (argc + 1) c \<and> wf_tree line c) (parseredirs (add_arg q e c) s1)"
      using add_arg_wf [OF less.prems(1,2) s1(2)] that s1(1)
      by (intro keeps_parseredirs) (auto intro: redirect_wf redirect_chain)
  next
    fix c2 and s2 :: string assume "exec_chain (argc + 1) c2 \<and> wf_tree line c2" "suffix s2 line"
    then show "keeps line (wf_tree line) (case (c2, s2) of (c2, s2) \<Rightarrow> parse_args (argc + 1) c2 s2)"
      using less.hyps that by simp
  qed
  then show ?case using less.prems suffix_skip s1(1) by (subst parse_args_eq) (simp add: g)
qed

lemma parse_backs_keeps:
  "wf_tree line c \<Longrightarrow> suffix s line \<Longrightarrow> parse_backs c s = (c', s') \<Longrightarrow> wf_tree line c' \<and> suffix s' line"
proof (induction "length s" arbitrary: c s rule: less_induct)
  case less
  show ?case
  proof (cases "ahead ''&'' s")
    case True
    then show ?thesis using less.hyps [OF ahead_less [OF True], of "BACK c"] less.prems rest_suffix [OF less.prems(2)]
      by (simp add: parse_backs_eq [of c s])
  next
    case False
    then show ?thesis using less.prems suffix_skip [OF less.prems(2)] by (simp add: parse_backs_eq [of c s])
  qed
qed

lemma keeps_parser:
  "suffix s line \<Longrightarrow> keeps line (wf_tree line) (parseline f s)"
  "suffix s line \<Longrightarrow> keeps line (wf_tree line) (parsepipe f s)"
  "suffix s line \<Longrightarrow> keeps line (wf_tree line) (parseexec f s)"
  "suffix s line \<Longrightarrow> keeps line (wf_tree line) (parseblock f s)"
proof (induction f arbitrary: s)
  case (Suc f)
  {
    case 1
    show ?case unfolding parse_eqs
      by (rule keeps_rbind [OF Suc.IH(2) [OF 1]])
        (auto split: prod.split intro!: keeps_rbind [OF Suc.IH(1)] rest_suffix suffix_skip dest: parse_backs_keeps)
  next
    case 2
    show ?case unfolding parse_eqs
      by (rule keeps_rbind [OF Suc.IH(3) [OF 2]]) (auto intro!: keeps_rbind [OF Suc.IH(2)] rest_suffix suffix_skip)
  next
    case 3
    have "keeps line (\<lambda>c. exec_chain 0 c \<and> wf_tree line c) (parseredirs (EXEC []) s)"
      using 3 by (intro keeps_parseredirs) (auto intro: redirect_wf redirect_chain)
    then have "keeps line (wf_tree line) (rbind (parseredirs (EXEC []) s) (\<lambda>(c, s). parse_args 0 c s))"
      by (rule keeps_rbind) (simp add: keeps_parse_args)
    then show ?case unfolding parse_eqs using Suc.IH(4) [OF suffix_skip [OF 3]] by simp
  next
    case 4
    show ?case unfolding parse_eqs using 4
      by (auto intro!: keeps_rbind [OF Suc.IH(1)] keeps_parseredirs redirect_wf rest_suffix)
  }
qed simp_all

text \<open>
  C22: the commands of the shell are well-formed. Whatever the line, every command the parser returns has fewer
  than \<^verbatim>\<open>MAXARGS\<close> arguments in each simple command, so that the arrays \<^verbatim>\<open>argv\<close> and \<^verbatim>\<open>eargv\<close> are never overrun and
  keep a zero at their end; its words are not empty, have no white space and no symbol in them even though they are
  only delimited by zero bytes written into the line afterwards; and each redirection opens descriptor 0
  for reading or descriptor 1 for writing.
\<close>

theorem parsecmd_wf:
  assumes "parsecmd line = Ok c"
  shows "wf_cmd c"
proof -
  obtain t s where p: "parseline (parse_depth line) line = Ok (t, s)" "c = strings (nulterminate t) t"
    using assms by (auto simp: parsecmd_def peek_eq rbind_Ok_iff split: if_splits)
  have "wf_tree line t" using keeps_parser(1) [of line line "parse_depth line"] p(1) by simp
  then show ?thesis using p(2) wf_words strings_nulterminate by simp
qed

theorem parsecmd_wf_witness: "wf_cmd (SRedir (SPipe (SExec [''ls'']) (SExec [''wc'', ''-l''])) ''f'' 0x201 1)"
  by (rule parsecmd_wf [of "''( ls|wc -l )>>f''"]) code_simp

end
