(* ===== verification/Shellprint.thy ===== *)
theory Shellprint
  imports Shellspec
begin

text \<open>
  Printing a command of the shell and reading it back. Every well-formed command has a printed form, with
  parentheses where the grammar of \<^verbatim>\<open>parseline\<close>, \<^verbatim>\<open>parsepipe\<close> and \<^verbatim>\<open>parseexec\<close> needs them, and the parser returns
  the command itself from it.
\<close>

section \<open>Printing\<close>

definition paren :: "bool \<Rightarrow> string \<Rightarrow> string" where
  "paren b s = (if b then ''( '' @ s @ '') '' else s)"

definition spaced :: "string list \<Rightarrow> string" where
  "spaced ws = concat (map (\<lambda>w. w @ '' '') ws)"

definition arrow :: "nat \<Rightarrow> string" where
  "arrow mode = (if mode = 0 then ''<'' else if mode = 0x601 then ''>'' else ''>>'')"

text \<open>The level is that of the function that reads the command: 0 for \<^verbatim>\<open>parseexec\<close>, 1 for \<^verbatim>\<open>parsepipe\<close>, 3 for \<^verbatim>\<open>parseline\<close>.\<close>

primrec print_cmd :: "nat \<Rightarrow> scmd \<Rightarrow> string" where
  "print_cmd n (SExec ws) = spaced ws"
| "print_cmd n (SRedir c file mode fd) = print_cmd 0 c @ arrow mode @ '' '' @ file @ '' ''"
| "print_cmd n (SPipe l r) = paren (n < 1) (print_cmd 0 l @ ''| '' @ print_cmd 1 r)"
| "print_cmd n (SBack c) = paren (n < 2) (print_cmd 2 c @ ''& '')"
| "print_cmd n (SList l r) = paren (n < 3) (print_cmd 2 l @ ''; '' @ print_cmd 3 r)"

section \<open>Tokens of a printed command\<close>

lemma skip_space [simp]: "skip (CHR '' '' # s) = skip s"
  by (simp add: skip_def whitespace_def)

lemma skip_symbol: "c \<in> set symbols \<Longrightarrow> skip (c # s) = c # s"
  by (auto simp: skip_def whitespace_def symbols_def)

lemma skip_word: "is_word w \<Longrightarrow> skip (w @ s) = w @ s"
  by (cases w) (auto simp: skip_def is_word_def word_char_def)

lemma word_not_ahead: "is_word w \<Longrightarrow> set toks \<subseteq> set symbols \<Longrightarrow> \<not> ahead toks (w @ s)"
  using skip_word [of w s] by (cases w) (auto simp: ahead_def is_word_def word_char_def)

lemma word_char_space [simp]: "\<not> word_char (CHR '' '')"
  by (simp add: word_char_def whitespace_def)

lemma gettoken_word_space:
  assumes "is_word w"
  shows "gettoken (w @ CHR '' '' # z) = (CHR ''a'', w @ CHR '' '' # z, CHR '' '' # z, skip z)"
proof -
  obtain c r where w: "w = c # r" "word_char c" "list_all word_char r"
    using assms by (cases w) (auto simp: is_word_def)
  have "dropWhile word_char (r @ CHR '' '' # z) = CHR '' '' # z"
    using w(3) by (subst dropWhile_append2) (auto simp: list_all_iff)
  then show ?thesis using gettoken_word [of "w @ CHR '' '' # z" c "r @ CHR '' '' # z"] skip_word [OF assms] w by simp
qed

lemma gettoken_symbol_space:
  "c \<in> set ''|();&<'' \<Longrightarrow> rest (gettoken (c # CHR '' '' # z)) = skip z"
  using gettoken_symbol [OF skip_symbol [of c "CHR '' '' # z"]] by (auto simp: rest_def symbols_def)

lemma gettoken_arrow:
  assumes "(m, d) \<in> set modes"
  shows "\<exists>tok q e. gettoken (arrow m @ CHR '' '' # z) = (tok, q, e, skip z) \<and> redirect tok c f g = REDIR c f g m d"
    and "ahead ''<>'' (arrow m @ s)" and "\<not> ahead ''('' (arrow m @ s)" and "\<not> ahead ''|)&;'' (arrow m @ s)"
  using assms gettoken_symbol [OF skip_symbol, of "CHR ''<''" "CHR '' '' # z"]
    gettoken_gt(1) [OF skip_symbol, of "CHR '' '' # z"] gettoken_gt(2) [OF skip_symbol, of z]
  by (auto simp: modes_def arrow_def redirect_def ahead_def skip_symbol symbols_def
      gettoken_gt(2) [OF skip_symbol, unfolded symbols_def])

lemma parseredirs_word:
  assumes "is_word w" "(m, d) \<in> set modes"
  shows "\<exists>q e. word q e = w \<and>
    parseredirs c (arrow m @ '' '' @ w @ '' '' @ z) = parseredirs (REDIR c q e m d) z"
proof -
  obtain tok q1 e1 where g: "gettoken (arrow m @ CHR '' '' # w @ CHR '' '' # z) = (tok, q1, e1, skip (w @ CHR '' '' # z))"
    and r: "redirect tok c (w @ CHR '' '' # z) (CHR '' '' # z) = REDIR c (w @ CHR '' '' # z) (CHR '' '' # z) m d"
    using gettoken_arrow(1) [OF assms(2)] by blast
  have "parseredirs c (arrow m @ '' '' @ w @ '' '' @ z) =
        parseredirs (REDIR c (w @ CHR '' '' # z) (CHR '' '' # z) m d) z"
    using gettoken_arrow(2) [OF assms(2)] g r
    by (subst parseredirs_eq) (simp add: gettoken_word_space [OF assms(1)] skip_word [OF assms(1)] parseredirs_skip)
  then show ?thesis by (intro exI [of _ "w @ CHR '' '' # z"] exI [of _ "CHR '' '' # z"]) (simp add: word_def)
qed

section \<open>Reading back\<close>

definition next_in :: "string \<Rightarrow> string \<Rightarrow> bool" where
  "next_in toks z = (skip z = [] \<or> hd (skip z) \<in> set toks)"

lemma next_in_skip [simp]: "next_in toks (skip z) = next_in toks z"
  by (simp add: next_in_def)

lemma next_in_not_ahead: "next_in toks z \<Longrightarrow> set toks \<inter> set toks' = {} \<Longrightarrow> \<not> ahead toks' z"
  by (auto simp: next_in_def ahead_def)

lemma next_in_mono: "next_in toks z \<Longrightarrow> set toks \<subseteq> set toks' \<Longrightarrow> next_in toks' z"
  by (auto simp: next_in_def)

lemma next_in_symbol: "c \<in> set symbols \<Longrightarrow> c \<in> set toks \<Longrightarrow> next_in toks (c # z) \<and> ahead toks (c # z)"
  by (simp add: next_in_def ahead_def skip_symbol)

lemma parser_skip:
  "parseexec f (skip s) = parseexec f s" "parsepipe f (skip s) = parsepipe f s" "parseline f (skip s) = parseline f s"
proof -
  show e: "parseexec f (skip s) = parseexec f s" for f by (cases f) (simp_all add: parse_eqs parseredirs_skip)
  show p: "parsepipe f (skip s) = parsepipe f s" for f by (cases f) (simp_all add: parse_eqs e)
  show "parseline f (skip s) = parseline f s" by (cases f) (simp_all add: parse_eqs p)
qed

lemma parse_backs_skip: "parse_backs c (skip z) = parse_backs c z"
  by (subst (1 2) parse_backs_eq) simp

text \<open>The number of arguments of a command that \<^verbatim>\<open>parseexec\<close> reads without parentheses, and how it goes on.\<close>

fun nargs :: "scmd \<Rightarrow> nat option" where
  "nargs (SExec ws) = Some (length ws)"
| "nargs (SRedir c file mode fd) = nargs c"
| "nargs c = None"

definition more_args :: "scmd \<Rightarrow> cmd \<times> string \<Rightarrow> (cmd \<times> string) result" where
  "more_args c = (case nargs c of Some n \<Rightarrow> (\<lambda>(t, s). parse_args n t s) | None \<Rightarrow> Ok)"

lemma parse_args_stop: "next_in ''|)&;'' z \<Longrightarrow> parse_args n c z = Ok (c, skip z)"
  by (subst parse_args_eq) (auto simp: next_in_def ahead_def gettoken_end)

definition reads_exec :: "scmd \<Rightarrow> bool" where
  "reads_exec c = (\<forall>z f. next_in ''<>|)&;'' z \<longrightarrow> 4 * length (print_cmd 0 c @ z) + 2 \<le> f \<longrightarrow>
     (\<exists>t. words_cmd t = c \<and> parseexec f (print_cmd 0 c @ z) = rbind (parseredirs t z) (more_args c)))"

definition reads_pipe :: "scmd \<Rightarrow> bool" where
  "reads_pipe c = (\<forall>z f. next_in '')&;'' z \<longrightarrow> 4 * length (print_cmd 1 c @ z) + 3 \<le> f \<longrightarrow>
     (\<exists>t. words_cmd t = c \<and> parsepipe f (print_cmd 1 c @ z) = Ok (t, skip z)))"

definition reads_back :: "scmd \<Rightarrow> bool" where
  "reads_back c = (\<forall>z f. next_in '')&;'' z \<longrightarrow> 4 * length (print_cmd 2 c @ z) + 3 \<le> f \<longrightarrow>
     (\<exists>t u s. words_cmd t = c \<and> parsepipe f (print_cmd 2 c @ z) = Ok (u, s) \<and> parse_backs u s = parse_backs t z))"

definition reads_line :: "scmd \<Rightarrow> bool" where
  "reads_line c = (\<forall>z f. next_in '')'' z \<longrightarrow> 4 * length (print_cmd 3 c @ z) + 4 \<le> f \<longrightarrow>
     (\<exists>t. words_cmd t = c \<and> parseline f (print_cmd 3 c @ z) = Ok (t, skip z)))"

lemma reads_execD:
  "reads_exec c \<Longrightarrow> next_in ''<>|)&;'' z \<Longrightarrow> 4 * length (print_cmd 0 c @ z) + 2 \<le> f \<Longrightarrow>
     \<exists>t. words_cmd t = c \<and> parseexec f (print_cmd 0 c @ z) = rbind (parseredirs t z) (more_args c)"
  by (simp add: reads_exec_def)

lemma reads_exec_stop:
  assumes "reads_exec c" "next_in ''|)&;'' z" "4 * length (print_cmd 0 c @ z) + 2 \<le> f"
  shows "\<exists>t. words_cmd t = c \<and> parseexec f (print_cmd 0 c @ z) = Ok (t, skip z)"
proof -
  have "next_in ''<>|)&;'' z" using next_in_mono [OF assms(2)] by simp
  then obtain t where t: "words_cmd t = c" "parseexec f (print_cmd 0 c @ z) = rbind (parseredirs t z) (more_args c)"
    using reads_execD [OF assms(1) _ assms(3)] by blast
  have "\<not> ahead ''<>'' z" using next_in_not_ahead [OF assms(2)] by simp
  then have "parseredirs t z = Ok (t, skip z)" by (subst parseredirs_eq) simp
  then have "parseexec f (print_cmd 0 c @ z) = Ok (t, skip z)"
    using t(2) assms(2) by (simp add: more_args_def parse_args_stop split: option.split)
  then show ?thesis using t(1) by blast
qed

subsection \<open>Simple commands\<close>

lemma parse_args_words:
  "list_all is_word ws \<Longrightarrow> ws \<noteq> [] \<Longrightarrow> length us + length ws < MAXARGS \<Longrightarrow>
   \<exists>vs. map (\<lambda>(q, e). word q e) vs = ws \<and>
     parse_args (length us) (EXEC us) (spaced ws @ z) =
     rbind (parseredirs (EXEC (us @ vs)) z) (\<lambda>(t, s). parse_args (length us + length ws) t s)"
proof (induction ws arbitrary: us)
  case (Cons w ws)
  let ?z = "spaced ws @ z" and ?p = "(w @ CHR '' '' # spaced ws @ z, CHR '' '' # spaced ws @ z)"
  have w: "is_word w" and s: "spaced (w # ws) @ z = w @ CHR '' '' # ?z" using Cons.prems by (simp_all add: spaced_def)
  have n: "\<not> ahead ''|)&;'' (w @ CHR '' '' # ?z)"
    by (rule word_not_ahead [OF w]) (simp add: symbols_def)
  have step: "parse_args (length us) (EXEC us) (spaced (w # ws) @ z) =
    rbind (parseredirs (EXEC (us @ [?p])) ?z) (\<lambda>(t, s). parse_args (length us + 1) t s)"
    using n Cons.prems by (subst parse_args_eq) (simp add: s gettoken_word_space [OF w] parseredirs_skip)
  have p: "word (fst ?p) (snd ?p) = w" by (simp add: word_def)
  show ?case
  proof (cases "ws = []")
    case True
    then show ?thesis using step p by (intro exI [of _ "[?p]"]) (simp add: spaced_def)
  next
    case False
    then obtain v vs' where v: "ws = v # vs'" "is_word v" using Cons.prems by (cases ws) auto
    have "\<not> ahead ''<>'' ?z" using word_not_ahead [OF v(2), of "''<>''" "CHR '' '' # spaced vs' @ z"] v(1)
      by (simp add: symbols_def spaced_def)
    then have "parseredirs (EXEC (us @ [?p])) ?z = Ok (EXEC (us @ [?p]), skip ?z)" by (subst parseredirs_eq) simp
    moreover have "skip ?z = ?z" using v skip_word [OF v(2), of "CHR '' '' # spaced vs' @ z"] by (simp add: spaced_def)
    moreover obtain vs where "map (\<lambda>(q, e). word q e) vs = ws"
      "parse_args (length (us @ [?p])) (EXEC (us @ [?p])) ?z =
       rbind (parseredirs (EXEC ((us @ [?p]) @ vs)) z) (\<lambda>(t, s). parse_args (length (us @ [?p]) + length ws) t s)"
      using Cons.IH [of "us @ [?p]"] Cons.prems False by auto
    ultimately show ?thesis using step p by (intro exI [of _ "?p # vs"]) simp
  qed
qed simp

lemma reads_exec_simple:
  assumes "wf_cmd (SExec ws)"
  shows "reads_exec (SExec ws)"
  unfolding reads_exec_def
proof (intro allI impI)
  fix z f assume z: "next_in ''<>|)&;'' z" and "4 * length (print_cmd 0 (SExec ws) @ z) + 2 \<le> f"
  then obtain g where f: "f = Suc g" by (cases f) auto
  show "\<exists>t. words_cmd t = SExec ws \<and> parseexec f (print_cmd 0 (SExec ws) @ z) = rbind (parseredirs t z) (more_args (SExec ws))"
  proof (cases ws)
    case Nil
    have "\<not> ahead ''('' z" using next_in_not_ahead [OF z] by simp
    then show ?thesis using Nil by (intro exI [of _ "EXEC []"]) (simp add: f parse_eqs spaced_def more_args_def)
  next
    case (Cons v vs)
    then have v: "is_word v" using assms by simp
    let ?s = "spaced ws @ z"
    have k: "skip ?s = ?s" using Cons skip_word [OF v, of "CHR '' '' # spaced vs @ z"] by (simp add: spaced_def)
    have n: "\<not> ahead ''<>'' ?s" "\<not> ahead ''('' ?s"
      using word_not_ahead [OF v, of _ "CHR '' '' # spaced vs @ z"] Cons by (simp_all add: symbols_def spaced_def)
    have ne: "ws \<noteq> []" using Cons by simp
    have "\<exists>us. map (\<lambda>(q, e). word q e) us = ws \<and>
      parse_args 0 (EXEC []) ?s = rbind (parseredirs (EXEC us) z) (\<lambda>(t, s). parse_args (length ws) t s)"
      using parse_args_words [OF _ ne, of "[]" z] assms by simp
    then obtain us where "map (\<lambda>(q, e). word q e) us = ws"
      "parse_args 0 (EXEC []) ?s = rbind (parseredirs (EXEC us) z) (\<lambda>(t, s). parse_args (length ws) t s)" by blast
    then show ?thesis using n k
      by (intro exI [of _ "EXEC us"]) (simp add: f parse_eqs parseredirs_eq [of "EXEC []" ?s] more_args_def)
  qed
qed

lemma reads_exec_redir:
  assumes "reads_exec c" "is_word w" "(m, d) \<in> set modes"
  shows "reads_exec (SRedir c w m d)"
  unfolding reads_exec_def
proof (intro allI impI)
  fix z f assume f: "4 * length (print_cmd 0 (SRedir c w m d) @ z) + 2 \<le> f"
  let ?z = "arrow m @ '' '' @ w @ '' '' @ z"
  have "next_in ''<>|)&;'' ?z" using gettoken_arrow(2) [OF assms(3), of "'' '' @ w @ '' '' @ z"]
    by (auto simp: next_in_def ahead_def)
  then obtain t where t: "words_cmd t = c" "parseexec f (print_cmd 0 c @ ?z) = rbind (parseredirs t ?z) (more_args c)"
    using reads_execD [OF assms(1), of ?z f] f by auto
  obtain q e where "word q e = w" "parseredirs t ?z = parseredirs (REDIR t q e m d) z"
    using parseredirs_word [OF assms(2,3)] by blast
  then show "\<exists>t. words_cmd t = SRedir c w m d \<and>
    parseexec f (print_cmd 0 (SRedir c w m d) @ z) = rbind (parseredirs t z) (more_args (SRedir c w m d))"
    using t by (intro exI [of _ "REDIR t q e m d"]) (simp add: more_args_def)
qed

subsection \<open>Pipes, background commands and lists\<close>

lemma reads_pipe_exec:
  assumes "reads_exec c" "print_cmd 1 c = print_cmd 0 c"
  shows "reads_pipe c"
  unfolding reads_pipe_def
proof (intro allI impI)
  fix z f assume z: "next_in '')&;'' z" and f: "4 * length (print_cmd 1 c @ z) + 3 \<le> f"
  then obtain g where g: "f = Suc g" "4 * length (print_cmd 0 c @ z) + 2 \<le> g" using assms(2) by (cases f) auto
  have "next_in ''|)&;'' z" using next_in_mono [OF z] by auto
  then obtain t where "words_cmd t = c" "parseexec g (print_cmd 0 c @ z) = Ok (t, skip z)"
    using reads_exec_stop [OF assms(1) _ g(2)] by blast
  moreover have "\<not> ahead ''|'' z" using next_in_not_ahead [OF z] by simp
  ultimately show "\<exists>t. words_cmd t = c \<and> parsepipe f (print_cmd 1 c @ z) = Ok (t, skip z)"
    using assms(2) by (intro exI [of _ t]) (simp add: g(1) parse_eqs)
qed

lemma reads_pipe_pipe:
  assumes "reads_exec l" "reads_pipe r"
  shows "reads_pipe (SPipe l r)"
  unfolding reads_pipe_def
proof (intro allI impI)
  fix z f assume z: "next_in '')&;'' z" and f: "4 * length (print_cmd 1 (SPipe l r) @ z) + 3 \<le> f"
  let ?z = "''| '' @ print_cmd 1 r @ z"
  obtain g where g: "f = Suc g" "4 * length (print_cmd 0 l @ ?z) + 2 \<le> g" "4 * length (print_cmd 1 r @ z) + 3 \<le> g"
    using f by (cases f) (auto simp: paren_def)
  have b: "next_in ''|)&;'' ?z" "ahead ''|'' ?z" by (simp_all add: next_in_symbol symbols_def)
  obtain t where t: "words_cmd t = l" "parseexec g (print_cmd 0 l @ ?z) = Ok (t, skip ?z)"
    using reads_exec_stop [OF assms(1) b(1) g(2)] by blast
  obtain u where "words_cmd u = r" "parsepipe g (print_cmd 1 r @ z) = Ok (u, skip z)"
    using assms(2) z g(3) unfolding reads_pipe_def by blast
  moreover have "rest (gettoken ?z) = skip (print_cmd 1 r @ z)" using gettoken_symbol_space [of "CHR ''|''"] by simp
  ultimately show "\<exists>t. words_cmd t = SPipe l r \<and> parsepipe f (print_cmd 1 (SPipe l r) @ z) = Ok (t, skip z)"
    using t b(2) by (intro exI [of _ "PIPE t u"]) (simp add: g(1) parse_eqs paren_def parser_skip)
qed

lemma reads_back_pipe:
  assumes "reads_pipe c" "print_cmd 2 c = print_cmd 1 c"
  shows "reads_back c"
  unfolding reads_back_def
proof (intro allI impI)
  fix z f assume "next_in '')&;'' z" "4 * length (print_cmd 2 c @ z) + 3 \<le> f"
  then obtain t where "words_cmd t = c" "parsepipe f (print_cmd 2 c @ z) = Ok (t, skip z)"
    using assms unfolding reads_pipe_def by fastforce
  then show "\<exists>t u s. words_cmd t = c \<and> parsepipe f (print_cmd 2 c @ z) = Ok (u, s) \<and> parse_backs u s = parse_backs t z"
    using parse_backs_skip by blast
qed

lemma reads_back_back:
  assumes "reads_back c"
  shows "reads_back (SBack c)"
  unfolding reads_back_def
proof (intro allI impI)
  fix z f assume f: "4 * length (print_cmd 2 (SBack c) @ z) + 3 \<le> f"
  let ?z = "''& '' @ z"
  have b: "next_in '')&;'' ?z" "ahead ''&'' ?z" by (simp_all add: next_in_symbol symbols_def)
  have "4 * length (print_cmd 2 c @ ?z) + 3 \<le> f" using f by (simp add: paren_def)
  then obtain t u s where t: "words_cmd t = c" "parsepipe f (print_cmd 2 c @ ?z) = Ok (u, s)" "parse_backs u s = parse_backs t ?z"
    using assms b(1) unfolding reads_back_def by blast
  have "rest (gettoken ?z) = skip z" using gettoken_symbol_space [of "CHR ''&''"] by simp
  then have "parse_backs t ?z = parse_backs (BACK t) z" using b(2) by (subst parse_backs_eq) (simp add: parse_backs_skip)
  then show "\<exists>t u s. words_cmd t = SBack c \<and> parsepipe f (print_cmd 2 (SBack c) @ z) = Ok (u, s) \<and>
      parse_backs u s = parse_backs t z"
    using t by (intro exI [of _ "BACK t"] exI [of _ u] exI [of _ s]) (simp add: paren_def)
qed

lemma reads_line_back:
  assumes "reads_back c" "print_cmd 3 c = print_cmd 2 c"
  shows "reads_line c"
  unfolding reads_line_def
proof (intro allI impI)
  fix z f assume z: "next_in '')'' z" and f: "4 * length (print_cmd 3 c @ z) + 4 \<le> f"
  then obtain g where g: "f = Suc g" "4 * length (print_cmd 2 c @ z) + 3 \<le> g" using assms(2) by (cases f) auto
  have "next_in '')&;'' z" using next_in_mono [OF z] by auto
  then obtain t u s where t: "words_cmd t = c" "parsepipe g (print_cmd 2 c @ z) = Ok (u, s)" "parse_backs u s = parse_backs t z"
    using assms(1) g(2) unfolding reads_back_def by blast
  have n: "\<not> ahead ''&'' z" "\<not> ahead '';'' z" using next_in_not_ahead [OF z] by simp_all
  then have "parse_backs t z = (t, skip z)" by (subst parse_backs_eq) simp
  then show "\<exists>t. words_cmd t = c \<and> parseline f (print_cmd 3 c @ z) = Ok (t, skip z)"
    using t n(2) assms(2) by (intro exI [of _ t]) (simp add: g(1) parse_eqs)
qed

lemma reads_line_list:
  assumes "reads_back l" "reads_line r"
  shows "reads_line (SList l r)"
  unfolding reads_line_def
proof (intro allI impI)
  fix z f assume z: "next_in '')'' z" and f: "4 * length (print_cmd 3 (SList l r) @ z) + 4 \<le> f"
  let ?z = "''; '' @ print_cmd 3 r @ z"
  obtain g where g: "f = Suc g" "4 * length (print_cmd 2 l @ ?z) + 3 \<le> g" "4 * length (print_cmd 3 r @ z) + 4 \<le> g"
    using f by (cases f) (auto simp: paren_def)
  have b: "next_in '')&;'' ?z" "ahead '';'' ?z" by (simp_all add: next_in_symbol symbols_def)
  obtain t u s where t: "words_cmd t = l" "parsepipe g (print_cmd 2 l @ ?z) = Ok (u, s)" "parse_backs u s = parse_backs t ?z"
    using assms(1) b(1) g(2) unfolding reads_back_def by blast
  have "\<not> ahead ''&'' ?z" by (simp add: ahead_def skip_symbol symbols_def)
  then have k: "parse_backs t ?z = (t, skip ?z)" by (subst parse_backs_eq) simp
  obtain v where "words_cmd v = r" "parseline g (print_cmd 3 r @ z) = Ok (v, skip z)"
    using assms(2) z g(3) unfolding reads_line_def by blast
  moreover have "rest (gettoken ?z) = skip (print_cmd 3 r @ z)" using gettoken_symbol_space [of "CHR '';''"] by simp
  ultimately show "\<exists>t. words_cmd t = SList l r \<and> parseline f (print_cmd 3 (SList l r) @ z) = Ok (t, skip z)"
    using t b(2) k by (intro exI [of _ "LIST t v"]) (simp add: g(1) parse_eqs paren_def parser_skip)
qed

lemma reads_exec_paren:
  assumes "reads_line c" "print_cmd 0 c = paren True (print_cmd 3 c)" "nargs c = None"
  shows "reads_exec c"
  unfolding reads_exec_def
proof (intro allI impI)
  fix z f assume f: "4 * length (print_cmd 0 c @ z) + 2 \<le> f"
  let ?y = "'') '' @ z" and ?s = "''( '' @ print_cmd 3 c @ '') '' @ z"
  obtain g where g: "f = Suc (Suc g)" "4 * length (print_cmd 3 c @ ?y) + 4 \<le> g"
  proof
    show "f = Suc (Suc (f - 2))" using f by simp
    show "4 * length (print_cmd 3 c @ ?y) + 4 \<le> f - 2" using f assms(2) by (simp add: paren_def)
  qed
  have b: "next_in '')'' ?y" "ahead '')'' ?y" "ahead ''('' ?s" "skip ?s = ?s"
    by (simp_all add: next_in_symbol ahead_def skip_symbol symbols_def)
  obtain t where t: "words_cmd t = c" "parseline g (print_cmd 3 c @ ?y) = Ok (t, skip ?y)"
    using assms(1) b(1) g(2) unfolding reads_line_def by blast
  have r: "rest (gettoken ?s) = skip (print_cmd 3 c @ ?y)" "rest (gettoken ?y) = skip z"
    using gettoken_symbol_space [of "CHR ''(''"] gettoken_symbol_space [of "CHR '')''"] by simp_all
  have "parseblock (Suc g) ?s = parseredirs t z"
    using t(2) b(2,3) r parser_skip(3) [of g "print_cmd 3 c @ ?y"] by (simp add: parse_eqs parseredirs_skip)
  then have "parseexec f (print_cmd 0 c @ z) = rbind (parseredirs t z) (more_args c)"
    using b(3,4) assms(2,3) by (simp add: g(1) parse_eqs(3) paren_def more_args_def)
  then show "\<exists>t. words_cmd t = c \<and> parseexec f (print_cmd 0 c @ z) = rbind (parseredirs t z) (more_args c)"
    using t(1) by blast
qed

lemma reads_all: "wf_cmd c \<Longrightarrow> reads_exec c \<and> reads_pipe c \<and> reads_back c \<and> reads_line c"
proof (induction c)
  case (SExec ws)
  then have e: "reads_exec (SExec ws)" by (rule reads_exec_simple)
  have p: "reads_pipe (SExec ws)" by (rule reads_pipe_exec [OF e]) simp
  have b: "reads_back (SExec ws)" by (rule reads_back_pipe [OF p]) simp
  have "reads_line (SExec ws)" by (rule reads_line_back [OF b]) simp
  then show ?case using e p b by simp
next
  case (SRedir c w m d)
  then have e: "reads_exec (SRedir c w m d)" by (simp add: reads_exec_redir)
  have p: "reads_pipe (SRedir c w m d)" by (rule reads_pipe_exec [OF e]) simp
  have b: "reads_back (SRedir c w m d)" by (rule reads_back_pipe [OF p]) simp
  have "reads_line (SRedir c w m d)" by (rule reads_line_back [OF b]) simp
  then show ?case using e p b by simp
next
  case (SPipe l r)
  then have p: "reads_pipe (SPipe l r)" by (simp add: reads_pipe_pipe)
  have b: "reads_back (SPipe l r)" by (rule reads_back_pipe [OF p]) (simp add: paren_def)
  have n: "reads_line (SPipe l r)" by (rule reads_line_back [OF b]) (simp add: paren_def)
  have "reads_exec (SPipe l r)" by (rule reads_exec_paren [OF n]) (simp_all add: paren_def)
  then show ?case using p b n by simp
next
  case (SList l r)
  then have n: "reads_line (SList l r)" by (simp add: reads_line_list)
  have e: "reads_exec (SList l r)" by (rule reads_exec_paren [OF n]) (simp_all add: paren_def)
  have p: "reads_pipe (SList l r)" by (rule reads_pipe_exec [OF e]) (simp add: paren_def)
  have "reads_back (SList l r)" by (rule reads_back_pipe [OF p]) (simp add: paren_def)
  then show ?case using e p n by simp
next
  case (SBack c)
  then have b: "reads_back (SBack c)" by (simp add: reads_back_back)
  have n: "reads_line (SBack c)" by (rule reads_line_back [OF b]) (simp add: paren_def)
  have e: "reads_exec (SBack c)" by (rule reads_exec_paren [OF n]) (simp_all add: paren_def)
  have "reads_pipe (SBack c)" by (rule reads_pipe_exec [OF e]) (simp add: paren_def)
  then show ?case using e b n by simp
qed

text \<open>
  C9: the shell reads back every command. Printing a well-formed command, with parentheses where a pipe stands
  left of a pipe, a list before an ampersand and so on, and parsing the line returns the command: the
  grammar of the parser covers all of its commands, and every pipe, list, redirection and ampersand binds the
  way the printed form says.
\<close>

theorem parse_print:
  assumes "wf_cmd c"
  shows "parsecmd (print_cmd 3 c) = Ok c"
proof -
  let ?line = "print_cmd 3 c"
  have "reads_line c" using reads_all [OF assms] by simp
  moreover have "next_in '')'' []" "4 * length (?line @ []) + 4 \<le> parse_depth ?line"
    by (simp_all add: next_in_def parse_depth_def)
  ultimately obtain t where t: "words_cmd t = c" "parseline (parse_depth ?line) (?line @ []) = Ok (t, skip [])"
    unfolding reads_line_def by blast
  then have "wf_tree ?line t" using keeps_parser(1) [of ?line ?line "parse_depth ?line"] t by simp
  then show ?thesis using t by (simp add: parsecmd_def peek_eq strings_nulterminate)
qed

theorem parse_print_witness:
  "parsecmd ''( cat < f ; ls ) | wc -l & '' =
   Ok (SBack (SPipe (SList (SRedir (SExec [''cat'']) ''f'' 0 0) (SExec [''ls''])) (SExec [''wc'', ''-l''])))"
proof -
  let ?c = "SBack (SPipe (SList (SRedir (SExec [''cat'']) ''f'' 0 0) (SExec [''ls''])) (SExec [''wc'', ''-l'']))"
  have "wf_cmd ?c" by code_simp
  moreover have "print_cmd 3 ?c = ''( cat < f ; ls ) | wc -l & ''" by code_simp
  ultimately show ?thesis using parse_print [of ?c] by simp
qed

end
