(* ===== verification/Spec2Isabelle.thy ===== *)
theory Spec2Isabelle
  imports Freewalk Sleepwake Proclife Queuespec Pipespec Trapspec Copyspec Filespec Logtrans Crash Grep Shellprint
begin

text \<open>
  A verification library for the kernel of this repository, xv6 for RISC-V extended with further
  schedulers (round robin, first come first served, lottery, priorities, feedback queues), system call
  tracing, timer alarms and \<^verbatim>\<open>waitx\<close>, and for two of its user programs, the parser of the shell and \<^verbatim>\<open>grep\<close>.

  \<^bold>\<open>The program.\<close> A user program enters the kernel through \<^verbatim>\<open>usertrap\<close> (\<^verbatim>\<open>kernel/trap.c\<close>), which
  dispatches interrupts and, through \<^verbatim>\<open>syscall\<close> (\<^verbatim>\<open>kernel/syscall.c\<close>), the system calls of \<^verbatim>\<open>kernel/sysproc.c\<close> and
  \<^verbatim>\<open>kernel/sysfile.c\<close>. These work on processes (\<^verbatim>\<open>kernel/proc.c\<close>), their address spaces (\<^verbatim>\<open>kernel/vm.c\<close>) made of
  pages from \<^verbatim>\<open>kernel/kalloc.c\<close>, and open files (\<^verbatim>\<open>kernel/file.c\<close>), which are pipes (\<^verbatim>\<open>kernel/pipe.c\<close>), the console or
  inodes (\<^verbatim>\<open>kernel/fs.c\<close>). Inodes are stored in blocks: the log (\<^verbatim>\<open>kernel/log.c\<close>) makes the writes of a system call
  atomic, over the buffer cache (\<^verbatim>\<open>kernel/bio.c\<close>) and the disk driver (\<^verbatim>\<open>kernel/virtio_disk.c\<close>). Spin locks and
  sleep locks protect the shared state.

  \<^bold>\<open>How it is modelled.\<close> C integers are words of their width, a C \<^verbatim>\<open>int\<close> being read with \<open>sint\<close>. Memory is a
  function from 64-bit addresses to bytes; page tables, the free list, trap frames and block buffers live in
  it. A function that can stop returns \<open>Ok\<close> or \<open>Stop\<close> (theory \<open>Prelude\<close>): \<open>Panic\<close> with the kernel's
  message, \<open>Fault\<close> for an access the C code must not make, \<open>Sleeps\<close>, \<open>Spinning\<close>, and \<open>OutOfFuel\<close>. A stop carries no state,
  so what is printed just before a panic is not recorded. The global variables
  are one record, extended from layer to layer (\<open>hart\<close>, \<open>kmem\<close>, \<open>pstate\<close>, \<open>slstate\<close>, \<open>vstate\<close>, \<open>lstate\<close>,
  \<open>fstate\<close>, \<open>cstate\<close>, \<open>kstate\<close>, \<open>sstate\<close>, \<open>tstate\<close>), and each operation is polymorphic in the layers above
  its own. A function that gives up the processor takes what happens meanwhile as an argument, the environment.

  \<^bold>\<open>The theories of the model.\<close> Each has the definitions of its source files in their order.
  \<^item> \<open>Prelude\<close>, \<open>Riscv\<close>: types, outcomes, loads and stores; \<^verbatim>\<open>kernel/riscv.h\<close>, \<^verbatim>\<open>kernel/memlayout.h\<close>, \<^verbatim>\<open>kernel/param.h\<close>.
  \<^item> \<open>Cstring\<close>: \<^verbatim>\<open>kernel/string.c\<close>. \<open>Spinlock\<close>: \<^verbatim>\<open>kernel/spinlock.c\<close>. \<open>Kalloc\<close>: \<^verbatim>\<open>kernel/kalloc.c\<close>. \<open>Vm\<close>: \<^verbatim>\<open>kernel/vm.c\<close>.
  \<^item> \<open>Proc\<close>, \<open>Sched\<close>, \<open>Fork\<close>: \<^verbatim>\<open>kernel/proc.c\<close>, one round of \<^verbatim>\<open>scheduler\<close> for each of the five policies.
  \<^item> \<open>Sleeplock\<close>, \<open>Virtio\<close>, \<open>Bio\<close>, \<open>Log\<close>, \<open>Fs\<close>, \<open>Dir\<close>: \<^verbatim>\<open>kernel/sleeplock.c\<close>, \<^verbatim>\<open>kernel/virtio_disk.c\<close>, \<^verbatim>\<open>kernel/bio.c\<close>,
    \<^verbatim>\<open>kernel/log.c\<close> and the two halves of \<^verbatim>\<open>kernel/fs.c\<close>.
  \<^item> \<open>Console\<close>, \<open>File\<close>, \<open>Exec\<close>, \<open>Sysfile\<close>, \<open>Trap\<close>: \<^verbatim>\<open>kernel/uart.c\<close>, \<^verbatim>\<open>kernel/console.c\<close>, \<^verbatim>\<open>kernel/printf.c\<close>; \<^verbatim>\<open>kernel/pipe.c\<close>,
    \<^verbatim>\<open>kernel/file.c\<close>; \<^verbatim>\<open>kernel/exec.c\<close>; \<^verbatim>\<open>kernel/sysfile.c\<close>; \<^verbatim>\<open>kernel/sysproc.c\<close>, \<^verbatim>\<open>kernel/syscall.c\<close>, \<^verbatim>\<open>kernel/trap.c\<close>,
    \<^verbatim>\<open>kernel/plic.c\<close> and \<^verbatim>\<open>kernel/main.c\<close>.
  \<^item> \<open>Shell\<close>, \<open>Grep\<close>: the parser of \<^verbatim>\<open>user/sh.c\<close>, and \<^verbatim>\<open>user/grep.c\<close> without its \<^verbatim>\<open>main\<close>.
  \<^item> \<open>Demo\<close>: concrete machines on which the theorems are instantiated.

  \<^bold>\<open>What is shown.\<close>
  \<^item> \<open>Cstring\<close>: overlapping \<^verbatim>\<open>memmove\<close>, \<^verbatim>\<open>strncmp\<close>, termination of what \<^verbatim>\<open>safestrcpy\<close> writes.
  \<^item> \<open>Spinlock\<close>: mutual exclusion under interleaving, the nesting of \<^verbatim>\<open>push_off\<close> and \<^verbatim>\<open>pop_off\<close>; the view from
    one hart, as a set of held locks, that all other theories use, refines it (locale \<open>lock_view\<close>).
  \<^item> \<open>Kalloc\<close>: the allocator never hands out a page twice and gets all pages back (locale \<open>page_allocator\<close>); freeing a page
    twice destroys the free list.
  \<^item> \<open>Vmtree\<close>, \<open>Uvm\<close>, \<open>Uspace\<close>, \<open>Freewalk\<close>, \<open>Copyspec\<close>, \<open>Growspec\<close>: page tables as trees; mapping,
    growing, shrinking, copying and freeing an address space, with an account of every page on success and
    on failure. \<open>Ucopy\<close>: \<^verbatim>\<open>copyin\<close> and \<^verbatim>\<open>copyout\<close> transfer exactly the bytes of mapped ranges.
  \<^item> \<open>Procspec\<close>, \<open>Proclife\<close>, \<open>Sleepwake\<close>: the clock tick, the page table of a process, the page that
    \<^verbatim>\<open>freeproc\<close> loses, and why no wakeup is lost. \<open>Schedspec\<close>, \<open>Queuespec\<close>: what each policy chooses (locale \<open>chooser\<close>),
    the turns of round robin, the queues as lists, and where the feedback queues and the lottery go wrong.
  \<^item> \<open>Pipespec\<close>, \<open>Filespec\<close>, \<open>Trapspec\<close>: pipes are queues even when their counters wrap around; \<^verbatim>\<open>dup\<close> and
    \<^verbatim>\<open>close\<close>; the alarm restores every register but \<^verbatim>\<open>a0\<close>, which
    the dispatcher overwrites.
  \<^item> \<open>Diskspec\<close>, \<open>Biospec\<close>, \<open>Blockstore\<close>: every disk request completes; the cache is a store of blocks. The locales
    \<open>disk_driver\<close> and \<open>block_store\<close> are the two interfaces, and the log is verified in the second.
    \<open>Logspec\<close>, \<open>Logrun\<close>, \<open>Recover\<close>, \<open>Crash\<close>: a crash at any point of a commit leaves all of the transaction or
    nothing. \<open>Logtrans\<close>: when \<^verbatim>\<open>log_write\<close> has room, for a log area of any size; the reservation of \<^verbatim>\<open>begin_op\<close> is one block
    too generous for the area \<^verbatim>\<open>mkfs\<close> lays out.
  \<^item> \<open>Shellspec\<close>, \<open>Shellprint\<close>: the parser returns on every line, returns well-formed commands only, and reads back
    every command from its printed form. \<open>Grep\<close>: exactly the matching lines are printed.

  \<^bold>\<open>Parameters.\<close> The disk is a device that serves a request as the virtio specification says (\<open>disk_device\<close>);
  \<open>ring_device\<close> is one such device. Reads of device registers and what \<^verbatim>\<open>read\<close> returns to \<^verbatim>\<open>grep\<close> are
  functions. What runs while a process sleeps, or after \<^verbatim>\<open>swtch\<close>, is the environment.

  \<^bold>\<open>Fuel.\<close> A loop that sleeps until a condition holds has the number of times it may be woken in the
  environment, since nothing bounds that number in the code; the theorems about such loops say for which
  environments they return, with one wakeup for a disk request. Other bounds are reached by no run that the C code
  can make: \<^verbatim>\<open>bget\<close> walks a ring of \<^verbatim>\<open>NBUF\<close> buffers, \<^verbatim>\<open>freewalk\<close> a tree of three levels, \<^verbatim>\<open>virtio_disk_intr\<close> the
  distance of two 16-bit counters, \<^verbatim>\<open>free_chain\<close> the eight descriptors, and \<^verbatim>\<open>parsecmd\<close> starts with four levels per
  byte of the line, which is proved to suffice. The remaining loops are recursive functions with termination proofs.

  \<^bold>\<open>Not modelled.\<close> Assembly (\<^verbatim>\<open>entry.S\<close>, \<^verbatim>\<open>trampoline.S\<close>, \<^verbatim>\<open>kernelvec.S\<close>, \<^verbatim>\<open>swtch.S\<close>, \<^verbatim>\<open>initcode.S\<close>) and the machine mode
  of \<^verbatim>\<open>start.c\<close>, which move registers the model does not have; the second half of \<^verbatim>\<open>main\<close>, where the other harts wait;
  \<^verbatim>\<open>ramdisk.c\<close>, which is not built; \<^verbatim>\<open>mkfs\<close>, a program of the host; \<^verbatim>\<open>runcmd\<close> and the main loop of the shell, \<^verbatim>\<open>umalloc.c\<close>
  and the remaining user programs, which are sequences of system calls or tests of them. Weak memory and
  the timing of interrupts inside kernel code are outside the model: between two lock operations a hart runs alone.
\<close>

end
